(* ===== verification/Mia_Prelude.thy ===== *)
theory Mia_Prelude
  imports Main "HOL-Library.Word" "HOL-Library.Monad_Syntax"
begin

text \<open>
  Shared vocabulary of the development: the C integer types as words, the byte
  layout of a word in the memory of the little-endian target, the byte-order
  conversions the program uses on the wire, decimal printing as \<^verbatim>\<open>sprintf\<close>
  does it, and the collections of rewrite rules the component theories extend:
  \<^verbatim>\<open>wire\<close> (byte layouts), \<^verbatim>\<open>cword\<close> (readings of machine words).
\<close>

unbundle bit_operations_syntax

named_theorems wire
named_theorems cword

type_synonym u8 = "8 word"
type_synonym u16 = "16 word"
type_synonym u32 = "32 word"
type_synonym u64 = "64 word"
type_synonym addr = nat

abbreviation (input) NULL :: addr where
  "NULL \<equiv> 0"

section \<open>The bytes of a word\<close>

text \<open>\<^verbatim>\<open>word_bytes n w\<close> are the \<^verbatim>\<open>n\<close> lowest bytes of \<^verbatim>\<open>w\<close> in the order of a
  little-endian memory; \<^verbatim>\<open>bytes_word\<close> reads them back.\<close>

primrec word_bytes :: "nat \<Rightarrow> 'a::len word \<Rightarrow> u8 list" where
  "word_bytes 0 w = []"
| "word_bytes (Suc n) w = ucast w # word_bytes n (drop_bit 8 w)"

primrec bytes_word :: "u8 list \<Rightarrow> 'a::len word" where
  "bytes_word [] = 0"
| "bytes_word (b # bs) = ucast b OR push_bit 8 (bytes_word bs)"

text \<open>\<^verbatim>\<open>cpu_to_be16/32/64\<close>, \<^verbatim>\<open>be32toh\<close>, \<^verbatim>\<open>htons\<close> and \<^verbatim>\<open>__builtin_bswap\<close> on a
  little-endian machine: the bytes of the word in reverse order.\<close>

definition swap_bytes :: "'a::len word \<Rightarrow> 'a word" where
  "swap_bytes w = bytes_word (rev (word_bytes (LENGTH('a) div 8) w))"

lemma length_word_bytes [simp, wire]: "length (word_bytes n w) = n"
  by (induction n arbitrary: w) simp_all

lemma word_bytes_numeral [simp]:
  "word_bytes (numeral k) w = ucast w # word_bytes (pred_numeral k) (drop_bit 8 w)"
  by (simp add: numeral_eq_Suc)

lemma bytes_word_word_bytes_take:
  "bytes_word (word_bytes n w) = take_bit (8 * n) (w :: 'a::len word)"
proof (induction n arbitrary: w)
  case 0
  show ?case by simp
next
  case (Suc n)
  show ?case
    by (rule bit_word_eqI)
       (auto simp: Suc bit_or_iff bit_push_bit_iff bit_take_bit_iff bit_drop_bit_eq bit_unsigned_iff
             dest: bit_imp_le_length)
qed

lemma bytes_word_word_bytes [wire]:
  "LENGTH('a) \<le> 8 * n \<Longrightarrow> bytes_word (word_bytes n w) = (w :: 'a::len word)"
  by (rule bit_word_eqI) (auto simp: bytes_word_word_bytes_take bit_take_bit_iff)

lemma word_bytes_take_bit:
  "8 * n \<le> m \<Longrightarrow> word_bytes n (take_bit m w) = word_bytes n (w :: 'a::len word)"
proof (induction n arbitrary: m w)
  case 0
  show ?case by simp
next
  case (Suc n)
  have "ucast (take_bit m w) = (ucast w :: u8)"
    using Suc.prems by (intro bit_word_eqI) (auto simp: bit_unsigned_iff bit_take_bit_iff)
  moreover have "drop_bit 8 (take_bit m w) = take_bit (m - 8) (drop_bit 8 w)"
    by (simp add: drop_bit_take_bit)
  ultimately show ?case
    using Suc.prems Suc.IH [of "m - 8" "drop_bit 8 w"] by simp
qed

lemma word_bytes_bytes_word:
  "8 * length bs \<le> LENGTH('a) \<Longrightarrow> word_bytes (length bs) (bytes_word bs :: 'a::len word) = bs"
proof (induction bs)
  case Nil
  show ?case by simp
next
  case (Cons b bs)
  have hd: "ucast (ucast b OR push_bit 8 (bytes_word bs) :: 'a word) = b"
    using Cons.prems
    by (intro bit_word_eqI) (auto simp: bit_or_iff bit_push_bit_iff bit_unsigned_iff)
  have tl: "drop_bit 8 (ucast b OR push_bit 8 (bytes_word bs) :: 'a word)
      = take_bit (LENGTH('a) - 8) (bytes_word bs)"
    using Cons.prems
    by (intro bit_word_eqI)
       (auto simp: bit_drop_bit_eq bit_or_iff bit_push_bit_iff bit_unsigned_iff bit_take_bit_iff
             dest: bit_imp_le_length)
  show ?case using Cons by (simp add: hd tl word_bytes_take_bit del: drop_bit_or)
qed

lemma word_bytes_bytes_word_n [wire]:
  "length bs = n \<Longrightarrow> 8 * n \<le> LENGTH('a) \<Longrightarrow> word_bytes n (bytes_word bs :: 'a::len word) = bs"
  using word_bytes_bytes_word by blast

lemma word_bytes_swap_bytes [wire]:
  assumes "8 dvd LENGTH('a)" "n = LENGTH('a) div 8"
  shows "word_bytes n (swap_bytes (w :: 'a::len word)) = rev (word_bytes n w)"
  using assms by (auto simp: swap_bytes_def intro!: word_bytes_bytes_word_n)

lemma swap_bytes_swap_bytes [wire]:
  assumes "8 dvd LENGTH('a)"
  shows "swap_bytes (swap_bytes w) = (w :: 'a::len word)"
proof -
  have "swap_bytes (swap_bytes w)
      = (bytes_word (rev (word_bytes (LENGTH('a) div 8) (swap_bytes w))) :: 'a word)"
    by (simp add: swap_bytes_def)
  also have "\<dots> = bytes_word (word_bytes (LENGTH('a) div 8) w)"
    using assms by (simp add: word_bytes_swap_bytes)
  also have "\<dots> = w"
    using assms by (intro bytes_word_word_bytes) auto
  finally show ?thesis .
qed

lemma word_of_unat_eq: "unat w = n \<Longrightarrow> w = of_nat n"
  by auto

lemma unat_u32_less: "unat (w :: u32) < 4294967296"
proof -
  have "unat w < 2 ^ LENGTH(32)" by (rule unsigned_less)
  then show ?thesis by simp
qed

lemma unat_of_nat_le:
  assumes "m \<le> unat (n :: 'a::len word)"
  shows "unat (of_nat m :: 'a word) = m"
proof -
  have "unat n < 2 ^ LENGTH('a)" by (rule unsigned_less)
  with assms have "m < 2 ^ LENGTH('a)" by (rule le_less_trans)
  then show ?thesis by (simp add: unat_of_nat take_bit_eq_mod)
qed

text \<open>The value of a little-endian block.\<close>

primrec bytes_nat :: "u8 list \<Rightarrow> nat" where
  "bytes_nat [] = 0"
| "bytes_nat (b # bs) = unat b + 256 * bytes_nat bs"

lemma unat_u8_less: "unat (b :: u8) < 256"
proof -
  have "unat b < 2 ^ LENGTH(8)" by (rule unsigned_less)
  then show ?thesis by simp
qed

lemma bytes_nat_less: "bytes_nat bs < 256 ^ length bs"
proof (induction bs)
  case (Cons b bs)
  then have "bytes_nat bs + 1 \<le> 256 ^ length bs" by simp
  then have "256 * (bytes_nat bs + 1) \<le> 256 * 256 ^ length bs" by (rule mult_le_mono2)
  with unat_u8_less [of b] show ?case by simp
qed simp

lemma unat_bytes_word:
  "8 * length bs \<le> LENGTH('a) \<Longrightarrow> unat (bytes_word bs :: 'a::len word) = bytes_nat bs"
proof (induction bs)
  case (Cons b bs)
  let ?w = "bytes_word bs :: 'a word"
  have len: "8 \<le> LENGTH('a)" and ih: "unat ?w = bytes_nat bs" using Cons by simp_all
  have "(256 :: nat) ^ length (b # bs) = 2 ^ (8 * length (b # bs))" by (simp only: power_mult) simp
  also have "\<dots> \<le> 2 ^ LENGTH('a)" using Cons.prems by (intro power_increasing) simp_all
  finally have less: "unat b + 256 * bytes_nat bs < 2 ^ LENGTH('a)"
    using bytes_nat_less [of "b # bs"] by (simp only: bytes_nat.simps)
  have ub: "unat (ucast b :: 'a word) = unat b"
  proof -
    have "(2 :: nat) ^ 8 \<le> 2 ^ LENGTH('a)" using len by (rule power_increasing) simp
    with unat_u8_less [of b] have "unat b < 2 ^ LENGTH('a)" by simp
    then show ?thesis by (simp add: unsigned_ucast_eq take_bit_nat_eq_self)
  qed
  have "bytes_word (b # bs) = ucast b + push_bit 8 ?w"
    by (simp, rule disjunctive_add [symmetric]) (auto simp: bit_push_bit_iff bit_unsigned_iff dest: bit_imp_le_length)
  also have "push_bit 8 ?w = of_nat (256 * bytes_nat bs)"
    by (simp add: push_bit_eq_mult flip: ih)
  also have "(ucast b :: 'a word) = of_nat (unat b)"
    by (simp flip: ub)
  finally have "bytes_word (b # bs) = (of_nat (unat b + 256 * bytes_nat bs) :: 'a word)"
    by simp
  then have "unat (bytes_word (b # bs) :: 'a word) = (unat b + 256 * bytes_nat bs) mod 2 ^ LENGTH('a)"
    by (simp only: unat_of_nat take_bit_eq_mod)
  then show ?case using less by simp
qed simp

section \<open>Decimal printing\<close>

text \<open>The text of \<^verbatim>\<open>%u\<close>, \<^verbatim>\<open>%llu\<close> (\<^verbatim>\<open>print_nat\<close>) and \<^verbatim>\<open>%d\<close> (\<^verbatim>\<open>print_int\<close>), and the
  reading of a run of decimal digits.\<close>

definition digit_char :: "nat \<Rightarrow> char" where
  "digit_char d = char_of (48 + d)"

fun print_nat :: "nat \<Rightarrow> string" where
  "print_nat n = (if n < 10 then [digit_char n] else print_nat (n div 10) @ [digit_char (n mod 10)])"

declare print_nat.simps [simp del]

definition print_int :: "int \<Rightarrow> string" where
  "print_int i = (if i < 0 then CHR ''-'' # print_nat (nat (- i)) else print_nat (nat i))"

definition is_digit :: "char \<Rightarrow> bool" where
  "is_digit c \<longleftrightarrow> 48 \<le> (of_char c :: nat) \<and> (of_char c :: nat) \<le> 57"

definition digit_val :: "char \<Rightarrow> nat" where
  "digit_val c = of_char c - 48"

definition read_digits :: "nat \<Rightarrow> string \<Rightarrow> nat" where
  "read_digits a cs = foldl (\<lambda>n c. 10 * n + digit_val c) a cs"

definition is_space :: "char \<Rightarrow> bool" where
  "is_space c \<longleftrightarrow> c = CHR '' '' \<or> (9 \<le> (of_char c :: nat) \<and> (of_char c :: nat) \<le> 13)"

text \<open>\<^verbatim>\<open>atoi\<close> of the C library.\<close>

definition atoi :: "string \<Rightarrow> int" where
  "atoi str = (let s = dropWhile is_space str; num = (\<lambda>t. int (read_digits 0 (takeWhile is_digit t))) in
     case s of [] \<Rightarrow> 0 | c # t \<Rightarrow> if c = CHR ''-'' then - num t else if c = CHR ''+'' then num t else num s)"

text \<open>\<^verbatim>\<open>simple_strtol(s, NULL, 10)\<close> of the kernel, before truncation to the type it is stored in.\<close>

definition simple_strtol :: "string \<Rightarrow> int" where
  "simple_strtol s = (let num = (\<lambda>t. int (read_digits 0 (takeWhile is_digit t))) in
     case s of c # t \<Rightarrow> if c = CHR ''-'' then - num t else num s | [] \<Rightarrow> 0)"

text \<open>A text in a zero-filled array of \<^verbatim>\<open>n\<close> characters.\<close>

definition pad :: "nat \<Rightarrow> string \<Rightarrow> string" where
  "pad n s = s @ replicate (n - length s) (CHR 0x00)"

lemma of_char_digit_char [simp]:
  "d < 10 \<Longrightarrow> (of_char (digit_char d) :: nat) = 48 + d"
  by (simp add: digit_char_def)

lemma is_digit_digit_char [simp]: "d < 10 \<Longrightarrow> is_digit (digit_char d)"
  by (simp add: is_digit_def)

lemma digit_val_digit_char [simp]: "d < 10 \<Longrightarrow> digit_val (digit_char d) = d"
  by (simp add: digit_val_def)

lemma print_nat_digits: "c \<in> set (print_nat n) \<Longrightarrow> is_digit c"
proof (induction n rule: print_nat.induct)
  case (1 n)
  then show ?case by (cases "n < 10") (auto simp: print_nat.simps [of n])
qed

lemma print_nat_nonempty [simp]: "print_nat n \<noteq> []"
  by (simp add: print_nat.simps [of n])

lemma read_digits_print_nat [simp]: "read_digits 0 (print_nat n) = n"
proof (induction n rule: print_nat.induct)
  case (1 n)
  then show ?case
    by (cases "n < 10") (simp_all add: print_nat.simps [of n] read_digits_def)
qed

lemma print_nat_inject [simp]: "print_nat m = print_nat n \<longleftrightarrow> m = n"
  using read_digits_print_nat by metis

lemma length_print_nat: "n < 10 ^ k \<Longrightarrow> 0 < k \<Longrightarrow> length (print_nat n) \<le> k"
proof (induction k arbitrary: n)
  case (Suc k)
  show ?case
  proof (cases "n < 10")
    case True
    then show ?thesis by (simp add: print_nat.simps [of n])
  next
    case False
    then have "0 < k" using Suc.prems by (cases k) simp_all
    moreover have "n div 10 < 10 ^ k" using Suc.prems by (simp add: less_mult_imp_div_less mult.commute)
    ultimately show ?thesis using Suc.IH [of "n div 10"] False by (simp add: print_nat.simps [of n])
  qed
qed simp

lemma digit_not_special:
  "is_digit c \<Longrightarrow> c \<noteq> CHR '':'' \<and> c \<noteq> CHR ''-'' \<and> c \<noteq> CHR ''.'' \<and> c \<noteq> CHR '','' \<and> c \<noteq> CHR ''*''"
  by (auto simp: is_digit_def)

lemma print_int_inject [simp]: "print_int i = print_int j \<longleftrightarrow> i = j"
proof -
  have neq: "CHR ''-'' # xs \<noteq> print_nat n" for xs n
    using print_nat_digits [of "CHR ''-''" n] digit_not_special [of "CHR ''-''"]
    by (metis list.set_intros(1))
  show ?thesis
    using neq neq [symmetric] by (auto simp: print_int_def)
qed

lemma takeWhile_print_nat [simp]: "takeWhile is_digit (print_nat n) = print_nat n"
  unfolding takeWhile_eq_all_conv using print_nat_digits by blast

lemma simple_strtol_print_nat [simp]: "simple_strtol (print_nat n) = int n"
proof -
  obtain c t where ct: "print_nat n = c # t" by (cases "print_nat n") simp_all
  then have "c \<noteq> CHR ''-''" using print_nat_digits [of c n] digit_not_special by auto
  with ct show ?thesis
    using read_digits_print_nat [of n] takeWhile_print_nat [of n] by (simp add: simple_strtol_def Let_def)
qed

lemma simple_strtol_print_int [simp]: "simple_strtol (print_int i) = i"
  by (cases "i < 0") (simp_all add: print_int_def simple_strtol_def [of "_ # _"] Let_def)

lemma print_int_chars: "c \<in> set (print_int i) \<Longrightarrow> c = CHR ''-'' \<or> is_digit c"
  using print_nat_digits by (auto simp: print_int_def split: if_splits)

lemma print_int_nonempty [simp]: "print_int i \<noteq> []"
  by (simp add: print_int_def)

lemma length_pad [simp]: "length (pad n s) = max n (length s)"
  by (simp add: pad_def)

section \<open>Lists\<close>

lemma nth_list_update_mod:
  "length xs = n \<Longrightarrow> i < n \<Longrightarrow> xs[i := v] ! j = (if j = i then v else xs ! j)"
  by (cases "j = i") simp_all


end
