(* ===== verification/Fifo.thy ===== *)
theory Fifo
  imports Mia_Prelude
begin

text \<open>
  The contract of a first-in first-out store with one writer and one reader: an
  event is a write of one element or a read, which hands out some of the
  oldest elements (all of them, one, or none when its allocation fails). The
  sample ring of the interruption module and the injection queue of the
  deaggregation module are instances.
\<close>

datatype ('a, 'e) fifo_event = Put 'a | Take 'e

text \<open>A run of a writer \<^verbatim>\<open>put\<close> and a reader \<^verbatim>\<open>take\<close>: the elements handed out, in order,
  and the final state.\<close>

fun fifo_run :: "('w \<Rightarrow> 's \<Rightarrow> 's) \<Rightarrow> ('e \<Rightarrow> 's \<Rightarrow> 'a list \<times> 's) \<Rightarrow> ('w, 'e) fifo_event list \<Rightarrow> 's
    \<Rightarrow> 'a list \<times> 's" where
  "fifo_run put tk [] s = ([], s)"
| "fifo_run put tk (Put x # evs) s = fifo_run put tk evs (put x s)"
| "fifo_run put tk (Take e # evs) s =
     (case tk e s of (out, s') \<Rightarrow> case fifo_run put tk evs s' of (outs, s'') \<Rightarrow> (out @ outs, s''))"

fun written :: "('w, 'e) fifo_event list \<Rightarrow> 'w list" where
  "written [] = []"
| "written (Put x # evs) = x # written evs"
| "written (Take e # evs) = written evs"

text \<open>Every write of the run finds a free place.\<close>

fun has_room :: "('s \<Rightarrow> bool) \<Rightarrow> ('w \<Rightarrow> 's \<Rightarrow> 's) \<Rightarrow> ('e \<Rightarrow> 's \<Rightarrow> 'a list \<times> 's)
    \<Rightarrow> ('w, 'e) fifo_event list \<Rightarrow> 's \<Rightarrow> bool" where
  "has_room room put tk [] s = True"
| "has_room room put tk (Put x # evs) s = (room s \<and> has_room room put tk evs (put x s))"
| "has_room room put tk (Take e # evs) s = has_room room put tk evs (snd (tk e s))"

lemma fifo_run_append:
  "fifo_run put tk (xs @ ys) s = (let (a, s') = fifo_run put tk xs s; (b, s'') = fifo_run put tk ys s' in (a @ b, s''))"
proof (induction xs arbitrary: s)
  case (Cons ev xs)
  then show ?case by (cases ev) (auto simp: Let_def split: prod.splits)
qed (simp add: case_prod_unfold)

locale fifo =
  fixes content :: "'s \<Rightarrow> 'a list" and invar :: "'s \<Rightarrow> bool" and room :: "'s \<Rightarrow> bool"
    and elem :: "'w \<Rightarrow> 'a" and put :: "'w \<Rightarrow> 's \<Rightarrow> 's" and tk :: "'e \<Rightarrow> 's \<Rightarrow> 'a list \<times> 's"
  assumes put_invar: "invar s \<Longrightarrow> room s \<Longrightarrow> invar (put x s)"
    and put_content: "invar s \<Longrightarrow> room s \<Longrightarrow> content (put x s) = content s @ [elem x]"
    and take_invar: "invar s \<Longrightarrow> invar (snd (tk e s))"
    and take_content: "invar s \<Longrightarrow> fst (tk e s) @ content (snd (tk e s)) = content s"
begin

lemma run_invar:
  "invar s \<Longrightarrow> has_room room put tk evs s \<Longrightarrow> invar (snd (fifo_run put tk evs s))"
proof (induction evs arbitrary: s)
  case (Cons ev evs)
  then show ?case
    by (cases ev) (simp_all add: put_invar take_invar case_prod_unfold)
qed simp

lemma run_order:
  assumes "invar s" "has_room room put tk evs s"
  shows "fst (fifo_run put tk evs s) @ content (snd (fifo_run put tk evs s)) = content s @ map elem (written evs)"
  using assms
proof (induction evs arbitrary: s)
  case (Cons ev evs)
  show ?case
  proof (cases ev)
    case (Put x)
    with Cons show ?thesis by (simp add: put_invar put_content)
  next
    case (Take e)
    have "fst (tk e s) @ content (snd (tk e s)) = content s"
      using Cons.prems take_content by blast
    moreover have "fst (fifo_run put tk evs (snd (tk e s)))
        @ content (snd (fifo_run put tk evs (snd (tk e s)))) = content (snd (tk e s)) @ map elem (written evs)"
      using Take Cons take_invar by simp
    ultimately show ?thesis
      using Take by (simp add: case_prod_unfold)
  qed
qed simp

text \<open>What the reader has seen is a prefix of what was stored, nothing is
  duplicated, reordered or invented.\<close>

lemma run_prefix:
  assumes "invar s" "has_room room put tk evs s" "content s = []"
  shows "take (length (fst (fifo_run put tk evs s))) (map elem (written evs)) = fst (fifo_run put tk evs s)"
  using run_order [OF assms(1,2)] assms(3) by (metis append_Nil append_eq_conv_conj)

end

end
