(* ===== verification/Circ_Buffer.thy ===== *)
theory Circ_Buffer
  imports Fifo
begin

text \<open>
  The ring of samples between the interrupt handler and the sender thread:
  src/interruption/proc_entry.c and proc_entry.h. The two indices are 32-bit
  words, as in the code; \<^verbatim>\<open>pending\<close> reads the ring as the queue of samples
  that were written and not yet read. The functions here run without
  interruption; the theory \<^verbatim>\<open>Ring_Race\<close> interleaves the reader with the handler.
\<close>

section \<open>State and operations\<close>

record sample_t =
  s_timestamp :: u64
  s_seq_number :: u32
  s_data :: "u32 list"

definition CIRC_BUF_SIZE :: nat where
  "CIRC_BUF_SIZE = 1024"

record circ_state =
  last_write :: u32
  last_read :: u32
  CIRC_BUFFER :: "sample_t list"

definition quick_module :: "u32 \<Rightarrow> u32" where
  "quick_module index = index AND (of_nat CIRC_BUF_SIZE - 1)"

definition sizeof_sample_t :: nat where
  "sizeof_sample_t = 24"

text \<open>The number of samples to copy, from the two indices (lines 80-87).\<close>

definition samples_to_copy :: "u32 \<Rightarrow> u32 \<Rightarrow> u32" where
  "samples_to_copy lr lw =
     (if lr > lw then (of_nat CIRC_BUF_SIZE - 1 - lr) + (lw - 0) + 1 else lw - lr)"

text \<open>The copy loop (lines 100-104).\<close>

definition copy_samples :: "circ_state \<Rightarrow> u32 \<Rightarrow> sample_t list" where
  "copy_samples c n =
     map (\<lambda>i. CIRC_BUFFER c ! unat (quick_module (last_read c + 1 + of_nat i))) [0..<unat n]"

text \<open>\<^verbatim>\<open>kmalloc\<close> is the kernel's allocator: it says whether a request of that many
  bytes succeeds. The result is the return value, the buffer stored through
  \<^verbatim>\<open>be_samples\<close> (\<^verbatim>\<open>None\<close> when no buffer is handed out) and the new state.\<close>

definition read_nsamples :: "(u32 \<Rightarrow> bool) \<Rightarrow> circ_state \<Rightarrow> u32 \<times> sample_t list option \<times> circ_state" where
  "read_nsamples kmalloc c =
     (if last_read c = last_write c then (0, None, c)
      else let n = samples_to_copy (last_read c) (last_write c) in
        if \<not> kmalloc (n * of_nat sizeof_sample_t) then (0, None, c)
        else (n, Some (copy_samples c n), c\<lparr>last_read := quick_module (last_read c + n)\<rparr>))"

definition write_to_buffer :: "u32 list \<Rightarrow> u64 \<Rightarrow> u32 \<Rightarrow> circ_state \<Rightarrow> circ_state" where
  "write_to_buffer value timestamp seq_number c =
     (let lw = quick_module (last_write c + 1) in
      c\<lparr>last_write := lw,
        CIRC_BUFFER := (CIRC_BUFFER c)[unat lw :=
          \<lparr>s_timestamp = timestamp, s_seq_number = seq_number, s_data = [value ! 0, value ! 1, value ! 2]\<rparr>]\<rparr>)"

text \<open>\<^verbatim>\<open>off_t\<close> and \<^verbatim>\<open>int\<close> are converted to \<^verbatim>\<open>unsigned int\<close> in the comparisons of
  \<^verbatim>\<open>procfile_read\<close>. The result is the bytes copied, \<^verbatim>\<open>*eof\<close> and the return value.\<close>

definition sample_bytes :: "sample_t \<Rightarrow> u8 list" where
  "sample_bytes s = word_bytes 8 (s_timestamp s) @ word_bytes 4 (s_seq_number s)
     @ concat (map (word_bytes 4) (s_data s))"

definition how_many_we_copy :: "u32 \<Rightarrow> u32 \<Rightarrow> u32" where
  "how_many_we_copy offset dest_buffer_length =
     (let data_size_in_chars = of_nat (CIRC_BUF_SIZE * sizeof_sample_t);
          h = (if offset \<le> data_size_in_chars then data_size_in_chars - offset else 0)
      in if h < dest_buffer_length then h else dest_buffer_length)"

definition procfile_read :: "u32 \<Rightarrow> u32 \<Rightarrow> circ_state \<Rightarrow> u8 list \<times> bool \<times> u32" where
  "procfile_read offset dest_buffer_length c =
     (let h = how_many_we_copy offset dest_buffer_length in
      (take (unat h) (drop (unat offset) (concat (map sample_bytes (CIRC_BUFFER c)))), h \<noteq> 0, h))"

text \<open>\<^verbatim>\<open>create_proc_file\<close> resets the write index and, when \<^verbatim>\<open>/proc\<close> gives it an entry,
  installs the read handler with the size of the ring.\<close>

definition create_proc_file :: "bool \<Rightarrow> circ_state \<Rightarrow> nat option \<times> circ_state" where
  "create_proc_file entry_created c =
     (if entry_created then Some CIRC_BUF_SIZE else None, c\<lparr>last_write := 0\<rparr>)"

section \<open>Invariant and abstraction\<close>

definition ring_ok :: "circ_state \<Rightarrow> bool" where
  "ring_ok c \<longleftrightarrow> unat (last_write c) < CIRC_BUF_SIZE \<and> unat (last_read c) < CIRC_BUF_SIZE
     \<and> length (CIRC_BUFFER c) = CIRC_BUF_SIZE"

definition unread :: "circ_state \<Rightarrow> nat" where
  "unread c = (unat (last_write c) + CIRC_BUF_SIZE - unat (last_read c)) mod CIRC_BUF_SIZE"

definition pending :: "circ_state \<Rightarrow> sample_t list" where
  "pending c = map (\<lambda>i. CIRC_BUFFER c ! ((unat (last_read c) + 1 + i) mod CIRC_BUF_SIZE)) [0..<unread c]"

lemma unat_quick_module [cword]: "unat (quick_module i) = unat i mod CIRC_BUF_SIZE"
proof -
  have "quick_module i = take_bit 10 i"
    by (simp add: quick_module_def CIRC_BUF_SIZE_def take_bit_eq_mask mask_eq_exp_minus_1)
  then show ?thesis
    by (simp only: unsigned_take_bit_eq) (simp add: take_bit_eq_mod CIRC_BUF_SIZE_def)
qed

lemma quick_module_less [simp]: "unat (quick_module i) < CIRC_BUF_SIZE"
  by (simp add: cword) (simp add: CIRC_BUF_SIZE_def)

lemma unat_add_mod_ring:
  "unat ((a :: u32) + b) mod CIRC_BUF_SIZE = (unat a + unat b) mod CIRC_BUF_SIZE"
  by (simp add: unat_word_ariths CIRC_BUF_SIZE_def mod_mod_cancel)

lemma ring_ok_write [simp]: "ring_ok c \<Longrightarrow> ring_ok (write_to_buffer v t q c)"
  by (simp add: ring_ok_def write_to_buffer_def Let_def)

lemma ring_ok_read [simp]: "ring_ok c \<Longrightarrow> ring_ok (snd (snd (read_nsamples k c)))"
  by (auto simp: ring_ok_def read_nsamples_def Let_def)

lemma unread_less [simp]: "unread c < CIRC_BUF_SIZE"
  by (simp add: unread_def CIRC_BUF_SIZE_def)

lemma length_pending [simp]: "length (pending c) = unread c"
  by (simp add: pending_def)

lemma ring_distance:
  "r < 1024 \<Longrightarrow> w < 1024 \<Longrightarrow> (w + 1024 - r) mod 1024 = (if r \<le> w then w - r else w + 1024 - r)" for r w :: nat
proof (cases "r \<le> w")
  case True
  then have "w + 1024 - r = (w - r) + 1024" by simp
  then show "r < 1024 \<Longrightarrow> w < 1024 \<Longrightarrow> ?thesis" using True by (simp del: add_diff_assoc2 add_diff_assoc)
qed simp

lemma unread_zero_iff: "ring_ok c \<Longrightarrow> unread c = 0 \<longleftrightarrow> last_read c = last_write c"
proof -
  have "(a + 1024 - b) mod 1024 = 0 \<longleftrightarrow> b = a" if "a < 1024" "b < 1024" for a b :: nat
    using that by (auto simp: ring_distance)
  then show "ring_ok c \<Longrightarrow> unread c = 0 \<longleftrightarrow> last_read c = last_write c"
    by (simp add: ring_ok_def unread_def CIRC_BUF_SIZE_def word_unat_eq_iff)
qed

lemma samples_to_copy_unread:
  assumes "ring_ok c"
  shows "unat (samples_to_copy (last_read c) (last_write c)) = unread c"
proof -
  let ?lr = "unat (last_read c)" and ?lw = "unat (last_write c)"
  have b: "?lr < 1024" "?lw < 1024"
    using assms by (simp_all add: ring_ok_def CIRC_BUF_SIZE_def)
  show ?thesis
  proof (cases "?lw < ?lr")
    case True
    have "samples_to_copy (last_read c) (last_write c) = of_nat (1024 + ?lw - ?lr)"
      using True b by (simp add: samples_to_copy_def word_less_nat_alt CIRC_BUF_SIZE_def of_nat_diff)
    then have "unat (samples_to_copy (last_read c) (last_write c)) = (1024 + ?lw - ?lr) mod 2 ^ 32"
      by (simp only: unat_of_nat) (simp add: take_bit_eq_mod)
    with True b show ?thesis
      by (simp add: unread_def CIRC_BUF_SIZE_def add.commute)
  next
    case False
    then have "unat (last_write c - last_read c) = ?lw - ?lr"
      by (simp add: unat_sub_if_size word_le_nat_alt)
    moreover have "(?lw + 1024 - ?lr) mod 1024 = ?lw - ?lr"
      using False b by (simp add: ring_distance)
    ultimately show ?thesis
      using False by (simp add: samples_to_copy_def word_less_nat_alt unread_def CIRC_BUF_SIZE_def)
  qed
qed

lemma copy_index:
  assumes "i < unread c"
  shows "unat (quick_module (last_read c + 1 + of_nat i)) = (unat (last_read c) + 1 + i) mod CIRC_BUF_SIZE"
proof -
  have "i < 1024" using assms unread_less [of c] by (simp add: CIRC_BUF_SIZE_def)
  then have "unat (1 + of_nat i :: u32) = 1 + i"
    by (simp add: unat_word_ariths unat_of_nat)
  then show ?thesis
    by (simp add: cword add.assoc unat_add_mod_ring)
qed

lemma pending_nth:
  "i < unread c \<Longrightarrow> pending c ! i = CIRC_BUFFER c ! unat (quick_module (last_read c + 1 + of_nat i))"
  by (simp add: pending_def copy_index)

lemma copy_samples_pending:
  "unat n = unread c \<Longrightarrow> copy_samples c n = pending c"
  by (simp add: copy_samples_def pending_def copy_index)

lemma unread_advance:
  assumes "ring_ok c" "unat n \<le> unread c"
  shows "unread (c\<lparr>last_read := quick_module (last_read c + n)\<rparr>) = unread c - unat n"
proof -
  have "(w + 1024 - (r + m) mod 1024) mod 1024 = (w + 1024 - r) mod 1024 - m"
    if "r < 1024" "w < 1024" "m \<le> (w + 1024 - r) mod 1024" for r w m :: nat
  proof (cases "r \<le> w")
    case True
    with that have "m \<le> w - r" by (simp add: ring_distance)
    with that True show ?thesis by (simp add: ring_distance)
  next
    case False
    with that have m: "m \<le> w + 1024 - r" by (simp add: ring_distance)
    show ?thesis
    proof (cases "r + m < 1024")
      case True
      with that False m show ?thesis by (simp add: ring_distance)
    next
      case wrap: False
      then obtain a where a: "r + m = a + 1024"
        by (metis add.commute le_iff_add not_less)
      then have "a \<le> w" using m False that by simp
      then have "(w + 1024 - a mod 1024) mod 1024 = w - a"
        using that by (simp add: ring_distance)
      with that False m a show ?thesis by (simp add: ring_distance)
    qed
  qed
  with assms show ?thesis
    by (simp add: ring_ok_def unread_def cword unat_add_mod_ring) (simp add: CIRC_BUF_SIZE_def)
qed

lemma pending_advance:
  assumes "ring_ok c" "unat n \<le> unread c"
  shows "pending (c\<lparr>last_read := quick_module (last_read c + n)\<rparr>) = drop (unat n) (pending c)"
proof (rule nth_equalityI)
  show "length (pending (c\<lparr>last_read := quick_module (last_read c + n)\<rparr>)) = length (drop (unat n) (pending c))"
    using assms by (simp add: unread_advance)
next
  fix i
  assume "i < length (pending (c\<lparr>last_read := quick_module (last_read c + n)\<rparr>))"
  then have i: "i < unread c - unat n"
    using assms by (simp add: unread_advance)
  have "((unat (last_read c) + unat n) mod CIRC_BUF_SIZE + 1 + i) mod CIRC_BUF_SIZE
      = (unat (last_read c) + 1 + (unat n + i)) mod CIRC_BUF_SIZE"
    by (metis (no_types, opaque_lifting) add.assoc add.commute mod_add_left_eq)
  with i assms show "pending (c\<lparr>last_read := quick_module (last_read c + n)\<rparr>) ! i = drop (unat n) (pending c) ! i"
    by (simp add: pending_def unread_advance cword unat_add_mod_ring)
qed

lemma unread_after_read:
  assumes "ring_ok c" "unat n = unread c"
  shows "quick_module (last_read c + n) = last_write c"
proof -
  have "(unat (last_read c) + unread c) mod CIRC_BUF_SIZE = unat (last_write c)"
    using assms(1) by (auto simp: ring_ok_def unread_def mod_add_right_eq CIRC_BUF_SIZE_def)
  then show ?thesis
    by (simp add: word_unat_eq_iff cword unat_add_mod_ring assms(2))
qed

text \<open>What \<^verbatim>\<open>read_nsamples\<close> does, by its three outcomes.\<close>

lemma read_nsamples_empty:
  "pending c = [] \<Longrightarrow> ring_ok c \<Longrightarrow> read_nsamples k c = (0, None, c)"
  using unread_zero_iff [of c] length_pending [of c] by (simp add: read_nsamples_def)

lemma read_nsamples_ok:
  assumes "ring_ok c" "pending c \<noteq> []" "k (of_nat (unread c * sizeof_sample_t))"
  shows "read_nsamples k c = (of_nat (unread c), Some (pending c), c\<lparr>last_read := last_write c\<rparr>)"
proof -
  have n: "samples_to_copy (last_read c) (last_write c) = of_nat (unread c)"
    using samples_to_copy_unread [OF assms(1)] by (rule word_of_unat_eq)
  moreover have "last_read c \<noteq> last_write c"
    using assms unread_zero_iff [of c] length_pending [of c] by (metis length_0_conv)
  ultimately show ?thesis
    using assms samples_to_copy_unread [OF assms(1)]
    by (simp add: read_nsamples_def Let_def copy_samples_pending unread_after_read)
qed

lemma read_nsamples_no_memory:
  assumes "ring_ok c" "\<not> k (of_nat (unread c * sizeof_sample_t))"
  shows "read_nsamples k c = (0, None, c)"
proof -
  have n: "samples_to_copy (last_read c) (last_write c) = of_nat (unread c)"
    using samples_to_copy_unread [OF assms(1)] by (rule word_of_unat_eq)
  with assms show ?thesis by (simp add: read_nsamples_def Let_def)
qed

section \<open>Writing\<close>

definition mk_sample :: "u32 list \<Rightarrow> u64 \<Rightarrow> u32 \<Rightarrow> sample_t" where
  "mk_sample value timestamp seq_number =
     \<lparr>s_timestamp = timestamp, s_seq_number = seq_number, s_data = [value ! 0, value ! 1, value ! 2]\<rparr>"

lemma write_to_buffer_ring:
  "ring_ok c \<Longrightarrow> CIRC_BUFFER (write_to_buffer v t q c)
     = (CIRC_BUFFER c)[(unat (last_write c) + 1) mod CIRC_BUF_SIZE := mk_sample v t q]"
  "ring_ok c \<Longrightarrow> unat (last_write (write_to_buffer v t q c)) = (unat (last_write c) + 1) mod CIRC_BUF_SIZE"
  "last_read (write_to_buffer v t q c) = last_read c"
  by (simp_all add: write_to_buffer_def Let_def mk_sample_def cword unat_add_mod_ring)

lemma unread_write:
  assumes "ring_ok c"
  shows "unread (write_to_buffer v t q c) = (unread c + 1) mod CIRC_BUF_SIZE"
proof -
  have b: "unat (last_read c) < CIRC_BUF_SIZE"
    using assms by (simp add: ring_ok_def)
  have "(x mod n + n - r) mod n = (x + n - r) mod n" if "r < n" for x n r :: nat
  proof -
    have "(x mod n + n - r) mod n = (x mod n + (n - r)) mod n" using that by simp
    also have "\<dots> = (x + (n - r)) mod n" by (simp add: mod_add_left_eq)
    finally show ?thesis using that by simp
  qed
  from this [OF b, of "unat (last_write c) + 1"] b show ?thesis
    by (simp add: unread_def write_to_buffer_ring assms mod_Suc_eq Suc_diff_le)
qed

lemma pending_index_other:
  assumes "ring_ok c" "i < unread c"
  shows "(unat (last_read c) + 1 + i) mod CIRC_BUF_SIZE \<noteq> (unat (last_write c) + 1) mod CIRC_BUF_SIZE"
proof -
  have "(r + 1 + i) mod 1024 \<noteq> (w + 1) mod 1024"
    if "r < 1024" "w < 1024" "i < (w + 1024 - r) mod 1024" for r w :: nat
  proof (cases "r \<le> w")
    case True
    with that have i: "i < w - r" by (simp add: ring_distance)
    show ?thesis
      using that(1,2) True i by (auto simp: mod_Suc)
  next
    case False
    with that have i: "i < w + 1024 - r" by (simp add: ring_distance)
    show ?thesis
      using that(1,2) False i by (cases "r + 1 + i < 1024") (auto simp: mod_if)
  qed
  with assms show ?thesis by (simp add: ring_ok_def unread_def CIRC_BUF_SIZE_def)
qed

lemma pending_index_last:
  assumes "ring_ok c"
  shows "(unat (last_read c) + 1 + unread c) mod CIRC_BUF_SIZE = (unat (last_write c) + 1) mod CIRC_BUF_SIZE"
proof -
  have "(unat (last_read c) + unread c) mod CIRC_BUF_SIZE = unat (last_write c)"
    using assms by (auto simp: ring_ok_def unread_def mod_add_right_eq CIRC_BUF_SIZE_def)
  then show ?thesis by (simp add: mod_Suc_eq flip: mod_Suc_eq [of "unat (last_read c) + unread c"])
qed

lemma pending_write:
  assumes "ring_ok c" "unread c < CIRC_BUF_SIZE - 1"
  shows "pending (write_to_buffer v t q c) = pending c @ [mk_sample v t q]"
proof -
  have u: "unread (write_to_buffer v t q c) = Suc (unread c)"
    using assms by (simp add: unread_write)
  have len: "length (CIRC_BUFFER c) = CIRC_BUF_SIZE" "0 < CIRC_BUF_SIZE"
    using assms by (simp_all add: ring_ok_def CIRC_BUF_SIZE_def)
  show ?thesis
    using assms(1) len pending_index_other [OF assms(1)] pending_index_last [OF assms(1)]
    by (simp add: pending_def u write_to_buffer_ring nth_list_update_mod)
qed

text \<open>The write that meets the reader: the whole ring becomes unreachable.\<close>

lemma pending_write_overrun:
  assumes "ring_ok c" "unread c = CIRC_BUF_SIZE - 1"
  shows "pending (write_to_buffer v t q c) = []"
  using assms by (simp add: pending_def unread_write CIRC_BUF_SIZE_def)

section \<open>The ring is a queue\<close>

text \<open>The events of the ring: the handler writes a value with its timestamp and
  number, the sender thread reads everything there is.\<close>

definition ring_put :: "u32 list \<times> u64 \<times> u32 \<Rightarrow> circ_state \<Rightarrow> circ_state" where
  "ring_put x c = (case x of (v, t, q) \<Rightarrow> write_to_buffer v t q c)"

definition ring_elem :: "u32 list \<times> u64 \<times> u32 \<Rightarrow> sample_t" where
  "ring_elem x = (case x of (v, t, q) \<Rightarrow> mk_sample v t q)"

definition ring_take :: "(u32 \<Rightarrow> bool) \<Rightarrow> circ_state \<Rightarrow> sample_t list \<times> circ_state" where
  "ring_take kmalloc c =
     (case read_nsamples kmalloc c of (n, buf, c') \<Rightarrow> (case buf of None \<Rightarrow> [] | Some b \<Rightarrow> b, c'))"

definition ring_room :: "circ_state \<Rightarrow> bool" where
  "ring_room c \<longleftrightarrow> unread c < CIRC_BUF_SIZE - 1"

lemma unread_drained [simp]: "unread (c\<lparr>last_read := last_write c\<rparr>) = 0"
  by (simp add: unread_def)

lemma ring_take_cases:
  assumes "ring_ok c"
  obtains "ring_take k c = ([], c)"
  | "ring_take k c = (pending c, c\<lparr>last_read := last_write c\<rparr>)"
proof (cases "pending c = [] \<or> \<not> k (of_nat (unread c * sizeof_sample_t))")
  case True
  then have "ring_take k c = ([], c)"
    using assms read_nsamples_empty read_nsamples_no_memory by (auto simp: ring_take_def)
  then show ?thesis using that by blast
next
  case False
  then have "ring_take k c = (pending c, c\<lparr>last_read := last_write c\<rparr>)"
    using assms read_nsamples_ok by (simp add: ring_take_def)
  then show ?thesis using that by blast
qed

interpretation sample_ring: fifo pending ring_ok ring_room ring_elem ring_put ring_take
proof
  fix s x and e :: "u32 \<Rightarrow> bool"
  assume ok: "ring_ok s"
  show "ring_ok (ring_put x s)"
    using ok by (simp add: ring_put_def case_prod_unfold)
  show "ring_ok (snd (ring_take e s))"
    using ok by (cases rule: ring_take_cases [OF ok, of e]) (auto simp: ring_ok_def)
  show "fst (ring_take e s) @ pending (snd (ring_take e s)) = pending s"
    by (cases rule: ring_take_cases [OF ok, of e]) (auto simp: pending_def)
  assume "ring_room s"
  then show "pending (ring_put x s) = pending s @ [ring_elem x]"
    using ok by (simp add: ring_put_def ring_elem_def ring_room_def pending_write case_prod_unfold)
qed

section \<open>Properties\<close>

text \<open>C6: for every sequence of interrupt writes and of reads (each read with its
  own allocation outcome) in which every write finds fewer than 1023 unread
  samples, the samples handed out by \<^verbatim>\<open>read_nsamples\<close> followed by those still in the
  ring are exactly the samples that were in the ring followed by the samples
  written, in order, none lost, duplicated or reordered.\<close>

theorem ring_delivers_in_order:
  assumes "ring_ok c" "has_room ring_room ring_put ring_take evs c"
  shows "fst (fifo_run ring_put ring_take evs c) @ pending (snd (fifo_run ring_put ring_take evs c))
     = pending c @ map ring_elem (written evs)"
  using assms by (rule sample_ring.run_order)

definition ring0 :: circ_state where
  "ring0 = \<lparr>last_write = 0, last_read = 0,
     CIRC_BUFFER = replicate CIRC_BUF_SIZE \<lparr>s_timestamp = 0, s_seq_number = 0, s_data = [0, 0, 0]\<rparr>\<rparr>"

lemma ring_ok_ring0 [simp]: "ring_ok ring0"
  by (simp add: ring_ok_def ring0_def CIRC_BUF_SIZE_def)

lemma pending_ring0 [simp]: "pending ring0 = []"
  by (simp add: pending_def unread_def ring0_def)

lemma unread_ring0 [simp]: "unread ring0 = 0"
  by (simp add: unread_def ring0_def)

theorem ring_delivers_in_order_witness:
  "fst (fifo_run ring_put ring_take
      [Put ([1, 2, 3], 10, 0), Put ([4, 5, 6], 20, 1), Take (\<lambda>n. False), Put ([7, 8, 9], 30, 2)] ring0)
    @ pending (snd (fifo_run ring_put ring_take
      [Put ([1, 2, 3], 10, 0), Put ([4, 5, 6], 20, 1), Take (\<lambda>n. False), Put ([7, 8, 9], 30, 2)] ring0))
    = [mk_sample [1, 2, 3] 10 0, mk_sample [4, 5, 6] 20 1, mk_sample [7, 8, 9] 30 2]"
proof -
  let ?evs = "[Put ([1, 2, 3], 10, 0), Put ([4, 5, 6], 20, 1), Take (\<lambda>n. False), Put ([7, 8, 9], 30, 2)]"
  have "has_room ring_room ring_put ring_take ?evs ring0"
    by (simp add: ring_put_def ring_room_def unread_write ring_take_def read_nsamples_no_memory CIRC_BUF_SIZE_def)
  from ring_delivers_in_order [OF ring_ok_ring0 this] show ?thesis
    by (simp add: ring_elem_def)
qed

text \<open>C39: the write that finds 1023 unread samples is accepted silently: the write
  index meets the read index and all the unread samples, the new one included,
  become unreachable, although the comment of proc_entry.c asks for a crash.\<close>

theorem ring_overrun_loses_everything:
  assumes "ring_ok c" "unread c = CIRC_BUF_SIZE - 1"
  shows "pending (write_to_buffer v t q c) = []
    \<and> read_nsamples k (write_to_buffer v t q c) = (0, None, write_to_buffer v t q c)"
  using assms pending_write_overrun read_nsamples_empty by simp

theorem ring_overrun_loses_everything_witness:
  "pending (write_to_buffer [1, 2, 3] 10 0 (ring0\<lparr>last_write := 1023\<rparr>)) = []
    \<and> read_nsamples (\<lambda>n. True) (write_to_buffer [1, 2, 3] 10 0 (ring0\<lparr>last_write := 1023\<rparr>))
      = (0, None, write_to_buffer [1, 2, 3] 10 0 (ring0\<lparr>last_write := 1023\<rparr>))"
  by (rule ring_overrun_loses_everything)
     (simp_all add: ring_ok_def unread_def ring0_def CIRC_BUF_SIZE_def)

text \<open>a read of the proc file never copies more bytes than the caller's buffer
  holds or than the ring has beyond the offset, for every offset and length,
  negative ones (read as large unsigned values) included, and it reports exactly
  the number of bytes copied.\<close>

theorem procfile_read_in_bounds:
  assumes "\<forall>s\<in>set (CIRC_BUFFER c). length (s_data s) = 3" "length (CIRC_BUFFER c) = CIRC_BUF_SIZE"
    and "procfile_read offset len c = (bytes, eof, ret)"
  shows "length bytes = unat ret \<and> ret \<le> len
    \<and> (ret \<noteq> 0 \<longrightarrow> unat offset + unat ret \<le> CIRC_BUF_SIZE * sizeof_sample_t) \<and> (eof \<longleftrightarrow> ret \<noteq> 0)"
proof -
  have "length (concat (map sample_bytes xs)) = 24 * length xs"
    if "\<forall>s\<in>set xs. length (s_data s) = 3" for xs
    using that
  proof (induction xs)
    case (Cons x xs)
    then obtain a b c where "s_data x = [a, b, c]"
      by (auto simp: numeral_3_eq_3 length_Suc_conv)
    with Cons show ?case by (simp add: sample_bytes_def)
  qed simp
  from this [OF assms(1)] assms(2)
  have len: "length (concat (map sample_bytes (CIRC_BUFFER c))) = 24576"
    by (simp add: CIRC_BUF_SIZE_def)
  have ret: "ret = how_many_we_copy offset len" "eof \<longleftrightarrow> ret \<noteq> 0"
    "bytes = take (unat ret) (drop (unat offset) (concat (map sample_bytes (CIRC_BUFFER c))))"
    using assms(3) by (auto simp: procfile_read_def Let_def)
  have le: "ret \<le> len" "ret \<noteq> 0 \<longrightarrow> unat offset + unat ret \<le> 24576"
    unfolding ret(1) how_many_we_copy_def Let_def CIRC_BUF_SIZE_def sizeof_sample_t_def
    by (auto simp: word_le_nat_alt word_less_nat_alt unat_sub_if_size unat_eq_zero)
  show ?thesis
    using ret le len by (auto simp: CIRC_BUF_SIZE_def sizeof_sample_t_def)
qed

theorem procfile_read_in_bounds_witness:
  "length (fst (procfile_read 24570 100 ring0)) = 6"
proof -
  have h: "how_many_we_copy 24570 100 = 6"
    by (simp add: how_many_we_copy_def CIRC_BUF_SIZE_def sizeof_sample_t_def)
  obtain b e r where p: "procfile_read 24570 100 ring0 = (b, e, r)"
    by (metis prod_cases3)
  then have "r = 6" using h by (simp add: procfile_read_def Let_def)
  with procfile_read_in_bounds [OF _ _ p] p show ?thesis
    by (simp add: ring0_def CIRC_BUF_SIZE_def)
qed

end
