(* ===== verification/Ring_Race.thy ===== *)
theory Ring_Race
  imports Circ_Buffer
begin

text \<open>
  The reader of the sample ring under interruption. \<^verbatim>\<open>read_nsamples\<close>
  (src/interruption/proc_entry.c) runs in a kernel thread and reads the volatile
  indices again and again, while the interrupt handler may run
  \<^verbatim>\<open>write_to_buffer\<close> between any two of its statements. A constructor of
  \<^verbatim>\<open>reader\<close> is a program point, named by its line, with the values of the
  local variables that are live there.
\<close>

section \<open>The reader, statement by statement\<close>

datatype reader =
    R71
  | R73 u32
  | R80 u32
  | R83 u32
  | R86 u32
  | R90 u32 u32
  | R100 u32 u32 "sample_t list"
  | R106 u32 u32 "sample_t list"
  | R109 u32 u32 "sample_t list"
  | RDone u32 "sample_t list option" bool

text \<open>The last argument of \<^verbatim>\<open>RDone\<close> tells that the concurrency warning of line 111
  was printed. The list of \<^verbatim>\<open>R100\<close> holds the samples copied so far, so \<^verbatim>\<open>i\<close> is its
  length.\<close>

fun reader_step :: "(u32 \<Rightarrow> bool) \<Rightarrow> circ_state \<times> reader \<Rightarrow> circ_state \<times> reader" where
  "reader_step kmalloc (c, R71) = (c, R73 (last_write c))"
| "reader_step kmalloc (c, R73 tmp) =
     (c, if last_read c = last_write c then RDone 0 None False else R80 tmp)"
| "reader_step kmalloc (c, R80 tmp) = (c, if last_read c > last_write c then R83 tmp else R86 tmp)"
| "reader_step kmalloc (c, R83 tmp) =
     (c, R90 tmp ((of_nat CIRC_BUF_SIZE - 1 - last_read c) + (last_write c - 0) + 1))"
| "reader_step kmalloc (c, R86 tmp) = (c, R90 tmp (last_write c - last_read c))"
| "reader_step kmalloc (c, R90 tmp n) =
     (c, if kmalloc (n * of_nat sizeof_sample_t) then R100 tmp n [] else RDone 0 None False)"
| "reader_step kmalloc (c, R100 tmp n out) =
     (c, if of_nat (length out) < n
         then R100 tmp n (out @ [CIRC_BUFFER c ! unat (quick_module (last_read c + 1 + of_nat (length out)))])
         else R106 tmp n out)"
| "reader_step kmalloc (c, R106 tmp n out) =
     (c\<lparr>last_read := quick_module (last_read c + n)\<rparr>, R109 tmp n out)"
| "reader_step kmalloc (c, R109 tmp n out) = (c, RDone n (Some out) (last_read c \<noteq> tmp))"
| "reader_step kmalloc (c, RDone n buf w) = (c, RDone n buf w)"

text \<open>All interleavings of one call with interrupts that find room in the ring:
  \<^verbatim>\<open>interleave kmalloc c0 ws c r\<close> says that the call started in \<^verbatim>\<open>c0\<close>, the handler has
  written \<^verbatim>\<open>ws\<close> since, and the ring and the reader are now \<^verbatim>\<open>c\<close> and \<^verbatim>\<open>r\<close>.\<close>

inductive interleave :: "(u32 \<Rightarrow> bool) \<Rightarrow> circ_state \<Rightarrow> sample_t list \<Rightarrow> circ_state \<Rightarrow> reader \<Rightarrow> bool"
  for kmalloc c0 where
  call: "interleave kmalloc c0 [] c0 R71"
| thread: "interleave kmalloc c0 ws c r \<Longrightarrow> reader_step kmalloc (c, r) = (c', r')
    \<Longrightarrow> interleave kmalloc c0 ws c' r'"
| interrupt: "interleave kmalloc c0 ws c r \<Longrightarrow> ring_room c
    \<Longrightarrow> interleave kmalloc c0 (ws @ [mk_sample v t q]) (write_to_buffer v t q c) r"

text \<open>The kernel's documented limit on one allocation: no request of 2 GB or more is
  granted.\<close>

definition kmalloc_bounded :: "(u32 \<Rightarrow> bool) \<Rightarrow> bool" where
  "kmalloc_bounded kmalloc \<longleftrightarrow> (\<forall>n. kmalloc n \<longrightarrow> unat n < 2 ^ 31)"

section \<open>Invariant\<close>

text \<open>A count computed at line 83 or 86 is good when it is at most the number of
  unread samples; the count of the lost race asks the allocator for nearly 4 GB.\<close>

definition good_count :: "circ_state \<Rightarrow> u32 \<Rightarrow> bool" where
  "good_count c n \<longleftrightarrow> unat n \<le> unread c"

fun reader_inv :: "circ_state \<Rightarrow> reader \<Rightarrow> bool" where
  "reader_inv c R71 = True"
| "reader_inv c (R73 tmp) = True"
| "reader_inv c (R80 tmp) = True"
| "reader_inv c (R83 tmp) = (last_write c < last_read c)"
| "reader_inv c (R86 tmp) = True"
| "reader_inv c (R90 tmp n) = (good_count c n \<or> unat (n * of_nat sizeof_sample_t) \<ge> 2 ^ 31)"
| "reader_inv c (R100 tmp n out) =
     (good_count c n \<and> length out \<le> unat n \<and> out = take (length out) (pending c))"
| "reader_inv c (R106 tmp n out) = (good_count c n \<and> out = take (unat n) (pending c) \<and> length out = unat n)"
| "reader_inv c (R109 tmp n out) = (length out = unat n)"
| "reader_inv c (RDone n buf w) = (case buf of None \<Rightarrow> n = 0 | Some out \<Rightarrow> length out = unat n)"

text \<open>The samples the reader has taken out of the ring.\<close>

fun taken :: "reader \<Rightarrow> sample_t list" where
  "taken (R109 tmp n out) = out"
| "taken (RDone n (Some out) w) = out"
| "taken r = []"

lemma good_count_write: "ring_ok c \<Longrightarrow> ring_room c \<Longrightarrow> good_count c n \<Longrightarrow> good_count (write_to_buffer v t q c) n"
  by (simp add: good_count_def unread_write ring_room_def CIRC_BUF_SIZE_def)

lemma behind_write:
  assumes "ring_ok c" "ring_room c" "last_write c < last_read c"
  shows "last_write (write_to_buffer v t q c) < last_read c"
proof -
  have "unat (last_write c) + 1024 - unat (last_read c) < 1023"
    using assms by (simp add: ring_ok_def ring_room_def unread_def ring_distance CIRC_BUF_SIZE_def word_less_nat_alt)
  then show ?thesis
    using assms by (simp add: word_less_nat_alt write_to_buffer_ring ring_ok_def CIRC_BUF_SIZE_def)
qed

lemma le_lengthD: "xs = take (length xs) ys \<Longrightarrow> length xs \<le> length ys"
  by (metis length_take min.cobounded1)

lemma take_prefix_append: "xs = take (length xs) ys \<Longrightarrow> take (length xs) (ys @ zs) = xs"
  by (metis le_lengthD take_append append_Nil2 diff_is_0_eq take0)

lemma reader_inv_write:
  assumes "ring_ok c" "ring_room c" "reader_inv c r"
  shows "reader_inv (write_to_buffer v t q c) r"
proof -
  have p: "pending (write_to_buffer v t q c) = pending c @ [mk_sample v t q]"
    using assms by (simp add: pending_write ring_room_def)
  show ?thesis
    using assms
    by (cases r)
       (auto simp: p good_count_write write_to_buffer_ring behind_write dest: le_lengthD)
qed

lemma race_count:
  assumes "ring_ok c"
  shows "good_count c (last_write c - last_read c)
    \<or> unat ((last_write c - last_read c) * of_nat sizeof_sample_t) \<ge> 2 ^ 31"
proof (cases "last_read c \<le> last_write c")
  case True
  then show ?thesis
    using samples_to_copy_unread [OF assms]
    by (simp add: good_count_def samples_to_copy_def leD)
next
  case False
  define k where "k = 24 * (uint (last_write c) - uint (last_read c))"
  have u: "uint w = int (unat w)" for w :: u32 by simp
  have "unat (last_write c) < 1024" "unat (last_read c) < 1024" "unat (last_write c) < unat (last_read c)"
    using assms False by (simp_all add: ring_ok_def CIRC_BUF_SIZE_def word_le_nat_alt)
  moreover have "- 24552 \<le> 24 * (int a - int b) \<and> 24 * (int a - int b) < 0"
    if "a < 1024" "b < 1024" "a < b" for a b :: nat
    using that by simp
  ultimately have k: "- 24552 \<le> k" "k < 0"
    unfolding k_def u by blast+
  have "(last_write c - last_read c) * of_nat sizeof_sample_t = (word_of_int k :: u32)"
    by (simp add: k_def sizeof_sample_t_def)
  then have "uint ((last_write c - last_read c) * of_nat sizeof_sample_t) = k mod 2 ^ 32"
    by (simp add: uint_word_of_int)
  also have "\<dots> = k + 2 ^ 32"
    using k mod_pos_pos_trivial [of "k + 2 ^ 32" "2 ^ 32"] by simp
  finally show ?thesis using k by (simp add: unat_eq_nat_uint le_nat_iff)
qed

lemma good_count_wrapped:
  "ring_ok c \<Longrightarrow> last_write c < last_read c
    \<Longrightarrow> good_count c ((of_nat CIRC_BUF_SIZE - 1 - last_read c) + (last_write c - 0) + 1)"
  using samples_to_copy_unread [of c] by (simp add: good_count_def samples_to_copy_def)

lemma copy_one:
  assumes "good_count c n" "length out \<le> unat n" "out = take (length out) (pending c)"
    and "of_nat (length out) < n"
  shows "length out < unat n" and "Suc (length out) \<le> unread c"
    and "out @ [CIRC_BUFFER c ! unat (quick_module (last_read c + 1 + of_nat (length out)))]
      = take (Suc (length out)) (pending c)"
proof -
  have "unat (of_nat (length out) :: u32) = length out"
    using assms(2) by (rule unat_of_nat_le)
  then show less: "length out < unat n"
    using assms(4) by (simp add: word_less_nat_alt)
  with assms(1) show "Suc (length out) \<le> unread c"
    by (simp add: good_count_def)
  with assms(3) show "out @ [CIRC_BUFFER c ! unat (quick_module (last_read c + 1 + of_nat (length out)))]
      = take (Suc (length out)) (pending c)"
    by (simp add: take_Suc_conv_app_nth pending_nth [symmetric])
qed

lemma copy_done:
  assumes "length out \<le> unat (n :: u32)" "\<not> of_nat (length out) < n"
  shows "length out = unat n"
proof -
  have "unat (of_nat (length out) :: u32) = length out"
    using assms(1) by (rule unat_of_nat_le)
  with assms show ?thesis by (simp add: word_less_nat_alt)
qed

lemma reader_inv_step:
  assumes "ring_ok c" "kmalloc_bounded k" "reader_inv c r" "reader_step k (c, r) = (c', r')"
  shows "ring_ok c' \<and> reader_inv c' r' \<and> taken r' @ pending c' = taken r @ pending c"
proof (cases r)
  case (R90 tmp n)
  have "kmalloc_bounded k \<Longrightarrow> k m \<Longrightarrow> \<not> 2 ^ 31 \<le> unat m" for m
    by (simp add: kmalloc_bounded_def not_le)
  with R90 assms show ?thesis by (auto split: if_splits)
next
  case (R100 tmp n out)
  show ?thesis
  proof (cases "of_nat (length out) < n")
    case True
    with R100 assms copy_one [of c n out] show ?thesis
      by (auto simp: min_absorb2)
  next
    case False
    with R100 assms copy_done [of out n] show ?thesis by auto
  qed
next
  case (R106 tmp n out)
  then have "pending c' = drop (unat n) (pending c)" "ring_ok c'"
    using assms by (auto simp: pending_advance good_count_def ring_ok_def)
  with R106 assms show ?thesis by (auto simp: good_count_def)
next
  case (RDone n buf w)
  with assms show ?thesis by auto
next
  case (R86 tmp)
  with assms race_count [of c] show ?thesis by auto
next
  case (R83 tmp)
  with assms good_count_wrapped [of c] show ?thesis by auto
qed (use assms in \<open>auto split: if_splits\<close>)

lemma interleave_inv:
  assumes "interleave k c0 ws c r" "ring_ok c0" "kmalloc_bounded k"
  shows "ring_ok c \<and> reader_inv c r \<and> taken r @ pending c = pending c0 @ ws"
  using assms
proof induction
  case call
  then show ?case by simp
next
  case (thread ws c r c' r')
  then show ?case using reader_inv_step [of c k r c' r'] by simp
next
  case (interrupt ws c r v t q)
  then show ?case
    using reader_inv_write [of c r] pending_write [of c] by (simp add: ring_room_def flip: append_assoc)
qed

section \<open>Properties\<close>

text \<open>C5: whatever interrupts run between the statements of one \<^verbatim>\<open>read_nsamples\<close> call,
  as long as each of them finds room in the ring and the allocator refuses requests
  of 2 GB and more, a call that returns a buffer has taken the oldest samples in
  order: the buffer followed by what is then in the ring is what was in the ring at
  the call followed by what the handler wrote meanwhile, and the return value is the
  length of the buffer. A call that returns without a buffer returns 0 and has taken
  nothing.\<close>

theorem read_nsamples_interrupted:
  assumes "interleave kmalloc c0 ws c (RDone n buf warned)" "ring_ok c0" "kmalloc_bounded kmalloc"
  shows "case buf of
      Some out \<Rightarrow> out @ pending c = pending c0 @ ws \<and> unat n = length out
    | None \<Rightarrow> pending c = pending c0 @ ws \<and> n = 0"
  using interleave_inv [OF assms] by (cases buf) auto

lemma quick_module_small: "i < 1024 \<Longrightarrow> quick_module i = i"
  by (simp add: word_unat_eq_iff cword CIRC_BUF_SIZE_def word_less_nat_alt)

lemma last_write_value: "last_write (write_to_buffer v t q c) = quick_module (last_write c + 1)"
  by (simp add: write_to_buffer_def Let_def)

lemma ring0_indices [simp]: "last_write ring0 = 0" "last_read ring0 = 0"
  by (simp_all add: ring0_def)

lemma threads:
  "interleave k s ws c r \<Longrightarrow> (reader_step k ^^ m) (c, r) = (c', r') \<Longrightarrow> interleave k s ws c' r'"
proof (induction m arbitrary: c' r')
  case (Suc m)
  obtain c1 r1 where "(reader_step k ^^ m) (c, r) = (c1, r1)" by fastforce
  with Suc show ?case by (auto intro: thread)
qed simp

theorem read_nsamples_interrupted_witness:
  "\<exists>c out. interleave (\<lambda>n. n < 1000) (write_to_buffer [1, 2, 3] 10 0 ring0) [mk_sample [4, 5, 6] 20 1] c
      (RDone 2 (Some out) True)
    \<and> out @ pending c = [mk_sample [1, 2, 3] 10 0, mk_sample [4, 5, 6] 20 1] \<and> length out = 2"
proof -
  let ?k = "\<lambda>n :: u32. n < 1000"
  let ?one = "write_to_buffer [1, 2, 3] 10 0 ring0" and ?snd = "mk_sample [4, 5, 6] 20 1"
  let ?two = "write_to_buffer [4, 5, 6] 20 1 ?one"
  let ?at = "\<lambda>i. CIRC_BUFFER ?two ! unat (quick_module (1 + of_nat i))"
  have q: "quick_module 2 = 2" by (simp add: quick_module_small)
  have i: "last_write ?one = 1" "last_read ?one = 0" "last_write ?two = 2" "last_read ?two = 0"
    by (simp_all add: last_write_value quick_module_small write_to_buffer_ring)
  have "interleave ?k ?one [] ?one (R80 1)"
    by (rule threads [OF call, where m = 2]) (simp add: i numeral_2_eq_2)
  then have "interleave ?k ?one [?snd] ?two (R80 1)"
    using interrupt [of ?k ?one "[]" ?one "R80 1" "[4, 5, 6]" 20 1] by (simp add: ring_room_def unread_write CIRC_BUF_SIZE_def)
  then have "interleave ?k ?one [?snd] ?two (R100 1 2 [])"
    by (rule threads [where m = 3]) (simp add: i sizeof_sample_t_def numeral_3_eq_3)
  then have "interleave ?k ?one [?snd] ?two (R106 1 2 [?at 0, ?at 1])"
    by (rule threads [where m = 3]) (simp add: i numeral_3_eq_3)
  then have fin: "interleave ?k ?one [?snd] (?two\<lparr>last_read := 2\<rparr>) (RDone 2 (Some [?at 0, ?at 1]) True)"
    by (rule threads [where m = 2]) (simp add: i q numeral_2_eq_2)
  have "kmalloc_bounded ?k"
    by (simp add: kmalloc_bounded_def word_less_nat_alt)
  from read_nsamples_interrupted [OF fin _ this]
  have "[?at 0, ?at 1] @ pending (?two\<lparr>last_read := 2\<rparr>) = [mk_sample [1, 2, 3] 10 0, ?snd]"
    by (simp add: pending_write CIRC_BUF_SIZE_def)
  with fin show ?thesis
    by (intro exI [of _ "?two\<lparr>last_read := 2\<rparr>"] exI [of _ "[?at 0, ?at 1]"]) simp
qed

text \<open>the race the volatile reads leave open is real. There is a schedule with
  one interrupt, in a ring that is not full, between the comparison of line 80 and
  the subtraction of line 86, after which the reader asks for 4294967295 samples.\<close>

theorem read_nsamples_race:
  "\<exists>c0 ws c tmp n. ring_ok c0 \<and> interleave kmalloc c0 ws c (R90 tmp n) \<and> length ws = 1
    \<and> unread c0 < CIRC_BUF_SIZE - 1 \<and> unat n = 4294967295"
proof -
  let ?start = "ring0\<lparr>last_write := 1023, last_read := 1\<rparr>"
  let ?c = "write_to_buffer [1, 2, 3] 10 0 ?start"
  have room: "unread ?start < CIRC_BUF_SIZE - 1"
    by (simp add: unread_def CIRC_BUF_SIZE_def)
  have i: "last_write ?c = 0" "last_read ?c = 1"
    by (simp_all add: last_write_value quick_module_def CIRC_BUF_SIZE_def write_to_buffer_ring)
  have "interleave kmalloc ?start [] ?start (R86 1023)"
    by (rule threads [OF call, where m = 3]) (simp add: numeral_3_eq_3)
  then have "interleave kmalloc ?start [mk_sample [1, 2, 3] 10 0] ?c (R86 1023)"
    using interrupt [of kmalloc ?start "[]" ?start "R86 1023" "[1, 2, 3]" 10 0] room
    by (simp add: ring_room_def)
  then have race: "interleave kmalloc ?start [mk_sample [1, 2, 3] 10 0] ?c (R90 1023 (- 1))"
    by (rule thread) (simp add: i)
  show ?thesis
  proof (intro exI conjI)
    show "interleave kmalloc ?start [mk_sample [1, 2, 3] 10 0] ?c (R90 1023 (- 1))"
      by (rule race)
    show "ring_ok ?start"
      by (simp add: ring_ok_def ring0_def CIRC_BUF_SIZE_def)
    show "unread ?start < CIRC_BUF_SIZE - 1"
      by (rule room)
    show "unat (- 1 :: u32) = 4294967295"
      by (simp add: unsigned_minus_1_eq_mask mask_eq_exp_minus_1)
  qed simp
qed

section \<open>Without interrupts\<close>

lemma copy_loop:
  assumes "length out \<le> unat n"
  shows "\<exists>m. (reader_step k ^^ m) (c, R100 tmp n out) = (c, R106 tmp n (out @
      map (\<lambda>i. CIRC_BUFFER c ! unat (quick_module (last_read c + 1 + of_nat i))) [length out..<unat n]))"
  using assms
proof (induction "unat n - length out" arbitrary: out)
  case 0
  then have "\<not> of_nat (length out) < n"
    using unat_of_nat_le [of "length out" n] by (simp add: word_less_nat_alt)
  then have "(reader_step k ^^ 1) (c, R100 tmp n out) = (c, R106 tmp n out)"
    by simp
  with 0 show ?case by (metis append_Nil2 diff_is_0_eq list.map_disc_iff upt_conv_Nil)
next
  case (Suc d)
  let ?x = "CIRC_BUFFER c ! unat (quick_module (last_read c + 1 + of_nat (length out)))"
  have less: "length out < unat n" using Suc by simp
  then have "of_nat (length out) < n"
    using unat_of_nat_le [of "length out" n] by (simp add: word_less_nat_alt)
  then have step: "reader_step k (c, R100 tmp n out) = (c, R100 tmp n (out @ [?x]))"
    by simp
  have "d = unat n - length (out @ [?x])" "length (out @ [?x]) \<le> unat n"
    using Suc(2) less by simp_all
  from Suc(1) [OF this] obtain m where m: "(reader_step k ^^ m) (c, R100 tmp n (out @ [?x])) =
      (c, R106 tmp n ((out @ [?x]) @ map (\<lambda>i. CIRC_BUFFER c ! unat (quick_module (last_read c + 1 + of_nat i)))
        [length (out @ [?x])..<unat n]))" by blast
  have "(reader_step k ^^ Suc m) (c, R100 tmp n out) = (reader_step k ^^ m) (c, R100 tmp n (out @ [?x]))"
    by (simp only: funpow_Suc_right o_apply step)
  with m less show ?case
    by (intro exI [of _ "Suc m"]) (simp add: upt_conv_Cons del: funpow.simps)
qed

text \<open>when no interrupt comes, the statements of \<^verbatim>\<open>read_nsamples\<close> run to the end
  and compute exactly what the sequential definition says: return value, buffer and
  ring; the concurrency warning is not printed.\<close>

theorem read_nsamples_sequential:
  assumes "ring_ok c" "read_nsamples kmalloc c = (n, buf, c')"
  shows "\<exists>m. (reader_step kmalloc ^^ m) (c, R71) = (c', RDone n buf False)"
proof (cases "last_read c = last_write c")
  case True
  then have "(reader_step kmalloc ^^ 2) (c, R71) = (c', RDone n buf False)"
    using assms by (simp add: read_nsamples_def numeral_2_eq_2)
  then show ?thesis by blast
next
  case False
  define s where "s = samples_to_copy (last_read c) (last_write c)"
  have four: "(reader_step kmalloc ^^ 4) (c, R71) = (c, R90 (last_write c) s)"
    using False by (simp add: s_def samples_to_copy_def numeral_eq_Suc)
  show ?thesis
  proof (cases "kmalloc (s * of_nat sizeof_sample_t)")
    case True
    obtain m where m: "(reader_step kmalloc ^^ m) (c, R100 (last_write c) s []) =
        (c, R106 (last_write c) s (copy_samples c s))"
      using copy_loop [of "[]" s kmalloc c "last_write c"] by (auto simp: copy_samples_def)
    have last: "quick_module (last_read c + s) = last_write c"
      using unread_after_read [OF assms(1)] samples_to_copy_unread [OF assms(1)] by (simp add: s_def)
    have r: "n = s" "buf = Some (copy_samples c s)" "c' = c\<lparr>last_read := last_write c\<rparr>"
      using True False assms(2) by (auto simp: read_nsamples_def Let_def last simp flip: s_def)
    have "(reader_step kmalloc ^^ (2 + (m + (1 + 4)))) (c, R71) = (c', RDone n buf False)"
      unfolding funpow_add o_apply four r using True m by (simp add: last numeral_2_eq_2)
    then show ?thesis by blast
  next
    case nomem: False
    then have "(reader_step kmalloc ^^ (1 + 4)) (c, R71) = (c', RDone n buf False)"
      unfolding funpow_add o_apply four using False assms(2)
      by (simp add: read_nsamples_def Let_def flip: s_def)
    then show ?thesis by blast
  qed
qed

theorem read_nsamples_sequential_witness:
  "\<exists>m. (reader_step (\<lambda>n. True) ^^ m) (write_to_buffer [1, 2, 3] 10 0 ring0, R71) =
    ((write_to_buffer [1, 2, 3] 10 0 ring0)\<lparr>last_read := 1\<rparr>, RDone 1 (Some [mk_sample [1, 2, 3] 10 0]) False)"
proof -
  let ?c = "write_to_buffer [1, 2, 3] 10 0 ring0"
  have p: "pending ?c = [mk_sample [1, 2, 3] 10 0]" "unread ?c = 1"
    by (simp_all add: pending_write unread_write CIRC_BUF_SIZE_def)
  then have "read_nsamples (\<lambda>n. True) ?c = (1, Some [mk_sample [1, 2, 3] 10 0], ?c\<lparr>last_read := 1\<rparr>)"
    using read_nsamples_ok [of ?c "\<lambda>n. True"] by (simp add: last_write_value quick_module_small)
  then show ?thesis by (intro read_nsamples_sequential) simp_all
qed

end
