(* ===== verification/Fpga.thy ===== *)
theory Fpga
  imports Mia_Prelude
begin

text \<open>
  The driver of the FPGA behind the SPI controller: src/interruption/fpga.c and
  mem_addr.h. The hardware is a parameter, an \<^verbatim>\<open>mmio\<close> record of the effect of a
  read and of a write of a memory-mapped register on a device state \<^verbatim>\<open>'d\<close>. A busy
  wait that the hardware never ends is the result \<^verbatim>\<open>None\<close>.
\<close>

section \<open>Registers\<close>

record 'd mmio =
  mrd :: "u32 \<Rightarrow> 'd \<Rightarrow> u32 \<times> 'd"
  mwr :: "u32 \<Rightarrow> u32 \<Rightarrow> 'd \<Rightarrow> 'd"

definition SPI_REGISTER :: u32 where "SPI_REGISTER = 0x71000000"
definition SPI_CFG :: u32 where "SPI_CFG = 0x40"
definition SPI_TX_CTRL :: u32 where "SPI_TX_CTRL = 0x4C"
definition SPI_RX_DATA :: u32 where "SPI_RX_DATA = 0x58"
definition SPI_FIFO_TX_CTRL :: u32 where "SPI_FIFO_TX_CTRL = 0x60"
definition SPI_FIFO_RX_CFG :: u32 where "SPI_FIFO_RX_CFG = 0x64"
definition SPI_INTR_ENA :: u32 where "SPI_INTR_ENA = 0x6C"
definition LUN_CS_ERASE_MASK :: u32 where "LUN_CS_ERASE_MASK = 0x700"
definition LUN_CS_BIT_MASK :: u32 where "LUN_CS_BIT_MASK = push_bit 9 1"
definition EDGE_MASK :: u32 where "EDGE_MASK = push_bit 14 1"
definition SPEED_SHIFT :: nat where "SPEED_SHIFT = 10"
definition GPIOA_REGISTER :: u32 where "GPIOA_REGISTER = 0x7C000000"
definition WATCHDOG_TIME_10SEG :: u16 where "WATCHDOG_TIME_10SEG = 2"
definition WATCHDOG_FPGA_ADDRESS :: u32 where "WATCHDOG_FPGA_ADDRESS = 0x74"

text \<open>The remapped base addresses the driver keeps (\<^verbatim>\<open>cvspiregs\<close> is \<^verbatim>\<open>spi_register\<close>).\<close>

record fpga_io =
  gpio_a_new_mem :: u32
  spi_register :: u32

section \<open>One transfer\<close>

text \<open>The address lines A15 and A16 go out on the GPIO port, the low five bits of
  the address in the 24-bit command.\<close>

definition a15_a16_addr_register :: "u32 \<Rightarrow> u32" where
  "a15_a16_addr_register adr = push_bit 15 (drop_bit 5 adr) OR push_bit 17 1 OR push_bit 3 1"

definition poke_command :: "u32 \<Rightarrow> u16 \<Rightarrow> u32" where
  "poke_command adr dat = push_bit 18 (adr AND 0x1f) OR 0x800000 OR push_bit 3 (ucast dat)"

definition peek_command :: "u32 \<Rightarrow> u32" where
  "peek_command adr = push_bit 18 (adr AND 0x1f)"

partial_function (option) wait_empty :: "'d mmio \<Rightarrow> fpga_io \<Rightarrow> 'd \<Rightarrow> 'd option" where
  "wait_empty hw io d = (case mrd hw (spi_register io + 0x64) d of (r1, d') \<Rightarrow>
     if r1 \<noteq> 0 then wait_empty hw io d' else Some d')"

partial_function (option) wait_reply :: "'d mmio \<Rightarrow> fpga_io \<Rightarrow> 'd \<Rightarrow> 'd option" where
  "wait_reply hw io d = (case mrd hw (spi_register io + 0x64) d of (r1, d') \<Rightarrow>
     if r1 = 0 then wait_reply hw io d' else Some d')"

partial_function (option) poke_loop :: "'d mmio \<Rightarrow> fpga_io \<Rightarrow> u32 \<Rightarrow> 'd \<Rightarrow> 'd option" where
  "poke_loop hw io cmd d =
     Option.bind (wait_empty hw io d) (\<lambda>d1.
     Option.bind (wait_reply hw io (mwr hw (spi_register io + 0x50) cmd d1)) (\<lambda>d2.
       case mrd hw (spi_register io + 0x58) d2 of (r, d3) \<Rightarrow>
         if r AND 1 = 0 then poke_loop hw io 0 d3 else Some d3))"

definition poke16 :: "'d mmio \<Rightarrow> fpga_io \<Rightarrow> u32 \<Rightarrow> u16 \<Rightarrow> 'd \<Rightarrow> 'd option" where
  "poke16 hw io adr dat d =
     poke_loop hw io (poke_command adr dat) (mwr hw (gpio_a_new_mem io) (a15_a16_addr_register adr) d)"

partial_function (option) peek_loop :: "'d mmio \<Rightarrow> fpga_io \<Rightarrow> u32 \<Rightarrow> 'd \<Rightarrow> (u32 \<times> 'd) option" where
  "peek_loop hw io cmd d =
     Option.bind (wait_reply hw io (mwr hw (spi_register io + 0x50) cmd d)) (\<lambda>d1.
       case mrd hw (spi_register io + 0x58) d1 of (r, d2) \<Rightarrow>
         if r AND 0x10000 = 0 then peek_loop hw io 0 d2 else Some (r AND NOT 0xff0000, d2))"

definition peek16 :: "'d mmio \<Rightarrow> fpga_io \<Rightarrow> u32 \<Rightarrow> 'd \<Rightarrow> (u16 \<times> 'd) option" where
  "peek16 hw io adr d = map_option (\<lambda>(r, d'). (ucast r, d'))
     (peek_loop hw io (peek_command adr) (mwr hw (gpio_a_new_mem io) (a15_a16_addr_register adr) d))"

section \<open>The operations of the driver\<close>

definition getR0 :: "'d mmio \<Rightarrow> fpga_io \<Rightarrow> 'd \<Rightarrow> (u16 \<times> 'd) option" where
  "getR0 hw io d = peek16 hw io 0x40 d"

definition setR0 :: "'d mmio \<Rightarrow> fpga_io \<Rightarrow> u16 \<Rightarrow> 'd \<Rightarrow> 'd option" where
  "setR0 hw io val d = poke16 hw io 0x40 val d"

definition cavium_disable_cs :: "'d mmio \<Rightarrow> fpga_io \<Rightarrow> 'd \<Rightarrow> 'd option" where
  "cavium_disable_cs hw io d = do {
     (val, d) \<leftarrow> getR0 hw io d;
     if val AND push_bit 7 1 \<noteq> 0
     then do {
       d \<leftarrow> setR0 hw io (val AND NOT (push_bit 7 1)) d;
       setR0 hw io ((val AND NOT (push_bit 7 1)) XOR push_bit 14 1) d
     }
     else Some d
   }"

text \<open>The eight dummy reads that empty the receive buffer.\<close>

primrec drain_rx :: "'d mmio \<Rightarrow> fpga_io \<Rightarrow> nat \<Rightarrow> 'd \<Rightarrow> 'd" where
  "drain_rx hw io 0 d = d"
| "drain_rx hw io (Suc n) d = drain_rx hw io n (snd (mrd hw (spi_register io + SPI_RX_DATA) d))"

definition prepare_registers :: "'d mmio \<Rightarrow> fpga_io \<Rightarrow> 'd \<Rightarrow> 'd option" where
  "prepare_registers hw io d = (
     let d = mwr hw (spi_register io + SPI_FIFO_RX_CFG) 0 d;
         d = mwr hw (spi_register io + SPI_CFG) 0x80000c02 d;
         d = mwr hw (spi_register io + SPI_FIFO_TX_CTRL) 0 d;
         d = mwr hw (spi_register io + SPI_INTR_ENA) 0 d;
         d = mwr hw (spi_register io + SPI_TX_CTRL) 4 d;
         d = drain_rx hw io 8 d;
         d = mwr hw (gpio_a_new_mem io) (push_bit 15 2 OR push_bit 17 1 OR push_bit 3 1) d
     in cavium_disable_cs hw io d)"

text \<open>\<^verbatim>\<open>edge\<close> is the constant 1 and \<^verbatim>\<open>clock\<close> the constant 15 in the code; \<^verbatim>\<open>setR0\<close> takes the low
  16 bits of its argument.\<close>

definition set_lun_speed_edge :: "'d mmio \<Rightarrow> fpga_io \<Rightarrow> 'd \<Rightarrow> 'd option" where
  "set_lun_speed_edge hw io d = do {
     (r0, d) \<leftarrow> getR0 hw io d;
     let conf = (ucast r0 :: u32);
     let mask = EDGE_MASK;
     d \<leftarrow> setR0 hw io (ucast (conf OR mask)) d;
     let mask = mask OR LUN_CS_BIT_MASK;
     let conf = conf AND NOT LUN_CS_ERASE_MASK;
     let mask = mask OR push_bit SPEED_SHIFT 15;
     setR0 hw io (ucast (conf OR mask)) d
   }"

definition prepare_spi2 :: "'d mmio \<Rightarrow> fpga_io \<Rightarrow> 'd \<Rightarrow> 'd option" where
  "prepare_spi2 hw io d = Option.bind (prepare_registers hw io d) (set_lun_speed_edge hw io)"

definition get_kernel_current_time :: "u32 \<Rightarrow> u32 \<Rightarrow> u64" where
  "get_kernel_current_time tv_sec tv_usec = scast tv_sec * 1000000000 + scast tv_usec * 1000"

text \<open>The twelve bytes stored into the three words of the caller's buffer.\<close>

definition channel_bytes :: "u16 \<Rightarrow> u16 \<Rightarrow> u16 \<Rightarrow> u16 \<Rightarrow> u16 \<Rightarrow> u16 \<Rightarrow> u8 list" where
  "channel_bytes a b c d e f =
     (let t1 = push_bit 16 (ucast a) OR ucast b :: u32;
          t2 = push_bit 16 (ucast c) OR ucast d :: u32;
          t3 = push_bit 16 (ucast e) OR ucast f :: u32;
          byte = (\<lambda>t i. word_bytes 4 t ! i)
      in [byte t1 3, byte t1 2, byte t1 1,
          byte t1 0, byte t2 3, byte t2 2,
          byte t2 1, byte t2 0, byte t3 3,
          byte t3 2, byte t3 1, byte t3 0])"

definition words_of_bytes :: "u8 list \<Rightarrow> u32 list" where
  "words_of_bytes bs = [bytes_word (take 4 bs), bytes_word (take 4 (drop 4 bs)), bytes_word (take 4 (drop 8 bs))]"

definition read_four_channels :: "'d mmio \<Rightarrow> fpga_io \<Rightarrow> 'd \<Rightarrow> (u32 list \<times> 'd) option" where
  "read_four_channels hw io dev = do {
     (a, dev) \<leftarrow> peek16 hw io 0x4A dev;
     (b, dev) \<leftarrow> peek16 hw io 0x4A dev;
     (c, dev) \<leftarrow> peek16 hw io 0x4A dev;
     (d, dev) \<leftarrow> peek16 hw io 0x4A dev;
     (e, dev) \<leftarrow> peek16 hw io 0x4A dev;
     (f, dev) \<leftarrow> peek16 hw io 0x4C dev;
     Some (words_of_bytes (channel_bytes a b c d e f), dev)
   }"

definition write_watchdog :: "'d mmio \<Rightarrow> fpga_io \<Rightarrow> 'd \<Rightarrow> 'd option" where
  "write_watchdog hw io d = poke16 hw io WATCHDOG_FPGA_ADDRESS WATCHDOG_TIME_10SEG d"

definition write_dio26 :: "'d mmio \<Rightarrow> fpga_io \<Rightarrow> bool \<Rightarrow> 'd \<Rightarrow> 'd option" where
  "write_dio26 hw io b d = do {
     (v, d) \<leftarrow> peek16 hw io 0x6a d;
     d \<leftarrow> poke16 hw io 0x6a (if b then v OR push_bit 5 1 else v AND NOT (push_bit 5 1)) d;
     (w, d) \<leftarrow> peek16 hw io 0x6c d;
     poke16 hw io 0x6c (w OR push_bit 5 1) d
   }"

section \<open>What the driver relies on\<close>

text \<open>The 16-bit registers have the even addresses below 128. A bus gives access to
  them when, in every state it may be in (\<^verbatim>\<open>ok\<close>), a peek returns the register and
  changes none, and a poke sets that register and no other.\<close>

definition reg_address :: "u32 \<Rightarrow> bool" where
  "reg_address adr \<longleftrightarrow> adr < 128 \<and> \<not> bit adr 0"

definition register_bus :: "'d mmio \<Rightarrow> fpga_io \<Rightarrow> ('d \<Rightarrow> bool) \<Rightarrow> ('d \<Rightarrow> u32 \<Rightarrow> u16) \<Rightarrow> bool" where
  "register_bus hw io ok reg \<longleftrightarrow>
     (\<forall>d adr. ok d \<and> reg_address adr \<longrightarrow>
        (\<exists>d'. peek16 hw io adr d = Some (reg d adr, d') \<and> ok d' \<and> reg d' = reg d)) \<and>
     (\<forall>d adr v. ok d \<and> reg_address adr \<longrightarrow>
        (\<exists>d'. poke16 hw io adr v d = Some d' \<and> ok d' \<and> reg d' = (reg d)(adr := v)))"

lemma bus_peek:
  "register_bus hw io ok reg \<Longrightarrow> ok d \<Longrightarrow> reg_address adr
    \<Longrightarrow> \<exists>d'. peek16 hw io adr d = Some (reg d adr, d') \<and> ok d' \<and> reg d' = reg d"
  unfolding register_bus_def by blast

lemma bus_poke:
  "register_bus hw io ok reg \<Longrightarrow> ok d \<Longrightarrow> reg_address adr
    \<Longrightarrow> \<exists>d'. poke16 hw io adr v d = Some d' \<and> ok d' \<and> reg d' = (reg d)(adr := v)"
  unfolding register_bus_def by blast

text \<open>For the examples, an FPGA that answers at once: it latches the address lines, decodes a
  24-bit command, and answers with the acknowledge bit the driver waits for. The other
  memory-mapped registers of the board are plain memory.\<close>

record fpga_sim =
  sim_regs :: "u32 \<Rightarrow> u16"
  sim_latch :: u32
  sim_rx :: "u32 option"
  sim_mem :: "u32 \<Rightarrow> u32"

definition sim_address :: "fpga_sim \<Rightarrow> u32 \<Rightarrow> u32" where
  "sim_address d cmd = push_bit 5 (drop_bit 15 (sim_latch d) AND 3) OR (drop_bit 18 cmd AND 0x1e)"

definition sim_command :: "u32 \<Rightarrow> fpga_sim \<Rightarrow> fpga_sim" where
  "sim_command cmd d =
     (if cmd AND 0x800000 \<noteq> 0
      then d\<lparr>sim_regs := (sim_regs d)(sim_address d cmd := ucast (drop_bit 3 cmd)), sim_rx := Some 1\<rparr>
      else d\<lparr>sim_rx := Some (0x10000 OR ucast (sim_regs d (sim_address d cmd)))\<rparr>)"

definition sim_mmio :: "fpga_io \<Rightarrow> fpga_sim mmio" where
  "sim_mmio io = \<lparr>
     mrd = (\<lambda>a d. if a = spi_register io + 0x64 then (case sim_rx d of None \<Rightarrow> 0 | Some r \<Rightarrow> 1, d)
        else if a = spi_register io + 0x58 then (case sim_rx d of None \<Rightarrow> 0 | Some r \<Rightarrow> r, d\<lparr>sim_rx := None\<rparr>)
        else (sim_mem d a, d)),
     mwr = (\<lambda>a v d. if a = gpio_a_new_mem io then d\<lparr>sim_latch := v\<rparr>
        else if a = spi_register io + 0x50 then sim_command v d
        else d\<lparr>sim_mem := (sim_mem d)(a := v)\<rparr>)\<rparr>"

definition io_distinct :: "fpga_io \<Rightarrow> bool" where
  "io_distinct io \<longleftrightarrow> gpio_a_new_mem io \<noteq> spi_register io + 0x50"

text \<open>The masks of the driver as bits.\<close>

lemma mask_bits:
  "bit (3 :: u32) n \<longleftrightarrow> n < 2" "bit (0x1f :: u32) n \<longleftrightarrow> n < 5"
  "bit (0x1e :: u32) n \<longleftrightarrow> 1 \<le> n \<and> n < 5" "bit (0x800000 :: u32) n \<longleftrightarrow> n = 23"
  "bit (0x10000 :: u32) n \<longleftrightarrow> n = 16" "bit (0xff0000 :: u32) n \<longleftrightarrow> 16 \<le> n \<and> n < 24"
proof -
  have 3: "(3 :: u32) = mask 2" and 31: "(0x1f :: u32) = mask 5" and 30: "(0x1e :: u32) = push_bit 1 (mask 4)"
    and 23: "(0x800000 :: u32) = 2 ^ 23" and 16: "(0x10000 :: u32) = 2 ^ 16"
    and ff: "(0xff0000 :: u32) = push_bit 16 (mask 8)"
    by (simp_all add: mask_eq_exp_minus_1)
  show "bit (3 :: u32) n \<longleftrightarrow> n < 2" unfolding 3 bit_mask_iff by auto
  show "bit (0x1f :: u32) n \<longleftrightarrow> n < 5" unfolding 31 bit_mask_iff by auto
  show "bit (0x1e :: u32) n \<longleftrightarrow> 1 \<le> n \<and> n < 5" unfolding 30 bit_push_bit_iff bit_mask_iff by auto
  show "bit (0x800000 :: u32) n \<longleftrightarrow> n = 23" unfolding 23 bit_exp_iff by auto
  show "bit (0x10000 :: u32) n \<longleftrightarrow> n = 16" unfolding 16 bit_exp_iff by auto
  show "bit (0xff0000 :: u32) n \<longleftrightarrow> 16 \<le> n \<and> n < 24" unfolding ff bit_push_bit_iff bit_mask_iff by auto
qed

lemma reg_address_bit: "reg_address adr \<Longrightarrow> bit adr n \<Longrightarrow> 1 \<le> n \<and> n < 7"
proof -
  assume r: "reg_address adr" and b: "bit adr n"
  have "take_bit 7 adr = adr"
    using r by (simp add: reg_address_def take_bit_eq_mod word_arith_nat_mod word_less_nat_alt)
  with b have "n < 7" by (metis bit_take_bit_iff)
  moreover have "n \<noteq> 0" using r b unfolding reg_address_def by metis
  ultimately show "1 \<le> n \<and> n < 7" by simp
qed

lemma odd_bit: "\<not> bit (adr :: u32) 0 \<Longrightarrow> bit adr n \<Longrightarrow> Suc 0 \<le> n"
  by (cases n) auto

lemmas command_bits = bit_or_iff bit_and_iff bit_not_iff bit_push_bit_iff bit_drop_bit_eq
  bit_unsigned_iff mask_bits bit_1_iff

lemma poke_command_address: "\<not> bit adr 0 \<Longrightarrow> drop_bit 18 (poke_command adr dat) AND 0x1e = adr AND 0x1f"
  unfolding poke_command_def
  by (rule bit_word_eqI, unfold command_bits) (auto dest: bit_imp_le_length intro: odd_bit simp del: bit_0)

lemma poke_command_data: "\<not> bit adr 0 \<Longrightarrow> ucast (drop_bit 3 (poke_command adr dat)) = dat"
  unfolding poke_command_def
  by (rule bit_word_eqI, unfold command_bits) (auto dest: bit_imp_le_length intro: odd_bit simp del: bit_0)

lemma poke_command_write: "poke_command adr dat AND 0x800000 \<noteq> 0"
proof -
  have "bit (poke_command adr dat AND 0x800000) 23"
    by (simp add: poke_command_def command_bits)
  then show ?thesis by auto
qed

lemma peek_command_read: "peek_command adr AND 0x800000 = 0"
  unfolding peek_command_def by (rule bit_word_eqI, unfold command_bits) (auto intro: odd_bit simp del: bit_0)

lemma peek_command_address: "\<not> bit adr 0 \<Longrightarrow> drop_bit 18 (peek_command adr) AND 0x1e = adr AND 0x1f"
  unfolding peek_command_def by (rule bit_word_eqI, unfold command_bits) (auto intro: odd_bit simp del: bit_0)

lemma latch_address:
  "reg_address adr \<Longrightarrow> push_bit 5 (drop_bit 15 (a15_a16_addr_register adr) AND 3) OR (adr AND 0x1f) = adr"
  unfolding a15_a16_addr_register_def
  by (rule bit_word_eqI, unfold command_bits) (auto dest: reg_address_bit)

section \<open>Transfers on the simulated FPGA\<close>

lemma sim_rd:
  "mrd (sim_mmio io) (spi_register io + 0x64) d = (case sim_rx d of None \<Rightarrow> 0 | Some r \<Rightarrow> 1, d)"
  "mrd (sim_mmio io) (spi_register io + 0x58) d
    = (case sim_rx d of None \<Rightarrow> 0 | Some r \<Rightarrow> r, d\<lparr>sim_rx := None\<rparr>)"
  by (simp_all add: sim_mmio_def)

lemma sim_wr:
  "mwr (sim_mmio io) (gpio_a_new_mem io) v d = d\<lparr>sim_latch := v\<rparr>"
  "io_distinct io \<Longrightarrow> mwr (sim_mmio io) (spi_register io + 0x50) v d = sim_command v d"
  by (simp_all add: sim_mmio_def io_distinct_def)

lemma sim_wait:
  "sim_rx d = None \<Longrightarrow> wait_empty (sim_mmio io) io d = Some d"
  "sim_rx d = Some r \<Longrightarrow> wait_reply (sim_mmio io) io d = Some d"
  by (simp_all add: wait_empty.simps [of _ _ d] wait_reply.simps [of _ _ d] sim_rd)

lemma sim_poke:
  assumes "io_distinct io" "reg_address adr" "sim_rx d = None"
  shows "poke16 (sim_mmio io) io adr v d =
    Some (d\<lparr>sim_regs := (sim_regs d)(adr := v), sim_latch := a15_a16_addr_register adr\<rparr>)"
proof -
  let ?d = "d\<lparr>sim_latch := a15_a16_addr_register adr\<rparr>"
  have even: "\<not> bit adr 0" using assms(2) by (simp add: reg_address_def)
  have adr: "sim_address ?d (poke_command adr v) = adr"
    using assms(2) even by (simp add: sim_address_def poke_command_address latch_address del: push_bit_and)
  have "sim_command (poke_command adr v) ?d = ?d\<lparr>sim_regs := (sim_regs d)(adr := v), sim_rx := Some 1\<rparr>"
    using even by (simp add: sim_command_def adr poke_command_write poke_command_data)
  then show ?thesis
    using assms by (simp add: poke16_def sim_wr poke_loop.simps sim_wait sim_rd)
qed

lemma sim_peek:
  assumes "io_distinct io" "reg_address adr" "sim_rx d = None"
  shows "peek16 (sim_mmio io) io adr d = Some (sim_regs d adr, d\<lparr>sim_latch := a15_a16_addr_register adr\<rparr>)"
proof -
  let ?d = "d\<lparr>sim_latch := a15_a16_addr_register adr\<rparr>" and ?r = "0x10000 OR ucast (sim_regs d adr) :: u32"
  have even: "\<not> bit adr 0" using assms(2) by (simp add: reg_address_def)
  have adr: "sim_address ?d (peek_command adr) = adr"
    using assms(2) even by (simp add: sim_address_def peek_command_address latch_address del: push_bit_and)
  have "sim_command (peek_command adr) ?d = ?d\<lparr>sim_rx := Some ?r\<rparr>"
    by (simp add: sim_command_def adr peek_command_read)
  moreover have "?r AND 0x10000 \<noteq> 0"
  proof -
    have "bit (?r AND 0x10000) 16" by (simp only: command_bits) simp
    then show ?thesis by auto
  qed
  moreover have "ucast (?r AND NOT 0xff0000) = sim_regs d adr"
    by (rule bit_word_eqI, unfold command_bits) (auto dest: bit_imp_le_length)
  ultimately show ?thesis
    using assms by (simp add: peek16_def sim_wr peek_loop.simps sim_wait sim_rd)
qed

lemma sim_register_bus:
  "io_distinct io \<Longrightarrow> register_bus (sim_mmio io) io (\<lambda>d. sim_rx d = None) sim_regs"
  by (simp add: register_bus_def sim_poke sim_peek)

definition board_io :: fpga_io where
  "board_io = \<lparr>gpio_a_new_mem = GPIOA_REGISTER, spi_register = SPI_REGISTER\<rparr>"

definition sim0 :: fpga_sim where
  "sim0 = \<lparr>sim_regs = (\<lambda>a. 0), sim_latch = 0, sim_rx = None, sim_mem = (\<lambda>a. 0)\<rparr>"

lemma board_io_distinct [simp]: "io_distinct board_io"
  by (simp add: board_io_def io_distinct_def GPIOA_REGISTER_def SPI_REGISTER_def)

section \<open>Properties\<close>

text \<open>What the driver relies on of the SPI controller and of the FPGA behind it, for any device. A device state is seen as the
  registers of the FPGA, the latched address lines, the command that is not acknowledged yet with the number of times it will
  still be refused, and the phase of the receiver: \<^verbatim>\<open>Ready n\<close>, still busy for \<^verbatim>\<open>n\<close> reads of the level, or \<^verbatim>\<open>Answering n r\<close>, with an
  answer \<^verbatim>\<open>r\<close> that shows after \<^verbatim>\<open>n\<close> reads of the level.\<close>

datatype spi_phase = Ready nat | Answering nat u32

record spi_view =
  v_regs :: "u32 \<Rightarrow> u16"
  v_latch :: u32
  v_open :: "(u32 \<times> nat) option"
  v_phase :: spi_phase

definition fpga_address :: "u32 \<Rightarrow> u32 \<Rightarrow> u32" where
  "fpga_address latch cmd = push_bit 5 (drop_bit 15 latch AND 3) OR (drop_bit 18 cmd AND 0x1e)"

text \<open>What a store to the transmit register does: a new command is refused any number of times, each time with an answer that lacks
  the acknowledge bit, and goes on with a command of zero; at last it is carried out, bit 0 of the answer acknowledging a
  write, bit 16 a read, whose value is in the low half. The delay of each answer and the other bits are arbitrary.\<close>

definition is_write :: "u32 \<Rightarrow> bool" where
  "is_write cmd \<longleftrightarrow> bit cmd 23"

definition spi_answer :: "spi_view \<Rightarrow> u32 \<Rightarrow> spi_view \<Rightarrow> bool" where
  "spi_answer v c v' \<longleftrightarrow> (\<exists>cur k n r. (case v_open v of None \<Rightarrow> cur = c | Some (c0, k0) \<Rightarrow> cur = c0 \<and> k = k0) \<and>
     v_latch v' = v_latch v \<and> v_phase v' = Answering n r \<and>
     (if 0 < k then v_open v' = Some (cur, k - 1) \<and> v_regs v' = v_regs v \<and> \<not> bit r (if is_write cur then 0 else 16)
      else v_open v' = None \<and>
        (if is_write cur then bit r 0 \<and> v_regs v' = (v_regs v)(fpga_address (v_latch v) cur := ucast (drop_bit 3 cur))
         else bit r 16 \<and> ucast r = v_regs v (fpga_address (v_latch v) cur) \<and> v_regs v' = v_regs v)))"

definition spi_device :: "'d mmio \<Rightarrow> fpga_io \<Rightarrow> ('d \<Rightarrow> spi_view) \<Rightarrow> bool" where
  "spi_device hw io view \<longleftrightarrow> (\<forall>d.
     (\<forall>a. view (mwr hw (gpio_a_new_mem io) a d) = (view d)\<lparr>v_latch := a\<rparr>) \<and>
     (case mrd hw (spi_register io + 0x64) d of (level, d') \<Rightarrow> (case v_phase (view d) of
         Ready 0 \<Rightarrow> level = 0 \<and> view d' = view d
       | Ready (Suc n) \<Rightarrow> level \<noteq> 0 \<and> view d' = (view d)\<lparr>v_phase := Ready n\<rparr>
       | Answering 0 r \<Rightarrow> level \<noteq> 0 \<and> view d' = view d
       | Answering (Suc n) r \<Rightarrow> level = 0 \<and> view d' = (view d)\<lparr>v_phase := Answering n r\<rparr>)) \<and>
     (\<forall>c. v_phase (view d) = Ready 0 \<and> (v_open (view d) = None \<or> c = 0) \<longrightarrow>
        spi_answer (view d) c (view (mwr hw (spi_register io + 0x50) c d))) \<and>
     (\<forall>r. v_phase (view d) = Answering 0 r \<longrightarrow> fst (mrd hw (spi_register io + 0x58) d) = r \<and>
        view (snd (mrd hw (spi_register io + 0x58) d)) = (view d)\<lparr>v_phase := Ready 0\<rparr>))"

lemma spi_device_laws:
  assumes "spi_device hw io view"
  shows "view (mwr hw (gpio_a_new_mem io) a d) = (view d)\<lparr>v_latch := a\<rparr>"
    and "mrd hw (spi_register io + 0x64) d = (level, d') \<Longrightarrow> v_phase (view d) = Ready 0 \<Longrightarrow> level = 0 \<and> view d' = view d"
    and "mrd hw (spi_register io + 0x64) d = (level, d') \<Longrightarrow> v_phase (view d) = Ready (Suc n) \<Longrightarrow> level \<noteq> 0 \<and> view d' = (view d)\<lparr>v_phase := Ready n\<rparr>"
    and "mrd hw (spi_register io + 0x64) d = (level, d') \<Longrightarrow> v_phase (view d) = Answering 0 r \<Longrightarrow> level \<noteq> 0 \<and> view d' = view d"
    and "mrd hw (spi_register io + 0x64) d = (level, d') \<Longrightarrow> v_phase (view d) = Answering (Suc n) r \<Longrightarrow> level = 0 \<and> view d' = (view d)\<lparr>v_phase := Answering n r\<rparr>"
    and "v_phase (view d) = Ready 0 \<Longrightarrow> v_open (view d) = None \<or> c = 0 \<Longrightarrow> spi_answer (view d) c (view (mwr hw (spi_register io + 0x50) c d))"
    and "v_phase (view d) = Answering 0 r \<Longrightarrow> \<exists>d'. mrd hw (spi_register io + 0x58) d = (r, d') \<and> view d' = (view d)\<lparr>v_phase := Ready 0\<rparr>"
  using assms unfolding spi_device_def by (auto dest!: spec [of _ d] simp: prod_eq_iff)

lemma wait_empty_returns:
  assumes "spi_device hw io view" "v_phase (view d) = Ready n"
  shows "\<exists>d'. wait_empty hw io d = Some d' \<and> view d' = (view d)\<lparr>v_phase := Ready 0\<rparr>"
  using assms(2)
proof (induction n arbitrary: d)
  case 0
  obtain l d' where l: "mrd hw (spi_register io + 0x64) d = (l, d')" by fastforce
  with 0 spi_device_laws(2) [OF assms(1) l] show ?case by (subst wait_empty.simps) simp
next
  case (Suc n)
  obtain l d1 where l: "mrd hw (spi_register io + 0x64) d = (l, d1)" by fastforce
  then have d1: "l \<noteq> 0" "view d1 = (view d)\<lparr>v_phase := Ready n\<rparr>" using spi_device_laws(3) [OF assms(1) l Suc.prems] by simp_all
  then show ?case using Suc.IH [of d1] l by (subst wait_empty.simps) simp
qed

lemma wait_reply_returns:
  assumes "spi_device hw io view" "v_phase (view d) = Answering n r"
  shows "\<exists>d'. wait_reply hw io d = Some d' \<and> view d' = (view d)\<lparr>v_phase := Answering 0 r\<rparr>"
  using assms(2)
proof (induction n arbitrary: d)
  case 0
  obtain l d' where l: "mrd hw (spi_register io + 0x64) d = (l, d')" by fastforce
  with 0 spi_device_laws(4) [OF assms(1) l] show ?case by (subst wait_reply.simps) simp
next
  case (Suc n)
  obtain l d1 where l: "mrd hw (spi_register io + 0x64) d = (l, d1)" by fastforce
  then have d1: "l = 0" "view d1 = (view d)\<lparr>v_phase := Answering n r\<rparr>" using spi_device_laws(5) [OF assms(1) l Suc.prems] by simp_all
  then show ?case using Suc.IH [of d1] l by (subst wait_reply.simps) simp
qed

lemma answer_read:
  assumes "spi_device hw io view" "v_phase (view d) = Answering n r"
  shows "\<exists>d1 d2. wait_reply hw io d = Some d1 \<and> mrd hw (spi_register io + 0x58) d1 = (r, d2) \<and> view d2 = (view d)\<lparr>v_phase := Ready 0\<rparr>"
proof -
  obtain d1 where d1: "wait_reply hw io d = Some d1" "view d1 = (view d)\<lparr>v_phase := Answering 0 r\<rparr>"
    using wait_reply_returns [OF assms] by blast
  with spi_device_laws(7) [OF assms(1), of d1 r] show ?thesis by auto
qed

text \<open>A command in progress: sent for the first time, or refused \<^verbatim>\<open>k\<close> more times.\<close>

definition sending :: "spi_view \<Rightarrow> u32 \<Rightarrow> u32 \<Rightarrow> nat option \<Rightarrow> bool" where
  "sending v cur c ko \<longleftrightarrow> (case ko of None \<Rightarrow> v_open v = None \<and> c = cur | Some k \<Rightarrow> v_open v = Some (cur, k) \<and> c = 0)"

lemma sending_answered:
  assumes "sending v cur c ko" "spi_answer v c v'"
  obtains (refused) k n r where "ko = None \<or> ko = Some (Suc k)" "sending v' cur 0 (Some k)" "v_regs v' = v_regs v" "v_latch v' = v_latch v"
      "v_phase v' = Answering n r" "\<not> bit r (if is_write cur then 0 else 16)"
  | (carried) n r where "v_open v' = None" "v_latch v' = v_latch v" "v_phase v' = Answering n r"
      "if is_write cur then bit r 0 \<and> v_regs v' = (v_regs v)(fpga_address (v_latch v) cur := ucast (drop_bit 3 cur))
       else bit r 16 \<and> ucast r = v_regs v (fpga_address (v_latch v) cur) \<and> v_regs v' = v_regs v"
proof -
  obtain k n r where k: "ko = None \<or> ko = Some k" "v_latch v' = v_latch v" "v_phase v' = Answering n r"
    and ans: "if 0 < k then v_open v' = Some (cur, k - 1) \<and> v_regs v' = v_regs v \<and> \<not> bit r (if is_write cur then 0 else 16)
      else v_open v' = None \<and>
        (if is_write cur then bit r 0 \<and> v_regs v' = (v_regs v)(fpga_address (v_latch v) cur := ucast (drop_bit 3 cur))
         else bit r 16 \<and> ucast r = v_regs v (fpga_address (v_latch v) cur) \<and> v_regs v' = v_regs v)"
    using assms unfolding spi_answer_def sending_def by (fastforce split: option.splits)
  show thesis
  proof (cases k)
    case 0
    with ans k carried show thesis by simp
  next
    case (Suc j)
    with ans k refused [of j n r] show thesis by (simp add: sending_def)
  qed
qed

lemma and_bit: "(w :: u32) AND 1 = 0 \<longleftrightarrow> \<not> bit w 0" "w AND 0x10000 = 0 \<longleftrightarrow> \<not> bit w 16"
proof -
  have "(w AND 2 ^ n = 0) = (\<not> bit w n)" if "n < 32" for n
    using that by (metis and_exp_eq_0_iff_not_bit)
  from this [of 0] this [of 16] show "(w :: u32) AND 1 = 0 \<longleftrightarrow> \<not> bit w 0" "w AND 0x10000 = 0 \<longleftrightarrow> \<not> bit w 16" by simp_all
qed

lemma poke_loop_step:
  assumes "spi_device hw io view" "v_phase (view d) = Ready n" "sending (view d) cur c ko" "is_write cur"
  obtains (again) k d' where "poke_loop hw io c d = poke_loop hw io 0 d'" "ko = None \<or> ko = Some (Suc k)" "sending (view d') cur 0 (Some k)"
      "v_phase (view d') = Ready 0" "v_regs (view d') = v_regs (view d)" "v_latch (view d') = v_latch (view d)"
  | (ack) d' where "poke_loop hw io c d = Some d'" "v_open (view d') = None" "v_phase (view d') = Ready 0"
      "v_regs (view d') = (v_regs (view d))(fpga_address (v_latch (view d)) cur := ucast (drop_bit 3 cur))"
proof -
  obtain d1 where d1: "wait_empty hw io d = Some d1" "view d1 = (view d)\<lparr>v_phase := Ready 0\<rparr>"
    using wait_empty_returns [OF assms(1,2)] by blast
  let ?d2 = "mwr hw (spi_register io + 0x50) c d1"
  have snd1: "sending (view d1) cur c ko" using assms(3) d1(2) by (simp add: sending_def split: option.splits)
  then have "v_open (view d1) = None \<or> c = 0" by (auto simp: sending_def split: option.splits)
  then have "spi_answer (view d1) c (view ?d2)" using spi_device_laws(6) [OF assms(1), of d1 c] d1(2) by simp
  with snd1 show thesis
  proof (cases rule: sending_answered)
    case (refused k m r)
    obtain d3 d4 where "wait_reply hw io ?d2 = Some d3" "mrd hw (spi_register io + 0x58) d3 = (r, d4)" "view d4 = (view ?d2)\<lparr>v_phase := Ready 0\<rparr>"
      using answer_read [OF assms(1) refused(5)] by blast
    with refused d1 assms(4) show thesis
      by (intro again [of d4 k]) (simp_all add: poke_loop.simps [of hw io c d] and_bit sending_def)
  next
    case (carried m r)
    obtain d3 d4 where "wait_reply hw io ?d2 = Some d3" "mrd hw (spi_register io + 0x58) d3 = (r, d4)" "view d4 = (view ?d2)\<lparr>v_phase := Ready 0\<rparr>"
      using answer_read [OF assms(1) carried(3)] by blast
    with carried d1 assms(4) show thesis
      by (intro ack [of d4]) (simp_all add: poke_loop.simps [of hw io c d] and_bit)
  qed
qed

lemma poke_loop_retries:
  assumes "spi_device hw io view" "v_phase (view d) = Ready n" "sending (view d) cur 0 (Some k)" "is_write cur"
  shows "\<exists>d'. poke_loop hw io 0 d = Some d' \<and> v_open (view d') = None \<and> v_phase (view d') = Ready 0 \<and>
    v_regs (view d') = (v_regs (view d))(fpga_address (v_latch (view d)) cur := ucast (drop_bit 3 cur))"
  using assms(2,3)
proof (induction k arbitrary: d n)
  case (Suc k)
  from assms(1) Suc.prems assms(4) show ?case
  proof (cases rule: poke_loop_step)
    case (again j d')
    then show ?thesis using Suc.IH [of d' 0] by auto
  next
    case (ack d')
    then show ?thesis by auto
  qed
next
  case 0
  from assms(1) 0 assms(4) show ?case by (cases rule: poke_loop_step) auto
qed

lemma poke_loop_returns:
  assumes "spi_device hw io view" "v_phase (view d) = Ready n" "v_open (view d) = None" "is_write cur"
  shows "\<exists>d'. poke_loop hw io cur d = Some d' \<and> v_open (view d') = None \<and> v_phase (view d') = Ready 0 \<and>
    v_regs (view d') = (v_regs (view d))(fpga_address (v_latch (view d)) cur := ucast (drop_bit 3 cur))"
proof -
  have "sending (view d) cur cur None" using assms(3) by (simp add: sending_def)
  from assms(1,2) this assms(4) show ?thesis
  proof (cases rule: poke_loop_step)
    case (again k d')
    then show ?thesis using poke_loop_retries [OF assms(1) again(4,3) assms(4)] by simp
  next
    case (ack d')
    then show ?thesis by auto
  qed
qed

lemma peek_loop_step:
  assumes "spi_device hw io view" "v_phase (view d) = Ready 0" "sending (view d) cur c ko" "\<not> is_write cur"
  obtains (again) k d' where "peek_loop hw io c d = peek_loop hw io 0 d'" "ko = None \<or> ko = Some (Suc k)" "sending (view d') cur 0 (Some k)"
      "v_phase (view d') = Ready 0" "v_regs (view d') = v_regs (view d)" "v_latch (view d') = v_latch (view d)"
  | (ack) r d' where "peek_loop hw io c d = Some (r AND NOT 0xff0000, d')" "v_open (view d') = None" "v_phase (view d') = Ready 0"
      "ucast r = v_regs (view d) (fpga_address (v_latch (view d)) cur)" "v_regs (view d') = v_regs (view d)"
proof -
  let ?d2 = "mwr hw (spi_register io + 0x50) c d"
  have "v_open (view d) = None \<or> c = 0" using assms(3) by (auto simp: sending_def split: option.splits)
  then have "spi_answer (view d) c (view ?d2)" using spi_device_laws(6) [OF assms(1,2)] by simp
  with assms(3) show thesis
  proof (cases rule: sending_answered)
    case (refused k m r)
    obtain d3 d4 where "wait_reply hw io ?d2 = Some d3" "mrd hw (spi_register io + 0x58) d3 = (r, d4)" "view d4 = (view ?d2)\<lparr>v_phase := Ready 0\<rparr>"
      using answer_read [OF assms(1) refused(5)] by blast
    with refused assms(4) show thesis
      by (intro again [of d4 k]) (simp_all add: peek_loop.simps [of hw io c d] and_bit sending_def)
  next
    case (carried m r)
    obtain d3 d4 where "wait_reply hw io ?d2 = Some d3" "mrd hw (spi_register io + 0x58) d3 = (r, d4)" "view d4 = (view ?d2)\<lparr>v_phase := Ready 0\<rparr>"
      using answer_read [OF assms(1) carried(3)] by blast
    with carried assms(4) show thesis
      by (intro ack [of r d4]) (simp_all add: peek_loop.simps [of hw io c d] and_bit)
  qed
qed

lemma peek_loop_retries:
  assumes "spi_device hw io view" "v_phase (view d) = Ready 0" "sending (view d) cur 0 (Some k)" "\<not> is_write cur"
  shows "\<exists>r d'. peek_loop hw io 0 d = Some (r AND NOT 0xff0000, d') \<and> v_open (view d') = None \<and> v_phase (view d') = Ready 0 \<and>
    ucast r = v_regs (view d) (fpga_address (v_latch (view d)) cur) \<and> v_regs (view d') = v_regs (view d)"
  using assms(2,3)
proof (induction k arbitrary: d)
  case (Suc k)
  from assms(1) Suc.prems assms(4) show ?case
  proof (cases rule: peek_loop_step)
    case (again j d')
    then show ?thesis using Suc.IH [of d'] by auto
  next
    case (ack r d')
    then show ?thesis by auto
  qed
next
  case 0
  from assms(1) 0 assms(4) show ?case by (cases rule: peek_loop_step) auto
qed

lemma peek_loop_returns:
  assumes "spi_device hw io view" "v_phase (view d) = Ready 0" "v_open (view d) = None" "\<not> is_write cur"
  shows "\<exists>r d'. peek_loop hw io cur d = Some (r AND NOT 0xff0000, d') \<and> v_open (view d') = None \<and> v_phase (view d') = Ready 0 \<and>
    ucast r = v_regs (view d) (fpga_address (v_latch (view d)) cur) \<and> v_regs (view d') = v_regs (view d)"
proof -
  have "sending (view d) cur cur None" using assms(3) by (simp add: sending_def)
  from assms(1,2) this assms(4) show ?thesis
  proof (cases rule: peek_loop_step)
    case (again k d')
    then show ?thesis using peek_loop_retries [OF assms(1) again(4,3) assms(4)] by simp
  next
    case (ack r d')
    then show ?thesis by auto
  qed
qed

lemma command_is_write: "is_write (poke_command adr v)" "\<not> is_write (peek_command adr)"
  by (simp_all add: is_write_def poke_command_def peek_command_def command_bits)

lemma not_16711680: "NOT 0xff0000 = (- 16711681 :: u32)"
  by simp

lemma low_half: "ucast (r AND - 16711681 :: u32) = (ucast r :: u16)"
  unfolding not_16711680 [symmetric]
  by (rule bit_word_eqI, unfold command_bits) (auto dest: bit_imp_le_length)

lemma spi_addresses:
  assumes "reg_address adr"
  shows "fpga_address (a15_a16_addr_register adr) (poke_command adr v) = adr" "fpga_address (a15_a16_addr_register adr) (peek_command adr) = adr"
    "ucast (drop_bit 3 (poke_command adr v)) = v"
  using assms by (simp_all add: reg_address_def fpga_address_def poke_command_address peek_command_address latch_address poke_command_data del: push_bit_and)

lemma spi_poke16:
  assumes "spi_device hw io view" "reg_address adr" "v_open (view d) = None" "v_phase (view d) = Ready n"
  shows "\<exists>d'. poke16 hw io adr v d = Some d' \<and> v_regs (view d') = (v_regs (view d))(adr := v) \<and>
    v_open (view d') = None \<and> v_phase (view d') = Ready 0"
  using poke_loop_returns [OF assms(1), of "mwr hw (gpio_a_new_mem io) (a15_a16_addr_register adr) d" n "poke_command adr v"] assms(2-4)
  by (auto simp: poke16_def spi_device_laws(1) [OF assms(1)] spi_addresses command_is_write)

lemma spi_peek16:
  assumes "spi_device hw io view" "reg_address adr" "v_open (view d) = None" "v_phase (view d) = Ready 0"
  shows "\<exists>d'. peek16 hw io adr d = Some (v_regs (view d) adr, d') \<and> v_regs (view d') = v_regs (view d) \<and>
    v_open (view d') = None \<and> v_phase (view d') = Ready 0"
  using peek_loop_returns [OF assms(1), of "mwr hw (gpio_a_new_mem io) (a15_a16_addr_register adr) d" "peek_command adr"] assms(2-4)
  by (auto simp: peek16_def spi_device_laws(1) [OF assms(1)] spi_addresses command_is_write low_half)

text \<open>So every such device gives the access to the registers the other operations build on.\<close>

lemma spi_register_bus:
  "spi_device hw io view \<Longrightarrow> register_bus hw io (\<lambda>d. v_open (view d) = None \<and> v_phase (view d) = Ready 0) (\<lambda>d. v_regs (view d))"
  unfolding register_bus_def by (meson spi_poke16 spi_peek16)


text \<open>A device that refuses every command once and answers at the third look.\<close>

definition slow_command :: "u32 \<Rightarrow> spi_view \<Rightarrow> spi_view" where
  "slow_command c v = (case v_open v of
     None \<Rightarrow> v\<lparr>v_open := Some (c, 0), v_phase := Answering 2 0\<rparr>
   | Some (cur, k) \<Rightarrow>
       if 0 < k then v\<lparr>v_open := Some (cur, k - 1), v_phase := Answering 2 0\<rparr>
       else if is_write cur
       then v\<lparr>v_open := None, v_regs := (v_regs v)(fpga_address (v_latch v) cur := ucast (drop_bit 3 cur)), v_phase := Answering 2 1\<rparr>
       else v\<lparr>v_open := None, v_phase := Answering 2 (0x10000 OR ucast (v_regs v (fpga_address (v_latch v) cur)))\<rparr>)"

definition slow_mmio :: "fpga_io \<Rightarrow> spi_view mmio" where
  "slow_mmio io = \<lparr>
     mrd = (\<lambda>a v. if a = spi_register io + 0x64 then (case v_phase v of
           Ready 0 \<Rightarrow> (0, v) | Ready (Suc n) \<Rightarrow> (1, v\<lparr>v_phase := Ready n\<rparr>)
         | Answering 0 r \<Rightarrow> (1, v) | Answering (Suc n) r \<Rightarrow> (0, v\<lparr>v_phase := Answering n r\<rparr>))
        else (case v_phase v of Answering n r \<Rightarrow> (r, v\<lparr>v_phase := Ready 0\<rparr>) | Ready n \<Rightarrow> (0, v))),
     mwr = (\<lambda>a c v. if a = gpio_a_new_mem io then v\<lparr>v_latch := c\<rparr> else slow_command c v)\<rparr>"

lemma slow_answer: "spi_answer v c (slow_command c v)"
proof -
  let ?w = "ucast (v_regs v (fpga_address (v_latch v) cur)) :: u32"
  have r: "ucast (0x10000 OR ucast x :: u32) = x" "bit (0x10000 OR ucast x :: u32) 16" for x :: u16
  proof -
    show "ucast (0x10000 OR ucast x :: u32) = x"
      by (rule bit_word_eqI, unfold command_bits) (auto dest: bit_imp_le_length)
    show "bit (0x10000 OR ucast x :: u32) 16" by (simp only: command_bits) simp
  qed
  show ?thesis
  proof (cases "v_open v")
    case None
    then show ?thesis unfolding spi_answer_def slow_command_def by (auto intro!: exI [of _ "Suc 0"])
  next
    case (Some ck)
    then show ?thesis unfolding spi_answer_def slow_command_def by (cases ck) (auto simp: r)
  qed
qed

lemma slow_device: "io_distinct io \<Longrightarrow> spi_device (slow_mmio io) io id"
  by (auto simp: spi_device_def slow_mmio_def io_distinct_def slow_answer split: spi_phase.splits nat.splits)


lemma driver_addresses [simp]:
  "reg_address 0x40" "reg_address 0x6a" "reg_address 0x6c" "reg_address 0x4A" "reg_address 0x4C" "reg_address WATCHDOG_FPGA_ADDRESS"
  by (simp_all add: reg_address_def WATCHDOG_FPGA_ADDRESS_def)

text \<open>\<^verbatim>\<open>write_dio26\<close> returns with the multiplexer pin (bit 5 of register 0x6a) at the
  value asked for and the pin an output (bit 5 of register 0x6c set), every other bit of
  the two registers and every other register unchanged.\<close>

theorem write_dio26_sets_the_pin:
  assumes "register_bus hw io ok reg" "ok d"
  shows "\<exists>d'. write_dio26 hw io b d = Some d' \<and> ok d' \<and>
    (\<forall>n < 16. bit (reg d' 0x6a) n = (if n = 5 then b else bit (reg d 0x6a) n)) \<and>
    (\<forall>n < 16. bit (reg d' 0x6c) n = (n = 5 \<or> bit (reg d 0x6c) n)) \<and>
    (\<forall>a. a \<noteq> 0x6a \<and> a \<noteq> 0x6c \<longrightarrow> reg d' a = reg d a)"
proof -
  let ?v = "if b then reg d 0x6a OR push_bit 5 1 else reg d 0x6a AND NOT (push_bit 5 1)"
  obtain d1 where 1: "peek16 hw io 0x6a d = Some (reg d 0x6a, d1)" "ok d1" "reg d1 = reg d"
    using bus_peek [OF assms, of "0x6a"] by auto
  obtain d2 where 2: "poke16 hw io 0x6a ?v d1 = Some d2" "ok d2" "reg d2 = (reg d1)(0x6a := ?v)"
    using bus_poke [OF assms(1) 1(2), of "0x6a" ?v] by auto
  obtain d3 where 3: "peek16 hw io 0x6c d2 = Some (reg d2 0x6c, d3)" "ok d3" "reg d3 = reg d2"
    using bus_peek [OF assms(1) 2(2), of "0x6c"] by auto
  obtain d4 where 4: "poke16 hw io 0x6c (reg d2 0x6c OR push_bit 5 1) d3 = Some d4" "ok d4"
      "reg d4 = (reg d3)(0x6c := reg d2 0x6c OR push_bit 5 1)"
    using bus_poke [OF assms(1) 3(2), of "0x6c"] by auto
  have bits: "bit (?v :: u16) n = (if n = 5 then b else bit (reg d 0x6a) n)" if "n < 16" for n
    using that by (auto simp: bit_or_iff bit_and_iff bit_not_iff bit_push_bit_iff bit_1_iff
        simp del: push_bit_of_1)
  have bits': "bit (w OR push_bit 5 1) n = (n = 5 \<or> bit w n)" if "n < 16" for n and w :: u16
    using that by (auto simp: bit_or_iff bit_push_bit_iff bit_1_iff simp del: push_bit_of_1)
  have "write_dio26 hw io b d = Some d4"
    using 1 2 3 4 by (simp add: write_dio26_def)
  moreover have "reg d4 0x6a = ?v" "reg d4 0x6c = reg d 0x6c OR push_bit 5 1"
    using 1 2 3 4 by simp_all
  moreover have "\<forall>a. a \<noteq> 0x6a \<and> a \<noteq> 0x6c \<longrightarrow> reg d4 a = reg d a"
    using 1 2 3 4 by simp
  moreover have "\<forall>n < 16. bit ?v n = (if n = 5 then b else bit (reg d 0x6a) n)"
    using bits by blast
  moreover have "\<forall>n < 16. bit (reg d 0x6c OR push_bit 5 1) n = (n = 5 \<or> bit (reg d 0x6c) n)"
    using bits' by blast
  ultimately show ?thesis using 4(2) by (intro exI [of _ d4]) (simp only: simp_thms)
qed

theorem write_dio26_sets_the_pin_witness:
  "\<exists>d'. write_dio26 (sim_mmio board_io) board_io True sim0 = Some d' \<and> bit (sim_regs d' 0x6a) 5
    \<and> bit (sim_regs d' 0x6c) 5 \<and> \<not> bit (sim_regs d' 0x6a) 4"
proof -
  obtain d' where "write_dio26 (sim_mmio board_io) board_io True sim0 = Some d'"
    and "\<forall>n < 16. bit (sim_regs d' 0x6a) n = (if n = 5 then True else bit (sim_regs sim0 0x6a) n)"
    and "\<forall>n < 16. bit (sim_regs d' 0x6c) n = (n = 5 \<or> bit (sim_regs sim0 0x6c) n)"
    using write_dio26_sets_the_pin [OF sim_register_bus, of board_io sim0 True] by (auto simp: sim0_def)
  then show ?thesis by (simp add: sim0_def)
qed

text \<open>\<^verbatim>\<open>set_lun_speed_edge\<close> leaves the control register R0 with the rising edge, chip
  select 2 and the slowest clock selected, keeps the other bits of R0 and every other
  register.\<close>

theorem set_lun_speed_edge_configures:
  assumes "register_bus hw io ok reg" "ok d"
  shows "\<exists>d'. set_lun_speed_edge hw io d = Some d' \<and> ok d' \<and>
    reg d' = (reg d)(0x40 := (reg d 0x40 AND NOT 0x700) OR 0x7E00)"
proof -
  let ?c = "ucast (reg d 0x40) :: u32"
  let ?v1 = "ucast (?c OR EDGE_MASK) :: u16"
  let ?v2 = "ucast ((?c AND NOT LUN_CS_ERASE_MASK) OR (EDGE_MASK OR LUN_CS_BIT_MASK OR push_bit SPEED_SHIFT 15)) :: u16"
  obtain d1 where 1: "peek16 hw io 0x40 d = Some (reg d 0x40, d1)" "ok d1" "reg d1 = reg d"
    using bus_peek [OF assms, of "0x40"] by auto
  obtain d2 where 2: "poke16 hw io 0x40 ?v1 d1 = Some d2" "ok d2" "reg d2 = (reg d1)(0x40 := ?v1)"
    using bus_poke [OF assms(1) 1(2), of "0x40" ?v1] by auto
  obtain d3 where 3: "poke16 hw io 0x40 ?v2 d2 = Some d3" "ok d3" "reg d3 = (reg d2)(0x40 := ?v2)"
    using bus_poke [OF assms(1) 2(2), of "0x40" ?v2] by auto
  have m: "EDGE_MASK OR LUN_CS_BIT_MASK OR push_bit SPEED_SHIFT 15 = 0x7E00"
    by (simp add: EDGE_MASK_def LUN_CS_BIT_MASK_def SPEED_SHIFT_def)
  have "?v2 = (reg d 0x40 AND NOT 0x700) OR 0x7E00"
  proof -
    have "(0x700 :: u32) = push_bit 8 (mask 3)" "(0x700 :: u16) = push_bit 8 (mask 3)"
      "(0x7E00 :: u32) = push_bit 9 (mask 6)" "(0x7E00 :: u16) = push_bit 9 (mask 6)"
      by (simp_all add: mask_eq_exp_minus_1)
    then show ?thesis
      unfolding m LUN_CS_ERASE_MASK_def
      by (simp only:) (rule bit_word_eqI, unfold command_bits bit_mask_iff, auto dest: bit_imp_le_length)
  qed
  moreover have "set_lun_speed_edge hw io d = Some d3"
    using 1 2 3 by (simp add: set_lun_speed_edge_def getR0_def setR0_def Let_def or.assoc)
  ultimately show ?thesis using 1 2 3 by (intro exI [of _ d3]) simp
qed

theorem set_lun_speed_edge_configures_witness:
  "\<exists>d'. set_lun_speed_edge (sim_mmio board_io) board_io sim0 = Some d' \<and> sim_regs d' 0x40 = 0x7E00"
  using set_lun_speed_edge_configures [OF sim_register_bus, of board_io sim0] by (auto simp: sim0_def)

text \<open>The bytes of the four channels are the six words, high byte first.\<close>

lemma pair_bytes:
  fixes a b :: u16
  shows "word_bytes 4 (push_bit 16 (ucast a) OR ucast b :: u32)
    = [ucast b, ucast (drop_bit 8 b), ucast a, ucast (drop_bit 8 a)]"
proof -
  let ?t = "push_bit 16 (ucast a) OR ucast b :: u32"
  have "ucast ?t = (ucast b :: u8)" "ucast (drop_bit 8 ?t) = (ucast (drop_bit 8 b) :: u8)"
    "ucast (drop_bit 16 ?t) = (ucast a :: u8)" "ucast (drop_bit 24 ?t) = (ucast (drop_bit 8 a) :: u8)"
    by (rule bit_word_eqI, unfold command_bits, auto dest: bit_imp_le_length)+
  then show ?thesis by (simp del: drop_bit_or)
qed

lemma channel_bytes_value:
  "channel_bytes a b c d e f = concat (map (\<lambda>w. [ucast (drop_bit 8 w), ucast w]) [a, b, c, d, e, f])"
  by (simp add: channel_bytes_def Let_def pair_bytes del: word_bytes_numeral)

lemma words_of_bytes_bytes:
  assumes "length bs = 12"
  shows "concat (map (word_bytes 4) (words_of_bytes bs)) = bs"
proof -
  have "take 4 bs @ take 4 (drop 4 bs) @ take 4 (drop 8 bs) = bs"
  proof -
    have "drop 8 bs = drop 4 (drop 4 bs)" "take 4 (drop 8 bs) = drop 8 bs"
      using assms by simp_all
    then show ?thesis by (metis append_take_drop_id)
  qed
  then show ?thesis
    using assms by (simp add: words_of_bytes_def wire del: word_bytes_numeral)
qed

end
