(* ===== verification/Int_Module.thy ===== *)
theory Int_Module
  imports Fpga Circ_Buffer "HOL-Library.Multiset"
begin

text \<open>
  The interruption module: src/interruption/int.c with the addresses of mem_addr.h.
  The state holds the counters of the module, the time kept by the patched kernel
  (\<^verbatim>\<open>__miavita_elapsed_secs\<close>, \<^verbatim>\<open>__miavita_elapsed_usecs\<close>, 64-bit counters), the sample ring
  and the device. The wall clock is an argument of each handler, the pair
  \<^verbatim>\<open>do_gettimeofday\<close> returns.
\<close>

section \<open>Addresses\<close>

definition MISC_REGISTER :: u32 where "MISC_REGISTER = 0x76000000"
definition GPIOA_EN_ADDRESS :: u32 where "GPIOA_EN_ADDRESS = MISC_REGISTER + 0x20"
definition GPIO_DATA_INPUT :: u32 where "GPIO_DATA_INPUT = GPIOA_REGISTER + 0x04"
definition PIN_DIR_ADDRESS :: u32 where "PIN_DIR_ADDRESS = GPIOA_REGISTER + 0x08"
definition INTRENABLE_ADDRESS :: u32 where "INTRENABLE_ADDRESS = GPIOA_REGISTER + 0x20"
definition GPIO_INT_STATUS :: u32 where "GPIO_INT_STATUS = GPIOA_REGISTER + 0x28"
definition INTRMASK_ADDRESS :: u32 where "INTRMASK_ADDRESS = GPIOA_REGISTER + 0x2C"
definition GPIO_INT_CLEAR :: u32 where "GPIO_INT_CLEAR = GPIOA_REGISTER + 0x30"
definition INTRTRIGGER_ADDRESS :: u32 where "INTRTRIGGER_ADDRESS = GPIOA_REGISTER + 0x34"
definition INTRBOTH_ADDRESS :: u32 where "INTRBOTH_ADDRESS = GPIOA_REGISTER + 0x38"
definition INTRRISE_ADDRESS :: u32 where "INTRRISE_ADDRESS = GPIOA_REGISTER + 0x3C"
definition VIC :: u32 where "VIC = 0xFFFFF000"
definition INT_STATUS_ADDRESS :: u32 where "INT_STATUS_ADDRESS = VIC + 0x00"
definition INT_MASK_ADDRESS :: u32 where "INT_MASK_ADDRESS = VIC + 0x08"
definition INT_MASK_CLEAR_ADDRESS :: u32 where "INT_MASK_CLEAR_ADDRESS = VIC + 0x0C"
definition INT_TRIGGER_MODE :: u32 where "INT_TRIGGER_MODE = VIC + 0x10"
definition INT_TRIGGER_LEVEL :: u32 where "INT_TRIGGER_LEVEL = VIC + 0x14"
definition FIQ_SELECT_ADDRESS :: u32 where "FIQ_SELECT_ADDRESS = VIC + 0x18"
definition IRQ_STATUS :: u32 where "IRQ_STATUS = VIC + 0x1C"
definition IRQ_PRIOTITY :: u32 where "IRQ_PRIOTITY = VIC + 0xC0"
definition VIC_CONTROL :: u32 where "VIC_CONTROL = VIC + 0x144"
definition SOFT_INT_REGISTER :: u32 where "SOFT_INT_REGISTER = VIC + 0x24"
definition WORD_SIZE :: u32 where "WORD_SIZE = 4"

definition SCL_MASK :: u32 where "SCL_MASK = push_bit 14 1"
definition SDA_MASK :: u32 where "SDA_MASK = push_bit 13 1"
definition GPIOA_EN_MASK :: u32 where "GPIOA_EN_MASK = SCL_MASK OR SDA_MASK"

lemmas io_address_defs = MISC_REGISTER_def GPIOA_REGISTER_def SPI_REGISTER_def VIC_def GPIOA_EN_ADDRESS_def
  GPIO_DATA_INPUT_def PIN_DIR_ADDRESS_def INTRENABLE_ADDRESS_def GPIO_INT_STATUS_def INTRMASK_ADDRESS_def
  GPIO_INT_CLEAR_def INTRTRIGGER_ADDRESS_def INTRBOTH_ADDRESS_def INTRRISE_ADDRESS_def INT_STATUS_ADDRESS_def
  INT_MASK_ADDRESS_def INT_MASK_CLEAR_ADDRESS_def INT_TRIGGER_MODE_def INT_TRIGGER_LEVEL_def
  FIQ_SELECT_ADDRESS_def IRQ_STATUS_def IRQ_PRIOTITY_def VIC_CONTROL_def SOFT_INT_REGISTER_def WORD_SIZE_def

section \<open>State\<close>

text \<open>The \<^verbatim>\<open>..._new_address\<close> variables are one map from the physical address of a register
  to the address it was remapped to.\<close>

record 'd int_state =
  i_dev :: 'd
  i_io :: fpga_io
  new_address :: "u32 \<Rightarrow> u32"
  counter_sda :: u32
  counter_scl :: u32
  counter_seconds :: u32
  counter :: u32
  mux_state :: u16
  sec_in_pps :: u32
  usec_in_pps :: u32
  elapsed_secs :: u64
  elapsed_usecs :: u64
  i_ring :: circ_state

section \<open>Configuration\<close>

definition request_mem :: "(u32 \<Rightarrow> u32 \<Rightarrow> bool) \<Rightarrow> (u32 \<Rightarrow> u32 \<Rightarrow> u32) \<Rightarrow> u32 \<Rightarrow> u32 \<Rightarrow> u32" where
  "request_mem request_mem_region ioremap mem_addr sz =
     (if \<not> request_mem_region mem_addr sz then - 19 else ioremap mem_addr sz)"

definition request_port :: "(u32 \<Rightarrow> u32 \<Rightarrow> bool) \<Rightarrow> u32 \<Rightarrow> u32 \<Rightarrow> u32" where
  "request_port request_region port_addr sz = (if \<not> request_region port_addr sz then - 19 else 0)"

definition int_regions :: "(u32 \<times> u32) list" where
  "int_regions =
     [(GPIOA_EN_ADDRESS, WORD_SIZE), (PIN_DIR_ADDRESS, WORD_SIZE), (INTRENABLE_ADDRESS, WORD_SIZE),
      (INTRMASK_ADDRESS, WORD_SIZE), (INT_STATUS_ADDRESS, WORD_SIZE), (INT_MASK_ADDRESS, WORD_SIZE),
      (INTRTRIGGER_ADDRESS, WORD_SIZE), (INTRBOTH_ADDRESS, WORD_SIZE), (INTRRISE_ADDRESS, WORD_SIZE),
      (INT_MASK_CLEAR_ADDRESS, WORD_SIZE), (IRQ_STATUS, WORD_SIZE), (FIQ_SELECT_ADDRESS, WORD_SIZE),
      (INT_TRIGGER_MODE, WORD_SIZE), (INT_TRIGGER_LEVEL, WORD_SIZE), (IRQ_PRIOTITY, WORD_SIZE * 32),
      (VIC_CONTROL, WORD_SIZE), (SOFT_INT_REGISTER, WORD_SIZE), (GPIO_DATA_INPUT, WORD_SIZE),
      (GPIO_INT_CLEAR, WORD_SIZE), (GPIO_INT_STATUS, WORD_SIZE)]"

definition request_memory_regions ::
  "(u32 \<Rightarrow> u32 \<Rightarrow> bool) \<Rightarrow> (u32 \<Rightarrow> u32 \<Rightarrow> u32) \<Rightarrow> 'd int_state \<Rightarrow> 'd int_state" where
  "request_memory_regions rmr remap st =
     foldl (\<lambda>st (a, n). st\<lparr>new_address := (new_address st)(a := request_mem rmr remap a n)\<rparr>) st int_regions"

definition reserve_memory ::
  "(u32 \<Rightarrow> u32 \<Rightarrow> bool) \<Rightarrow> (u32 \<Rightarrow> u32 \<Rightarrow> u32) \<Rightarrow> 'd int_state \<Rightarrow> 'd int_state" where
  "reserve_memory rmr remap st = st\<lparr>i_io := \<lparr>
     gpio_a_new_mem = request_mem rmr remap GPIOA_REGISTER WORD_SIZE,
     spi_register = request_mem rmr remap SPI_REGISTER (0x6C + WORD_SIZE)\<rparr>\<rparr>"

definition prepare_spi ::
  "(u32 \<Rightarrow> u32 \<Rightarrow> bool) \<Rightarrow> (u32 \<Rightarrow> u32 \<Rightarrow> u32) \<Rightarrow> 'd int_state \<Rightarrow> 'd int_state" where
  "prepare_spi = reserve_memory"

text \<open>The kernel calls that give resources back, in order.\<close>

datatype kcall = Free_irq u32 | Iounmap u32 | Release_mem_region u32 u32

definition release_mem :: "u32 \<Rightarrow> u32 \<Rightarrow> kcall list" where
  "release_mem mem_addr byte_size = [Iounmap mem_addr, Release_mem_region mem_addr byte_size]"

definition unregister_memory_region :: "kcall list" where
  "unregister_memory_region = concat (map (\<lambda>(a, n). release_mem a n)
     [(GPIOA_EN_ADDRESS, WORD_SIZE), (PIN_DIR_ADDRESS, WORD_SIZE), (INTRENABLE_ADDRESS, WORD_SIZE),
      (INTRMASK_ADDRESS, WORD_SIZE), (INTRTRIGGER_ADDRESS, WORD_SIZE), (INTRBOTH_ADDRESS, WORD_SIZE),
      (INTRRISE_ADDRESS, WORD_SIZE), (INT_STATUS_ADDRESS, WORD_SIZE), (INT_MASK_ADDRESS, WORD_SIZE),
      (INT_MASK_CLEAR_ADDRESS, WORD_SIZE), (FIQ_SELECT_ADDRESS, WORD_SIZE), (IRQ_STATUS, WORD_SIZE),
      (INT_TRIGGER_MODE, WORD_SIZE), (INT_TRIGGER_LEVEL, WORD_SIZE), (IRQ_PRIOTITY, WORD_SIZE * 32),
      (VIC_CONTROL, WORD_SIZE), (SOFT_INT_REGISTER, WORD_SIZE), (GPIO_DATA_INPUT, WORD_SIZE),
      (GPIO_INT_CLEAR, WORD_SIZE), (GPIO_INT_STATUS, WORD_SIZE)])"

definition release_mem_spi :: "kcall list" where
  "release_mem_spi = release_mem GPIOA_REGISTER WORD_SIZE @ release_mem SPI_REGISTER (0x6C + WORD_SIZE)"

definition unregister_handle_interruption :: "kcall list" where
  "unregister_handle_interruption = [Free_irq 4]"

definition cleanup :: "kcall list" where
  "cleanup = unregister_handle_interruption @ unregister_memory_region @ release_mem_spi"

text \<open>\<^verbatim>\<open>*p = f( *p)\<close> on a remapped register.\<close>

definition rmw :: "'d mmio \<Rightarrow> u32 \<Rightarrow> (u32 \<Rightarrow> u32) \<Rightarrow> 'd int_state \<Rightarrow> 'd int_state" where
  "rmw hw a f st = (case mrd hw (new_address st a) (i_dev st) of (v, d) \<Rightarrow>
     st\<lparr>i_dev := mwr hw (new_address st a) (f v) d\<rparr>)"

definition enable_gpio_interruptions :: "'d mmio \<Rightarrow> 'd int_state \<Rightarrow> 'd int_state" where
  "enable_gpio_interruptions hw st = (
     let st = rmw hw PIN_DIR_ADDRESS (\<lambda>v. v AND NOT GPIOA_EN_MASK) st;
         st = rmw hw INTRMASK_ADDRESS (\<lambda>v. v AND NOT GPIOA_EN_MASK) st;
         st = rmw hw INTRTRIGGER_ADDRESS (\<lambda>v. v AND NOT GPIOA_EN_MASK) st;
         st = rmw hw INTRBOTH_ADDRESS (\<lambda>v. v AND NOT GPIOA_EN_MASK) st;
         st = rmw hw INTRRISE_ADDRESS (\<lambda>v. v AND NOT GPIOA_EN_MASK) st;
         st = rmw hw INTRENABLE_ADDRESS (\<lambda>v. v OR GPIOA_EN_MASK) st
     in rmw hw GPIOA_EN_ADDRESS (\<lambda>v. v AND NOT GPIOA_EN_MASK) st)"

text \<open>\<^verbatim>\<open>request_irq\<close> only prints its failure, so \<^verbatim>\<open>register_handle_interruption\<close> changes nothing
  in the model.\<close>

definition init :: "'d mmio \<Rightarrow> (u32 \<Rightarrow> u32 \<Rightarrow> bool) \<Rightarrow> (u32 \<Rightarrow> u32 \<Rightarrow> u32) \<Rightarrow> bool \<Rightarrow> 'd int_state
    \<Rightarrow> 'd int_state option" where
  "init hw rmr remap entry_created st = (
     let st = prepare_spi rmr remap st;
         st = request_memory_regions rmr remap st
     in map_option (\<lambda>d.
       let st = enable_gpio_interruptions hw (st\<lparr>i_dev := d\<rparr>)
       in st\<lparr>i_ring := snd (create_proc_file entry_created (i_ring st))\<rparr>)
     (prepare_spi2 hw (i_io st) (i_dev st)))"

section \<open>The interrupt handlers\<close>

definition is_fpga_used :: "'d mmio \<Rightarrow> 'd int_state \<Rightarrow> bool \<times> 'd int_state" where
  "is_fpga_used hw st = (case mrd hw (new_address st INTRTRIGGER_ADDRESS) (i_dev st) of (v, d) \<Rightarrow>
     (v AND 1 \<noteq> 0, st\<lparr>i_dev := mwr hw (new_address st INTRTRIGGER_ADDRESS) (v AND 1) d\<rparr>))"

definition handle_gps_int :: "'d mmio \<Rightarrow> u32 \<times> u32 \<Rightarrow> 'd int_state \<Rightarrow> 'd int_state option" where
  "handle_gps_int hw t st = (
     let st = st\<lparr>sec_in_pps := fst t, usec_in_pps := snd t, counter_seconds := counter_seconds st + 1,
                elapsed_usecs := 0, elapsed_secs := elapsed_secs st + 1, counter_scl := 0\<rparr>
     in case is_fpga_used hw st of (used, st) \<Rightarrow>
       if used then Some st
       else do {
         d \<leftarrow> write_dio26 hw (i_io st) False (i_dev st);
         d \<leftarrow> write_watchdog hw (i_io st) d;
         Some (st\<lparr>mux_state := 0, i_dev := d\<rparr>)
       })"

text \<open>\<^verbatim>\<open>__kernel_time_t\<close> and \<^verbatim>\<open>__kernel_suseconds_t\<close> are 32-bit signed; the result is converted to
  \<^verbatim>\<open>uint64_t\<close> with sign extension.\<close>

definition calculate_usecs :: "u32 \<Rightarrow> u32 \<Rightarrow> u32 \<Rightarrow> u32 \<Rightarrow> u64" where
  "calculate_usecs current_sec current_usec base_sec base_usec =
     (if base_sec = current_sec then scast (current_usec - base_usec)
      else if base_sec + 1 = current_sec then scast (1000000 - base_usec + current_usec)
      else 0)"

definition handle_adc_int :: "'d mmio \<Rightarrow> u32 \<times> u32 \<Rightarrow> 'd int_state \<Rightarrow> 'd int_state option" where
  "handle_adc_int hw t st = (case is_fpga_used hw st of (fpga_busy, st) \<Rightarrow>
     let st = st\<lparr>elapsed_usecs := calculate_usecs (fst t) (snd t) (sec_in_pps st) (usec_in_pps st)\<rparr>;
         st = st\<lparr>counter := counter st + 1\<rparr>
     in if fpga_busy then Some st
       else do {
         st \<leftarrow> (if mux_state st = 0
                then map_option (\<lambda>d. st\<lparr>i_dev := d, mux_state := 1\<rparr>) (write_dio26 hw (i_io st) True (i_dev st))
                else Some st);
         (value_buffer, d) \<leftarrow> read_four_channels hw (i_io st) (i_dev st);
         let timestamp = elapsed_secs st * 1000000 + elapsed_usecs st;
         Some (st\<lparr>i_dev := d, i_ring := write_to_buffer value_buffer timestamp (counter st) (i_ring st)\<rparr>)
       })"

text \<open>The status register is read once more when the ADC is not the source.\<close>

definition interrupt :: "'d mmio \<Rightarrow> u32 \<times> u32 \<Rightarrow> 'd int_state \<Rightarrow> 'd int_state option" where
  "interrupt hw t st = do {
     let st = rmw hw INTRENABLE_ADDRESS (\<lambda>v. v AND NOT GPIOA_EN_MASK) st;
     let (v, d) = mrd hw (new_address st GPIO_INT_STATUS) (i_dev st);
     let st = st\<lparr>i_dev := d\<rparr>;
     st \<leftarrow> (if SCL_MASK AND v \<noteq> 0
            then handle_adc_int hw t (st\<lparr>counter_scl := counter_scl st + 1\<rparr>)
            else case mrd hw (new_address st GPIO_INT_STATUS) (i_dev st) of (v, d) \<Rightarrow>
              if SDA_MASK AND v \<noteq> 0
              then handle_gps_int hw t (st\<lparr>i_dev := d, counter_sda := counter_sda st + 1\<rparr>)
              else Some (st\<lparr>i_dev := d\<rparr>));
     let st = rmw hw GPIO_INT_CLEAR (\<lambda>v. v OR GPIOA_EN_MASK) st;
     Some (rmw hw INTRENABLE_ADDRESS (\<lambda>v. v OR GPIOA_EN_MASK) st)
   }"

section \<open>Time since the last pulse\<close>

text \<open>A reading of the wall clock in microseconds.\<close>

definition usecs_of :: "u32 \<times> u32 \<Rightarrow> int" where
  "usecs_of t = sint (fst t) * 1000000 + sint (snd t)"

definition timeval_ok :: "u32 \<times> u32 \<Rightarrow> bool" where
  "timeval_ok t \<longleftrightarrow> 0 \<le> sint (fst t) \<and> 0 \<le> sint (snd t) \<and> sint (snd t) < 1000000"

lemma sint_u32_of:
  "- (2 ^ 31) \<le> i \<Longrightarrow> i < 2 ^ 31 \<Longrightarrow> sint (word_of_int i :: u32) = i"
  by (simp add: sint_sbintrunc' signed_take_bit_int_eq_self)

lemma scast_nonneg: "0 \<le> sint (w :: u32) \<Longrightarrow> uint (scast w :: u64) = sint w"
proof -
  assume "0 \<le> sint w"
  moreover have "sint w < 2 ^ 31" using sint_less [of w] by simp
  ultimately show ?thesis
    by (simp only: scast_eq uint_word_of_int) simp
qed

lemma sint_sub:
  "0 \<le> sint x \<Longrightarrow> 0 \<le> sint y \<Longrightarrow> sint (x - y :: u32) = sint x - sint y"
proof -
  assume "0 \<le> sint x" "0 \<le> sint y"
  then have "sint (word_of_int (sint x - sint y) :: u32) = sint x - sint y"
    using sint_less [of x] sint_less [of y] by (intro sint_u32_of) simp_all
  then show ?thesis by simp
qed

lemma sint_million: "0 \<le> sint x \<Longrightarrow> sint x < 1000000 \<Longrightarrow> 0 \<le> sint y \<Longrightarrow> sint y < 1000000
    \<Longrightarrow> sint (1000000 - x + y :: u32) = 1000000 - sint x + sint y"
proof -
  assume "0 \<le> sint x" "sint x < 1000000" "0 \<le> sint y" "sint y < 1000000"
  then have "sint (word_of_int (1000000 - sint x + sint y) :: u32) = 1000000 - sint x + sint y"
    by (intro sint_u32_of) simp_all
  then show ?thesis by simp
qed

lemma sint_succ: "sint (x :: u32) + 1 = sint y \<Longrightarrow> x + 1 = y"
proof -
  assume "sint x + 1 = sint y"
  then have "(word_of_int (sint x + 1) :: u32) = word_of_int (sint y)" by simp
  then show ?thesis by simp
qed

lemma calculate_usecs_elapsed:
  assumes "timeval_ok c" "timeval_ok b" "usecs_of b \<le> usecs_of c" "sint (fst c) \<le> sint (fst b) + 1"
  shows "uint (calculate_usecs (fst c) (snd c) (fst b) (snd b)) = usecs_of c - usecs_of b"
proof (cases "fst b = fst c")
  case True
  then have "sint (snd b) \<le> sint (snd c)"
    using assms by (simp add: usecs_of_def)
  with True assms show ?thesis
    by (simp add: calculate_usecs_def usecs_of_def timeval_ok_def scast_nonneg sint_sub)
next
  case False
  then have "sint (fst b) \<noteq> sint (fst c)" using signed_word_eqI by blast
  then have succ: "sint (fst b) + 1 = sint (fst c)"
    using assms by (auto simp: usecs_of_def timeval_ok_def)
  then have "fst b + 1 = fst c" by (rule sint_succ)
  with False succ assms show ?thesis
    by (simp add: calculate_usecs_def usecs_of_def timeval_ok_def scast_nonneg sint_million flip: succ)
qed

section \<open>What a handler leaves behind\<close>

lemma is_fpga_used_state:
  "is_fpga_used hw st = (used, st') \<Longrightarrow> \<exists>d. st' = st\<lparr>i_dev := d\<rparr>"
  by (auto simp: is_fpga_used_def split: prod.splits)

lemma rmw_state: "\<exists>d. rmw hw a f st = st\<lparr>i_dev := d\<rparr>"
  by (auto simp: rmw_def split: prod.splits)

lemma rmw_rmw_state: "\<exists>d. rmw hw a f (rmw hw b g s) = s\<lparr>i_dev := d\<rparr>"
proof -
  obtain d where "rmw hw b g s = s\<lparr>i_dev := d\<rparr>"
    using rmw_state [of hw b g s] by blast
  moreover obtain d' where "rmw hw a f (s\<lparr>i_dev := d\<rparr>) = s\<lparr>i_dev := d, i_dev := d'\<rparr>"
    using rmw_state [of hw a f "s\<lparr>i_dev := d\<rparr>"] by blast
  ultimately show ?thesis by auto
qed

definition adc_timestamp :: "u32 \<times> u32 \<Rightarrow> 'd int_state \<Rightarrow> u64" where
  "adc_timestamp t st =
     elapsed_secs st * 1000000 + calculate_usecs (fst t) (snd t) (sec_in_pps st) (usec_in_pps st)"

lemma handle_adc_int_cases:
  assumes "handle_adc_int hw t st = Some st'"
  shows "counter st' = counter st + 1" "elapsed_secs st' = elapsed_secs st"
    "counter_sda st' = counter_sda st" "counter_seconds st' = counter_seconds st"
    "i_ring st' = i_ring st \<or>
     (\<exists>v. i_ring st' = write_to_buffer v (adc_timestamp t st) (counter st + 1) (i_ring st))"
proof -
  obtain used st1 where u: "is_fpga_used hw st = (used, st1)" by fastforce
  then obtain d where st1: "st1 = st\<lparr>i_dev := d\<rparr>" using is_fpga_used_state by blast
  show "counter st' = counter st + 1" "elapsed_secs st' = elapsed_secs st"
    "counter_sda st' = counter_sda st" "counter_seconds st' = counter_seconds st"
    "i_ring st' = i_ring st \<or>
     (\<exists>v. i_ring st' = write_to_buffer v (adc_timestamp t st) (counter st + 1) (i_ring st))"
    using assms
    by (auto simp: handle_adc_int_def u st1 Let_def adc_timestamp_def split: if_splits bind_splits)
qed

lemma handle_gps_int_cases:
  assumes "handle_gps_int hw t st = Some st'"
  shows "elapsed_secs st' = elapsed_secs st + 1" "elapsed_usecs st' = 0" "sec_in_pps st' = fst t"
    "usec_in_pps st' = snd t" "i_ring st' = i_ring st" "counter st' = counter st"
    "counter_seconds st' = counter_seconds st + 1" "counter_scl st' = 0"
proof -
  let ?st = "st\<lparr>sec_in_pps := fst t, usec_in_pps := snd t, counter_seconds := counter_seconds st + 1,
                elapsed_usecs := 0, elapsed_secs := elapsed_secs st + 1, counter_scl := 0\<rparr>"
  obtain used st1 where u: "is_fpga_used hw ?st = (used, st1)" by fastforce
  then obtain d where st1: "st1 = ?st\<lparr>i_dev := d\<rparr>" using is_fpga_used_state by blast
  show "elapsed_secs st' = elapsed_secs st + 1" "elapsed_usecs st' = 0" "sec_in_pps st' = fst t"
    "usec_in_pps st' = snd t" "i_ring st' = i_ring st" "counter st' = counter st"
    "counter_seconds st' = counter_seconds st + 1" "counter_scl st' = 0"
    using assms by (auto simp: handle_gps_int_def Let_def u st1 split: if_splits bind_splits)
qed

section \<open>Runs of interrupts\<close>

text \<open>Whether the status register shows the ADC when the handler reads it.\<close>

definition adc_pending :: "'d mmio \<Rightarrow> 'd int_state \<Rightarrow> bool" where
  "adc_pending hw st \<longleftrightarrow> SCL_MASK AND fst (mrd hw (new_address st GPIO_INT_STATUS)
     (i_dev (rmw hw INTRENABLE_ADDRESS (\<lambda>v. v AND NOT GPIOA_EN_MASK) st))) \<noteq> 0"

text \<open>A run of interrupts from one state to another, with what each one was: an ADC interrupt whose sample was stored in the ring, one
  whose sample was not, or another interrupt.\<close>

datatype irq = Adc_stored sample_t | Adc_lost | Other

definition irq_kind :: "'d mmio \<Rightarrow> 'd int_state \<Rightarrow> 'd int_state \<Rightarrow> irq" where
  "irq_kind hw st st' = (if \<not> adc_pending hw st then Other
     else if i_ring st' = i_ring st then Adc_lost
     else Adc_stored (CIRC_BUFFER (i_ring st') ! unat (last_write (i_ring st'))))"

inductive irq_run :: "'d mmio \<Rightarrow> 'd int_state \<Rightarrow> irq list \<Rightarrow> 'd int_state \<Rightarrow> bool" for hw where
  idle: "irq_run hw st [] st"
| irq: "irq_run hw st is st1 \<Longrightarrow> interrupt hw t st1 = Some st2 \<Longrightarrow> irq_run hw st (is @ [irq_kind hw st1 st2]) st2"

text \<open>The number of ADC interrupts, the stored samples, and the numbers these should have when the counter is \<^verbatim>\<open>n\<close>.\<close>

definition adc_count :: "irq list \<Rightarrow> nat" where
  "adc_count is = length (filter (\<lambda>i. i \<noteq> Other) is)"

fun stored_samples :: "irq list \<Rightarrow> sample_t list" where
  "stored_samples [] = []"
| "stored_samples (Adc_stored s # is) = s # stored_samples is"
| "stored_samples (i # is) = stored_samples is"

fun stored_numbers :: "nat \<Rightarrow> irq list \<Rightarrow> nat list" where
  "stored_numbers n [] = []"
| "stored_numbers n (Adc_stored s # is) = Suc n # stored_numbers (Suc n) is"
| "stored_numbers n (Adc_lost # is) = stored_numbers (Suc n) is"
| "stored_numbers n (Other # is) = stored_numbers n is"

lemma stored_samples_append [simp]: "stored_samples (xs @ ys) = stored_samples xs @ stored_samples ys"
  by (induction xs rule: stored_samples.induct) simp_all

lemma stored_numbers_append: "stored_numbers n (xs @ ys) = stored_numbers n xs @ stored_numbers (n + adc_count xs) ys"
  by (induction n xs rule: stored_numbers.induct) (simp_all add: adc_count_def)

lemma stored_numbers_increase:
  "sorted_wrt (<) (stored_numbers n is) \<and> (\<forall>k\<in>set (stored_numbers n is). n < k \<and> k \<le> n + adc_count is)"
  by (induction n "is" rule: stored_numbers.induct) (auto simp: adc_count_def)

lemma write_changes_ring: "write_to_buffer v t q c \<noteq> c" if "ring_ok c"
proof
  assume "write_to_buffer v t q c = c"
  then have "unread (write_to_buffer v t q c) = unread c" by simp
  with that show False by (simp add: unread_write mod_Suc split: if_splits) (simp add: CIRC_BUF_SIZE_def)
qed

lemma written_sample:
  "ring_ok c \<Longrightarrow> CIRC_BUFFER (write_to_buffer v t q c) ! unat (last_write (write_to_buffer v t q c)) = mk_sample v t q"
  by (simp add: write_to_buffer_ring ring_ok_def CIRC_BUF_SIZE_def)

lemma interrupt_adc:
  assumes "interrupt hw t st = Some st'" "adc_pending hw st"
  obtains d1 st1 d2 where "handle_adc_int hw t (st\<lparr>i_dev := d1, counter_scl := counter_scl st + 1\<rparr>) = Some st1" "st' = st1\<lparr>i_dev := d2\<rparr>"
proof -
  obtain d0 where 0: "rmw hw INTRENABLE_ADDRESS (\<lambda>v. v AND NOT GPIOA_EN_MASK) st = st\<lparr>i_dev := d0\<rparr>"
    using rmw_state [of hw INTRENABLE_ADDRESS _ st] by meson
  obtain v d1 where 1: "mrd hw (new_address st GPIO_INT_STATUS) d0 = (v, d1)" by fastforce
  have "SCL_MASK AND v \<noteq> 0" using assms(2) by (simp add: adc_pending_def 0 1)
  then obtain st1 where st1: "handle_adc_int hw t (st\<lparr>i_dev := d1, counter_scl := counter_scl st + 1\<rparr>) = Some st1"
    and st': "st' = rmw hw INTRENABLE_ADDRESS (\<lambda>v. v OR GPIOA_EN_MASK) (rmw hw GPIO_INT_CLEAR (\<lambda>v. v OR GPIOA_EN_MASK) st1)"
    using assms(1) by (auto simp: interrupt_def 0 1 Let_def split: bind_splits)
  from st' rmw_rmw_state obtain d2 where "st' = st1\<lparr>i_dev := d2\<rparr>" by metis
  with st1 that show thesis by blast
qed

lemma interrupt_other:
  assumes "interrupt hw t st = Some st'" "\<not> adc_pending hw st"
  shows "counter st' = counter st \<and> i_ring st' = i_ring st"
proof -
  obtain d0 where 0: "rmw hw INTRENABLE_ADDRESS (\<lambda>v. v AND NOT GPIOA_EN_MASK) st = st\<lparr>i_dev := d0\<rparr>"
    using rmw_state [of hw INTRENABLE_ADDRESS _ st] by meson
  obtain v d1 where 1: "mrd hw (new_address st GPIO_INT_STATUS) d0 = (v, d1)" by fastforce
  obtain v' d1' where 2: "mrd hw (new_address st GPIO_INT_STATUS) d1 = (v', d1')" by fastforce
  have "SCL_MASK AND v = 0" using assms(2) by (simp add: adc_pending_def 0 1)
  then obtain st1 where mid: "(if SDA_MASK AND v' \<noteq> 0 then handle_gps_int hw t (st\<lparr>i_dev := d1', counter_sda := counter_sda st + 1\<rparr>)
      else Some (st\<lparr>i_dev := d1'\<rparr>)) = Some st1"
    and st': "st' = rmw hw INTRENABLE_ADDRESS (\<lambda>v. v OR GPIOA_EN_MASK) (rmw hw GPIO_INT_CLEAR (\<lambda>v. v OR GPIOA_EN_MASK) st1)"
    using assms(1) by (auto simp: interrupt_def 0 1 2 Let_def split: bind_splits cong: if_cong)
  from st' rmw_rmw_state obtain d2 where "st' = st1\<lparr>i_dev := d2\<rparr>" by metis
  then show ?thesis
    using mid handle_gps_int_cases(5,6) [of hw t "st\<lparr>i_dev := d1', counter_sda := counter_sda st + 1\<rparr>" st1] by (auto split: if_splits)
qed

lemma interrupt_effect:
  assumes "interrupt hw t st = Some st'"
  shows "if adc_pending hw st
    then counter st' = counter st + 1 \<and> (i_ring st' = i_ring st \<or> (\<exists>v ts. i_ring st' = write_to_buffer v ts (counter st + 1) (i_ring st)))
    else counter st' = counter st \<and> i_ring st' = i_ring st"
proof (cases "adc_pending hw st")
  case True
  obtain d1 st1 d2 where st1: "handle_adc_int hw t (st\<lparr>i_dev := d1, counter_scl := counter_scl st + 1\<rparr>) = Some st1" "st' = st1\<lparr>i_dev := d2\<rparr>"
    by (rule interrupt_adc [OF assms True])
  from handle_adc_int_cases(1,5) [OF st1(1)] st1(2) True show ?thesis by auto
next
  case False
  then show ?thesis using interrupt_other [OF assms] by simp
qed

lemma interrupt_kind:
  assumes "interrupt hw t st = Some st'" "ring_ok (i_ring st)"
  obtains (stored) s where "irq_kind hw st st' = Adc_stored s" "s_seq_number s = counter st + 1" "counter st' = counter st + 1" "ring_ok (i_ring st')"
  | (lost) "irq_kind hw st st' = Adc_lost" "counter st' = counter st + 1" "ring_ok (i_ring st')"
  | (other) "irq_kind hw st st' = Other" "counter st' = counter st" "ring_ok (i_ring st')"
proof (cases "adc_pending hw st")
  case False
  with interrupt_effect [OF assms(1)] assms(2) other show thesis by (simp add: irq_kind_def)
next
  case True
  with interrupt_effect [OF assms(1)] consider "i_ring st' = i_ring st" "counter st' = counter st + 1"
    | v ts where "i_ring st' = write_to_buffer v ts (counter st + 1) (i_ring st)" "counter st' = counter st + 1" by auto
  then show thesis
  proof cases
    case 1
    with True assms(2) lost show thesis by (simp add: irq_kind_def)
  next
    case 2
    with True assms(2) show thesis
      by (intro stored [of "mk_sample v ts (counter st + 1)"]) (simp_all add: irq_kind_def write_changes_ring written_sample mk_sample_def)
  qed
qed

lemma irq_run_numbers:
  assumes "irq_run hw st is st'" "ring_ok (i_ring st)" "unat (counter st) + adc_count is < 2 ^ 32"
  shows "ring_ok (i_ring st') \<and> unat (counter st') = unat (counter st) + adc_count is \<and>
    map (\<lambda>s. unat (s_seq_number s)) (stored_samples is) = stored_numbers (unat (counter st)) is"
  using assms
proof (induction rule: irq_run.induct)
  case (idle st)
  then show ?case by (simp add: adc_count_def)
next
  case (irq st "is" st1 t st2)
  then have ih: "ring_ok (i_ring st1)" "unat (counter st1) = unat (counter st) + adc_count is"
    "map (\<lambda>s. unat (s_seq_number s)) (stored_samples is) = stored_numbers (unat (counter st)) is"
    by (simp_all add: adc_count_def split: if_splits)
  have succ: "unat (counter st1 + 1) = Suc (unat (counter st) + adc_count is)" if "adc_count [irq_kind hw st1 st2] = 1"
    using irq.prems(2) ih(2) that by (simp add: adc_count_def unat_word_ariths)
  from irq.hyps(2) ih(1) show ?case
    by (cases rule: interrupt_kind) (use ih succ in \<open>simp_all add: adc_count_def stored_numbers_append\<close>)
qed

section \<open>Properties\<close>

text \<open>C16: over any run of interrupts, whatever the hardware does, as long as the counter does not reach 2^32: the counter
  advances by one for each interrupt that shows the ADC, whether or not its sample is stored, and for no other; every stored sample
  has the number of its own ADC interrupt, so that the numbers in the ring strictly increase, no two are equal, and a number
  that is missing is an ADC interrupt whose sample was not stored.\<close>

theorem sequence_numbers_increase:
  assumes "irq_run hw st irqs st'" "ring_ok (i_ring st)" "unat (counter st) + adc_count irqs < 2 ^ 32"
  shows "unat (counter st') = unat (counter st) + adc_count irqs \<and>
    map (\<lambda>s. unat (s_seq_number s)) (stored_samples irqs) = stored_numbers (unat (counter st)) irqs \<and>
    sorted_wrt (<) (map (\<lambda>s. unat (s_seq_number s)) (stored_samples irqs))"
  using irq_run_numbers [OF assms] stored_numbers_increase [of "unat (counter st)" irqs] by simp

text \<open>A board with a given interrupt status and the FPGA free.\<close>

definition board_state :: "u32 \<Rightarrow> fpga_sim int_state" where
  "board_state status = \<lparr>i_dev = sim0\<lparr>sim_mem := (\<lambda>a. 0)(GPIO_INT_STATUS := status)\<rparr>,
     i_io = board_io, new_address = (\<lambda>a. a), counter_sda = 0, counter_scl = 0, counter_seconds = 0,
     counter = 0, mux_state = 0, sec_in_pps = 0, usec_in_pps = 0, elapsed_secs = 0, elapsed_usecs = 0,
     i_ring = ring0\<rparr>"

lemma sim_other:
  "a \<noteq> SPI_REGISTER + 0x64 \<Longrightarrow> a \<noteq> SPI_REGISTER + 0x58 \<Longrightarrow> mrd (sim_mmio board_io) a d = (sim_mem d a, d)"
  "a \<noteq> SPI_REGISTER + 0x50 \<Longrightarrow> a \<noteq> GPIOA_REGISTER
    \<Longrightarrow> mwr (sim_mmio board_io) a v d = d\<lparr>sim_mem := (sim_mem d)(a := v)\<rparr>"
  by (simp_all add: sim_mmio_def board_io_def)

lemma sim_read_four_channels:
  "sim_rx d = None \<Longrightarrow> \<exists>v d'. read_four_channels (sim_mmio board_io) board_io d = Some (v, d')"
  by (simp add: read_four_channels_def sim_peek)

lemma sim_write_dio26:
  "sim_rx d = None \<Longrightarrow> \<exists>d'. write_dio26 (sim_mmio board_io) board_io b d = Some d'
    \<and> sim_rx d' = None \<and> sim_mem d' = sim_mem d"
  by (simp add: write_dio26_def sim_peek sim_poke)

lemma sim_trigger_address:
  "mrd (sim_mmio board_io) INTRTRIGGER_ADDRESS d = (sim_mem d INTRTRIGGER_ADDRESS, d)"
  "mwr (sim_mmio board_io) INTRTRIGGER_ADDRESS v d = d\<lparr>sim_mem := (sim_mem d)(INTRTRIGGER_ADDRESS := v)\<rparr>"
  by (rule sim_other; simp add: io_address_defs)+

lemma handle_adc_int_runs:
  assumes "new_address st = (\<lambda>a. a)" "i_io st = board_io" "sim_rx (i_dev st) = None"
    and "sim_mem (i_dev st) INTRTRIGGER_ADDRESS AND 1 = 0"
  shows "\<exists>st' v. handle_adc_int (sim_mmio board_io) t st = Some st'
    \<and> i_ring st' = write_to_buffer v (adc_timestamp t st) (counter st + 1) (i_ring st)"
proof -
  let ?hw = "sim_mmio board_io"
  let ?d = "(i_dev st)\<lparr>sim_mem := (sim_mem (i_dev st))(INTRTRIGGER_ADDRESS := 0)\<rparr>"
  have u: "is_fpga_used ?hw st = (False, st\<lparr>i_dev := ?d\<rparr>)"
    using assms by (simp add: is_fpga_used_def sim_trigger_address)
  obtain d1 where 1: "write_dio26 ?hw board_io True ?d = Some d1" "sim_rx d1 = None"
    using sim_write_dio26 [of ?d True] assms(3) by auto
  obtain v2 d2 where 2: "read_four_channels ?hw board_io d1 = Some (v2, d2)"
    using sim_read_four_channels [OF 1(2)] by blast
  obtain v3 d3 where 3: "read_four_channels ?hw board_io ?d = Some (v3, d3)"
    using sim_read_four_channels [of ?d] assms(3) by auto
  show ?thesis
    using assms by (cases "mux_state st = 0") (auto simp: handle_adc_int_def u 1 2 3 Let_def adc_timestamp_def)
qed

lemma board_interrupt:
  assumes "SCL_MASK AND status \<noteq> 0"
  shows "\<exists>st' v ts. interrupt (sim_mmio board_io) (0, 0) (board_state status) = Some st'
    \<and> i_ring st' = write_to_buffer v ts 1 ring0 \<and> counter st' = 1"
proof -
  let ?hw = "sim_mmio board_io"
  let ?d = "sim0\<lparr>sim_mem := (\<lambda>a. 0)(GPIO_INT_STATUS := status, INTRENABLE_ADDRESS := 0)\<rparr>"
  let ?st = "(board_state status)\<lparr>i_dev := ?d, counter_scl := 1\<rparr>"
  obtain st1 v where 1: "handle_adc_int ?hw (0, 0) ?st = Some st1"
      "i_ring st1 = write_to_buffer v (adc_timestamp (0, 0) ?st) (counter ?st + 1) (i_ring ?st)"
    using handle_adc_int_runs [of ?st "(0, 0)"]
    by (auto simp: board_state_def sim0_def io_address_defs)
  then have c: "counter st1 = 1"
    using handle_adc_int_cases(1) [OF 1(1)] by (simp add: board_state_def)
  obtain d2 where fin: "rmw ?hw INTRENABLE_ADDRESS (\<lambda>v. v OR GPIOA_EN_MASK)
      (rmw ?hw GPIO_INT_CLEAR (\<lambda>v. v OR GPIOA_EN_MASK) st1) = st1\<lparr>i_dev := d2\<rparr>"
    using rmw_rmw_state by metis
  have "rmw ?hw INTRENABLE_ADDRESS (\<lambda>v. v AND NOT GPIOA_EN_MASK) (board_state status)
      = (board_state status)\<lparr>i_dev := ?d\<rparr>"
    by (simp add: rmw_def sim_other board_state_def io_address_defs)
  moreover have "mrd ?hw GPIO_INT_STATUS ?d = (status, ?d)"
    by (simp add: sim_other io_address_defs)
  moreover have "new_address (board_state status) = (\<lambda>a. a)" "counter_scl (board_state status) = 0"
    by (simp_all add: board_state_def)
  ultimately have "interrupt ?hw (0, 0) (board_state status) = Some (st1\<lparr>i_dev := d2\<rparr>)"
    using assms by (simp add: interrupt_def 1 fin)
  then show ?thesis using 1(2) c by (auto simp: board_state_def)
qed

theorem sequence_numbers_increase_witness:
  "\<exists>st' s. irq_run (sim_mmio board_io) (board_state SCL_MASK) [Adc_stored s] st' \<and> unat (counter st') = 1 \<and> unat (s_seq_number s) = 1"
proof -
  let ?hw = "sim_mmio board_io" and ?st = "board_state SCL_MASK"
  obtain st' v ts where st': "interrupt ?hw (0, 0) ?st = Some st'" "i_ring st' = write_to_buffer v ts 1 ring0"
    using board_interrupt [of SCL_MASK] by (auto simp: SCL_MASK_def)
  have r: "i_ring ?st = ring0" "unat (counter ?st) = 0" by (simp_all add: board_state_def)
  have "adc_pending ?hw ?st"
    by (simp add: adc_pending_def rmw_def sim_other board_state_def io_address_defs) (simp add: SCL_MASK_def)
  then have run: "irq_run ?hw ?st [Adc_stored (mk_sample v ts 1)] st'"
    using irq [OF idle st'(1)] by (simp add: irq_kind_def r st'(2) write_changes_ring written_sample)
  show ?thesis
    using sequence_numbers_increase [OF run] run ring_ok_ring0 by (auto simp: r adc_count_def)
qed

text \<open>C10: the time stamp of a sample. After a pulse handled at wall clock \<^verbatim>\<open>tp\<close>, an ADC
  interrupt at wall clock \<^verbatim>\<open>t\<close>, later and in the same or the next second of the kernel clock,
  either stores nothing (the FPGA is busy) or appends to the ring one sample numbered
  by the counter, whose time stamp is the GPS second in microseconds plus the
  microseconds from the pulse to the interrupt.\<close>

theorem sample_timestamp_since_pulse:
  assumes "handle_gps_int hw tp st = Some st1" "handle_adc_int hw t st1 = Some st2"
    and "timeval_ok tp" "timeval_ok t" "usecs_of tp \<le> usecs_of t" "sint (fst t) \<le> sint (fst tp) + 1"
    and "uint (elapsed_secs st) < 2 ^ 40" "ring_ok (i_ring st)" "ring_room (i_ring st)"
  shows "i_ring st2 = i_ring st \<or>
    (\<exists>s. pending (i_ring st2) = pending (i_ring st) @ [s] \<and> s_seq_number s = counter st + 1
       \<and> uint (s_timestamp s) = (uint (elapsed_secs st) + 1) * 1000000 + (usecs_of t - usecs_of tp))"
proof -
  note gps = handle_gps_int_cases [OF assms(1)] and adc = handle_adc_int_cases [OF assms(2)]
  define u where "u = calculate_usecs (fst t) (snd t) (fst tp) (snd tp)"
  have u: "uint u = usecs_of t - usecs_of tp"
    unfolding u_def using assms by (intro calculate_usecs_elapsed)
  have "usecs_of t - usecs_of tp < 2000000"
    using assms by (simp add: usecs_of_def timeval_ok_def)
  then have "uint ((elapsed_secs st + 1) * 1000000 + u)
      = (uint (elapsed_secs st) + 1) * 1000000 + (usecs_of t - usecs_of tp)"
    using assms(5,7) by (simp add: uint_word_ariths u)
  moreover have "adc_timestamp t st1 = (elapsed_secs st + 1) * 1000000 + u"
    by (simp add: adc_timestamp_def gps u_def)
  moreover have "i_ring st2 = i_ring st \<or>
      (\<exists>v. i_ring st2 = write_to_buffer v (adc_timestamp t st1) (counter st + 1) (i_ring st))"
    using adc(5) gps by simp
  ultimately show ?thesis
    using assms(8,9) by (auto simp: pending_write ring_room_def mk_sample_def)
qed

lemma handle_gps_int_runs:
  assumes "new_address st = (\<lambda>a. a)" "i_io st = board_io" "sim_rx (i_dev st) = None"
    and "sim_mem (i_dev st) INTRTRIGGER_ADDRESS AND 1 = 0"
  shows "\<exists>st'. handle_gps_int (sim_mmio board_io) t st = Some st' \<and> new_address st' = (\<lambda>a. a)
    \<and> i_io st' = board_io \<and> sim_rx (i_dev st') = None \<and> sim_mem (i_dev st') INTRTRIGGER_ADDRESS = 0"
proof -
  let ?hw = "sim_mmio board_io"
  let ?st = "st\<lparr>sec_in_pps := fst t, usec_in_pps := snd t, counter_seconds := counter_seconds st + 1,
                elapsed_usecs := 0, elapsed_secs := elapsed_secs st + 1, counter_scl := 0\<rparr>"
  let ?d = "(i_dev st)\<lparr>sim_mem := (sim_mem (i_dev st))(INTRTRIGGER_ADDRESS := 0)\<rparr>"
  have u: "is_fpga_used ?hw ?st = (False, ?st\<lparr>i_dev := ?d\<rparr>)"
    using assms by (simp add: is_fpga_used_def sim_trigger_address)
  obtain d1 where 1: "write_dio26 ?hw board_io False ?d = Some d1" "sim_rx d1 = None" "sim_mem d1 = sim_mem ?d"
    using sim_write_dio26 [of ?d False] assms(3) by auto
  then show ?thesis
    using assms by (simp add: handle_gps_int_def Let_def u write_watchdog_def sim_poke)
qed

theorem sample_timestamp_since_pulse_witness:
  "\<exists>st1 st2 s. handle_gps_int (sim_mmio board_io) (5, 900000) (board_state SCL_MASK) = Some st1
    \<and> handle_adc_int (sim_mmio board_io) (6, 100) st1 = Some st2
    \<and> pending (i_ring st2) = [s] \<and> uint (s_timestamp s) = 1100100"
proof -
  let ?hw = "sim_mmio board_io" and ?st = "(board_state SCL_MASK)"
  obtain st1 where 1: "handle_gps_int ?hw (5, 900000) ?st = Some st1" "new_address st1 = (\<lambda>a. a)"
      "i_io st1 = board_io" "sim_rx (i_dev st1) = None" "sim_mem (i_dev st1) INTRTRIGGER_ADDRESS = 0"
    using handle_gps_int_runs [of ?st "(5, 900000)"] by (auto simp: board_state_def sim0_def io_address_defs)
  have r: "i_ring ?st = ring0" "i_ring st1 = ring0"
    using handle_gps_int_cases(5) [OF 1(1)] by (simp_all add: board_state_def)
  obtain st2 v where 2: "handle_adc_int ?hw (6, 100) st1 = Some st2"
      "i_ring st2 = write_to_buffer v (adc_timestamp (6, 100) st1) (counter st1 + 1) ring0"
    using handle_adc_int_runs [of st1 "(6, 100)"] 1 r by auto
  have "i_ring st2 \<noteq> ring0" by (simp add: 2 write_changes_ring)
  then show ?thesis
    using sample_timestamp_since_pulse [OF 1(1) 2(1)] 1(1) 2(1)
    by (simp add: r timeval_ok_def usecs_of_def ring_room_def CIRC_BUF_SIZE_def) (auto simp: board_state_def)
qed

text \<open>C38: a pulse that comes together with an ADC interrupt is lost. When the status
  register shows both sources, the handler serves the ADC only, yet clears both bits of
  the interrupt: the GPS second does not advance and the pulse is not counted.\<close>

theorem simultaneous_pulse_is_lost:
  assumes "interrupt hw t st = Some st'"
    and "fst (mrd hw (new_address st GPIO_INT_STATUS)
        (i_dev (rmw hw INTRENABLE_ADDRESS (\<lambda>v. v AND NOT GPIOA_EN_MASK) st))) AND GPIOA_EN_MASK = GPIOA_EN_MASK"
  shows "elapsed_secs st' = elapsed_secs st \<and> counter_seconds st' = counter_seconds st
    \<and> counter_sda st' = counter_sda st \<and> counter st' = counter st + 1
    \<and> (\<exists>st1. st' = rmw hw INTRENABLE_ADDRESS (\<lambda>v. v OR GPIOA_EN_MASK)
         (rmw hw GPIO_INT_CLEAR (\<lambda>v. v OR SCL_MASK OR SDA_MASK) st1))"
proof -
  let ?st = "rmw hw INTRENABLE_ADDRESS (\<lambda>v. v AND NOT GPIOA_EN_MASK) st"
  obtain d0 where 0: "?st = st\<lparr>i_dev := d0\<rparr>" using rmw_state by metis
  obtain v d1 where 1: "mrd hw (new_address st GPIO_INT_STATUS) d0 = (v, d1)" by fastforce
  have "v AND GPIOA_EN_MASK = GPIOA_EN_MASK" using assms(2) by (simp add: 0 1)
  moreover have m: "bit GPIOA_EN_MASK 14" "bit SCL_MASK 14"
    by (simp_all add: GPIOA_EN_MASK_def SCL_MASK_def SDA_MASK_def)
  ultimately have "bit (SCL_MASK AND v) 14" by (metis bit_and_iff)
  then have v: "SCL_MASK AND v \<noteq> 0" by auto
  obtain st1 where st1: "handle_adc_int hw t (st\<lparr>i_dev := d1, counter_scl := counter_scl st + 1\<rparr>) = Some st1"
    and st': "st' = rmw hw INTRENABLE_ADDRESS (\<lambda>v. v OR GPIOA_EN_MASK)
      (rmw hw GPIO_INT_CLEAR (\<lambda>v. v OR GPIOA_EN_MASK) st1)"
    using assms(1) v by (auto simp: interrupt_def 0 1 Let_def split: bind_splits)
  obtain d2 where "st' = st1\<lparr>i_dev := d2\<rparr>"
    using rmw_rmw_state [of hw INTRENABLE_ADDRESS _ GPIO_INT_CLEAR _ st1] unfolding st' by metis
  then have "elapsed_secs st' = elapsed_secs st \<and> counter_seconds st' = counter_seconds st
    \<and> counter_sda st' = counter_sda st \<and> counter st' = counter st + 1"
    using handle_adc_int_cases(1-4) [OF st1] by simp
  then show ?thesis using st' by (auto simp: GPIOA_EN_MASK_def or.assoc)
qed

theorem simultaneous_pulse_is_lost_witness:
  "\<exists>st'. interrupt (sim_mmio board_io) (0, 0) (board_state GPIOA_EN_MASK) = Some st' \<and> elapsed_secs st' = 0
    \<and> counter_sda st' = 0 \<and> counter st' = 1"
proof -
  have "SCL_MASK AND GPIOA_EN_MASK \<noteq> 0"
    by (simp add: GPIOA_EN_MASK_def SCL_MASK_def SDA_MASK_def)
  then obtain st' where st': "interrupt (sim_mmio board_io) (0, 0) (board_state GPIOA_EN_MASK) = Some st'"
    using board_interrupt by blast
  have "fst (mrd (sim_mmio board_io) (new_address (board_state GPIOA_EN_MASK) GPIO_INT_STATUS)
      (i_dev (rmw (sim_mmio board_io) INTRENABLE_ADDRESS (\<lambda>v. v AND NOT GPIOA_EN_MASK) (board_state GPIOA_EN_MASK))))
      = GPIOA_EN_MASK"
    by (simp add: rmw_def sim_other board_state_def io_address_defs)
  with simultaneous_pulse_is_lost [OF st'] st' show ?thesis
    by (simp add: board_state_def)
qed

definition released :: "kcall list \<Rightarrow> (u32 \<times> u32) list" where
  "released ks = concat (map (\<lambda>k. case k of Release_mem_region a n \<Rightarrow> [(a, n)] | _ \<Rightarrow> []) ks)"

definition unmapped :: "kcall list \<Rightarrow> u32 list" where
  "unmapped ks = concat (map (\<lambda>k. case k of Iounmap a \<Rightarrow> [a] | _ \<Rightarrow> []) ks)"

text \<open>unloading the module gives back exactly the memory regions that loading it
  asked for, each once. Every region is unmapped by its physical address, not by the address
  \<^verbatim>\<open>ioremap\<close> returned for it.\<close>

theorem cleanup_releases_every_region:
  "mset (released cleanup) = mset ((GPIOA_REGISTER, WORD_SIZE) # (SPI_REGISTER, 0x6C + WORD_SIZE) # int_regions)
    \<and> unmapped cleanup = map fst (released cleanup) \<and> distinct (map fst (released cleanup))"
proof -
  have r: "released cleanup = [(GPIOA_EN_ADDRESS, WORD_SIZE), (PIN_DIR_ADDRESS, WORD_SIZE), (INTRENABLE_ADDRESS, WORD_SIZE),
      (INTRMASK_ADDRESS, WORD_SIZE), (INTRTRIGGER_ADDRESS, WORD_SIZE), (INTRBOTH_ADDRESS, WORD_SIZE),
      (INTRRISE_ADDRESS, WORD_SIZE), (INT_STATUS_ADDRESS, WORD_SIZE), (INT_MASK_ADDRESS, WORD_SIZE),
      (INT_MASK_CLEAR_ADDRESS, WORD_SIZE), (FIQ_SELECT_ADDRESS, WORD_SIZE), (IRQ_STATUS, WORD_SIZE),
      (INT_TRIGGER_MODE, WORD_SIZE), (INT_TRIGGER_LEVEL, WORD_SIZE), (IRQ_PRIOTITY, WORD_SIZE * 32),
      (VIC_CONTROL, WORD_SIZE), (SOFT_INT_REGISTER, WORD_SIZE), (GPIO_DATA_INPUT, WORD_SIZE),
      (GPIO_INT_CLEAR, WORD_SIZE), (GPIO_INT_STATUS, WORD_SIZE), (GPIOA_REGISTER, WORD_SIZE),
      (SPI_REGISTER, 0x6C + WORD_SIZE)]"
    by (simp add: released_def cleanup_def unregister_handle_interruption_def unregister_memory_region_def
        release_mem_spi_def release_mem_def)
  show ?thesis
    unfolding r
    by (simp add: int_regions_def unmapped_def cleanup_def unregister_handle_interruption_def
        unregister_memory_region_def release_mem_spi_def release_mem_def ac_simps)
       (simp add: io_address_defs)
qed

end
