(* ===== verification/Codec.thy ===== *)
theory Codec
  imports Mia_Prelude
begin

text \<open>
  The contract of a fixed-width byte layout, as the packed structures of the program have
  on the wire and in memory: the packet of the sender, the sample of the ring, the packet
  of the radio driver.
\<close>

locale byte_codec =
  fixes enc :: "'a \<Rightarrow> u8 list" and dec :: "u8 list \<Rightarrow> 'a" and width :: nat and wf :: "'a \<Rightarrow> bool"
  assumes enc_length: "wf a \<Longrightarrow> length (enc a) = width"
    and dec_enc: "wf a \<Longrightarrow> dec (enc a) = a"
    and enc_dec: "length bs = width \<Longrightarrow> enc (dec bs) = bs"
    and dec_wf: "length bs = width \<Longrightarrow> wf (dec bs)"
begin

lemma enc_inject: "wf a \<Longrightarrow> wf b \<Longrightarrow> enc a = enc b \<longleftrightarrow> a = b"
  using dec_enc by metis

text \<open>A structure read back from the front of a longer block.\<close>

lemma dec_take: "wf a \<Longrightarrow> dec (take width (enc a @ rest)) = a"
  by (simp add: enc_length dec_enc)

lemma drop_enc: "wf a \<Longrightarrow> drop width (enc a @ rest) = rest"
  by (simp add: enc_length)

text \<open>The k-th structure of an array.\<close>

lemma dec_nth:
  assumes "\<forall>a\<in>set as. wf a" "k < length as"
  shows "dec (take width (drop (k * width) (concat (map enc as)))) = as ! k"
  using assms
proof (induction as arbitrary: k)
  case (Cons a as)
  show ?case
  proof (cases k)
    case 0
    with Cons.prems show ?thesis by (simp add: enc_length dec_enc)
  next
    case (Suc j)
    have "drop (k * width) (enc a @ concat (map enc as)) = drop (j * width) (concat (map enc as))"
      using Cons.prems Suc by (simp add: enc_length)
    with Suc Cons show ?thesis by simp
  qed
qed simp

lemma enc_eq_iff: "wf a \<Longrightarrow> length bs = width \<Longrightarrow> enc a = bs \<longleftrightarrow> a = dec bs"
  using dec_enc enc_dec by metis

end

end
