(* ===== verification/Packet.thy ===== *)
theory Packet
  imports Codec Circ_Buffer
begin

text \<open>
  The packet of src/kernel_sender/miavita_packet.h, packed, 25 bytes, and the byte layouts of
  packet and sample in the memory of the little-endian machines.
\<close>

record packet_t =
  p_timestamp :: u64
  p_seq :: u32
  p_samples :: "u8 list"
  p_id :: u8

definition packet_ok :: "packet_t \<Rightarrow> bool" where
  "packet_ok p \<longleftrightarrow> length (p_samples p) = 12"

definition packet_bytes :: "packet_t \<Rightarrow> u8 list" where
  "packet_bytes p = word_bytes 8 (p_timestamp p) @ word_bytes 4 (p_seq p) @ p_samples p @ [p_id p]"

definition packet_of_bytes :: "u8 list \<Rightarrow> packet_t" where
  "packet_of_bytes bs = \<lparr>p_timestamp = bytes_word (take 8 bs), p_seq = bytes_word (take 4 (drop 8 bs)),
     p_samples = take 12 (drop 12 bs), p_id = bs ! 24\<rparr>"

definition sizeof_packet_t :: nat where
  "sizeof_packet_t = 25"

definition sample_of_bytes :: "u8 list \<Rightarrow> sample_t" where
  "sample_of_bytes bs = \<lparr>s_timestamp = bytes_word (take 8 bs), s_seq_number = bytes_word (take 4 (drop 8 bs)),
     s_data = [bytes_word (take 4 (drop 12 bs)), bytes_word (take 4 (drop 16 bs)), bytes_word (take 4 (drop 20 bs))]\<rparr>"

definition sample_ok :: "sample_t \<Rightarrow> bool" where
  "sample_ok s \<longleftrightarrow> length (s_data s) = 3"

definition data_bytes :: "sample_t \<Rightarrow> u8 list" where
  "data_bytes s = concat (map (word_bytes 4) (s_data s))"

lemma split_at:
  "i + j = k \<Longrightarrow> take j (drop i xs) @ drop k xs = drop i xs"
  by (metis add.commute append_take_drop_id drop_drop)

lemma sample_ok_cases:
  assumes "sample_ok s"
  obtains a b c where "s_data s = [a, b, c]"
  using assms by (auto simp: sample_ok_def numeral_3_eq_3 length_Suc_conv)

lemma length_data_bytes [simp]: "sample_ok s \<Longrightarrow> length (data_bytes s) = 12"
  by (erule sample_ok_cases) (simp add: data_bytes_def)

interpretation packet_layout: byte_codec packet_bytes packet_of_bytes sizeof_packet_t packet_ok
proof
  fix a :: packet_t
  assume ok: "packet_ok a"
  show "length (packet_bytes a) = sizeof_packet_t"
    using ok by (simp add: packet_bytes_def packet_ok_def sizeof_packet_t_def)
  show "packet_of_bytes (packet_bytes a) = a"
    using ok by (simp add: packet_bytes_def packet_of_bytes_def packet_ok_def wire nth_append
        del: word_bytes_numeral)
next
  fix bs :: "u8 list"
  assume len: "length bs = sizeof_packet_t"
  then show "packet_ok (packet_of_bytes bs)"
    by (simp add: packet_ok_def packet_of_bytes_def sizeof_packet_t_def)
  have last: "[bs ! 24] = drop 24 bs"
    using len by (simp add: sizeof_packet_t_def flip: Cons_nth_drop_Suc)
  have "take 8 bs @ take 4 (drop 8 bs) @ take 12 (drop 12 bs) @ [bs ! 24] = bs"
    unfolding last using split_at [of 12 12 24 bs] split_at [of 8 4 12 bs] by simp
  then show "packet_bytes (packet_of_bytes bs) = bs"
    using len by (simp add: packet_bytes_def packet_of_bytes_def wire sizeof_packet_t_def
        del: word_bytes_numeral)
qed

interpretation sample_layout: byte_codec sample_bytes sample_of_bytes sizeof_sample_t sample_ok
proof
  fix a :: sample_t
  assume ok: "sample_ok a"
  then obtain x y z where d: "s_data a = [x, y, z]" by (rule sample_ok_cases)
  show "length (sample_bytes a) = sizeof_sample_t"
    by (simp add: sample_bytes_def d sizeof_sample_t_def)
  show "sample_of_bytes (sample_bytes a) = a"
    by (rule sample_t.equality)
       (simp_all add: sample_bytes_def sample_of_bytes_def wire d del: word_bytes_numeral)
next
  fix bs :: "u8 list"
  assume len: "length bs = sizeof_sample_t"
  then show "sample_ok (sample_of_bytes bs)"
    by (simp add: sample_ok_def sample_of_bytes_def)
  have "take 8 bs @ take 4 (drop 8 bs) @ take 4 (drop 12 bs) @ take 4 (drop 16 bs) @ take 4 (drop 20 bs) = bs"
    using split_at [of 16 4 20 bs] split_at [of 12 4 16 bs] split_at [of 8 4 12 bs] len
    by (simp add: sizeof_sample_t_def)
  then show "sample_bytes (sample_of_bytes bs) = bs"
    using len by (simp add: sample_bytes_def sample_of_bytes_def wire sizeof_sample_t_def
        del: word_bytes_numeral)
qed

end
