(* ===== verification/Sender.thy ===== *)
theory Sender
  imports Packet
begin

text \<open>
  The sender thread of src/kernel_sender/sender_kthread.c and the packet generator of
  src/fake_sender/fake_sender.c. The network is the list of datagrams handed to the
  socket. What the kernel decides (allocations, socket calls, when to stop) is an argument of
  the step that depends on it; \<^verbatim>\<open>in_aton\<close> and \<^verbatim>\<open>inet_aton\<close> are parameters.
\<close>

section \<open>State\<close>

record sender_params =
  bind_ip :: string
  sink_ip :: string
  sport :: u16
  sink_port :: u16
  node_id :: u16
  read_t :: u32

definition default_params :: sender_params where
  "default_params = \<lparr>bind_ip = ''127.0.0.1'', sink_ip = ''127.0.0.1'', sport = 57843, sink_port = 57844,
     node_id = 0, read_t = 500\<rparr>"

record datagram =
  d_addr :: u32
  d_port :: u16
  d_bytes :: "u8 list"

text \<open>\<^verbatim>\<open>sent\<close> are the datagrams the socket accepted.\<close>

record sender_state =
  sn_ring :: circ_state
  sn_seq :: u32
  sent :: "datagram list"

section \<open>Operations\<close>

text \<open>A message the socket refuses (\<^verbatim>\<open>accepted\<close> false) is only reported.\<close>

definition send_it :: "(string \<Rightarrow> u32) \<Rightarrow> sender_params \<Rightarrow> bool \<Rightarrow> packet_t \<Rightarrow> datagram list \<Rightarrow> datagram list" where
  "send_it in_aton prm accepted pkt net =
     (let dg = \<lparr>d_addr = in_aton (sink_ip prm), d_port = swap_bytes (sink_port prm), d_bytes = packet_bytes pkt\<rparr>
      in if accepted then net @ [dg] else net)"

definition prepare_packet :: "bool \<Rightarrow> sample_t \<Rightarrow> u32 \<Rightarrow> u8 \<Rightarrow> packet_t option" where
  "prepare_packet allocated sample seq node =
     (if \<not> allocated then None
      else Some \<lparr>p_timestamp = swap_bytes (s_timestamp sample), p_seq = swap_bytes (s_seq_number sample),
                 p_samples = data_bytes sample, p_id = node\<rparr>)"

text \<open>The loop over the samples just read; \<^verbatim>\<open>outcome i\<close> tells whether the packet of sample
  \<^verbatim>\<open>i\<close> is allocated and accepted by the socket.\<close>

fun send_samples :: "(string \<Rightarrow> u32) \<Rightarrow> sender_params \<Rightarrow> (nat \<Rightarrow> bool \<times> bool) \<Rightarrow> nat \<Rightarrow> sample_t list
    \<Rightarrow> u32 \<times> datagram list \<Rightarrow> u32 \<times> datagram list" where
  "send_samples in_aton prm outcome i [] (seq, net) = (seq, net)"
| "send_samples in_aton prm outcome i (s # ss) (seq, net) =
     (case prepare_packet (fst (outcome i)) s seq (ucast (node_id prm)) of
        None \<Rightarrow> send_samples in_aton prm outcome (Suc i) ss (seq + 1, net)
      | Some pkt \<Rightarrow> send_samples in_aton prm outcome (Suc i) ss
          (seq + 1, send_it in_aton prm (snd (outcome i)) pkt net))"

text \<open>What happens to the thread: it is woken to read the ring, the handler writes a
  sample while it sleeps, or it is told to stop.\<close>

datatype sender_event =
    Round "u32 \<Rightarrow> bool" "nat \<Rightarrow> bool \<times> bool"
  | Adc "u32 list" u64 u32
  | Should_stop

definition sender_round :: "(string \<Rightarrow> u32) \<Rightarrow> sender_params \<Rightarrow> (u32 \<Rightarrow> bool) \<Rightarrow> (nat \<Rightarrow> bool \<times> bool)
    \<Rightarrow> sender_state \<Rightarrow> sender_state" where
  "sender_round in_aton prm kmalloc outcome st =
     (case read_nsamples kmalloc (sn_ring st) of (len, buf, ring) \<Rightarrow>
        if len > 0
        then (case send_samples in_aton prm outcome 0 (take (unat len) (the buf)) (sn_seq st, sent st) of
          (seq, net) \<Rightarrow> st\<lparr>sn_ring := ring, sn_seq := seq, sent := net\<rparr>)
        else st\<lparr>sn_ring := ring\<rparr>)"

fun sender_loop :: "(string \<Rightarrow> u32) \<Rightarrow> sender_params \<Rightarrow> sender_event list \<Rightarrow> sender_state \<Rightarrow> sender_state" where
  "sender_loop in_aton prm [] st = st"
| "sender_loop in_aton prm (Round kmalloc outcome # evs) st =
     sender_loop in_aton prm evs (sender_round in_aton prm kmalloc outcome st)"
| "sender_loop in_aton prm (Adc v t q # evs) st =
     sender_loop in_aton prm evs (st\<lparr>sn_ring := write_to_buffer v t q (sn_ring st)\<rparr>)"
| "sender_loop in_aton prm (Should_stop # evs) st = st"

text \<open>\<^verbatim>\<open>created\<close> and \<^verbatim>\<open>bound\<close> are the results of \<^verbatim>\<open>sock_create\<close> and \<^verbatim>\<open>bind\<close>.\<close>

definition main_loop :: "(string \<Rightarrow> u32) \<Rightarrow> sender_params \<Rightarrow> bool \<Rightarrow> bool \<Rightarrow> sender_event list
    \<Rightarrow> sender_state \<Rightarrow> sender_state" where
  "main_loop in_aton prm created bound evs st =
     (if \<not> created then st else if \<not> bound then st else sender_loop in_aton prm evs st)"

text \<open>Loading and unloading: the thread handle, and the kernel calls made on unloading.\<close>

datatype sender_call = Kthread_stop | Sock_release

definition init_module :: "bool \<Rightarrow> bool \<times> int" where
  "init_module started = (if started then (True, 0) else (False, - 12))"

definition cleanup_module :: "bool \<Rightarrow> sender_call list" where
  "cleanup_module sender = (if sender then [Kthread_stop, Sock_release] else [])"

text \<open>The packet generator; the samples of its packet are not initialised, so they are an
  argument.\<close>

definition create_fake_packet :: "u8 list \<Rightarrow> int \<Rightarrow> u32 \<Rightarrow> packet_t" where
  "create_fake_packet stack number seq_number =
     \<lparr>p_timestamp = swap_bytes (ucast seq_number), p_seq = swap_bytes seq_number,
      p_samples = stack, p_id = word_of_int number\<rparr>"

definition fake_port :: u16 where
  "fake_port = 57844"

definition send_packet :: "u32 \<Rightarrow> bool \<Rightarrow> packet_t \<Rightarrow> datagram list \<Rightarrow> datagram list" where
  "send_packet server accepted p net =
     (if accepted then net @ [\<lparr>d_addr = server, d_port = swap_bytes fake_port, d_bytes = packet_bytes p\<rparr>] else net)"

primrec fake_sender :: "u32 \<Rightarrow> int \<Rightarrow> (u8 list \<times> bool) list \<Rightarrow> u32 \<Rightarrow> datagram list \<Rightarrow> datagram list" where
  "fake_sender server number [] seq net = net"
| "fake_sender server number (r # rounds) seq net =
     fake_sender server number rounds (seq + 1)
       (send_packet server (snd r) (create_fake_packet (fst r) number seq) net)"

section \<open>What a round sends\<close>

text \<open>What should be sent for a sample, to compare the operations with.\<close>

definition packet_of_sample :: "sender_params \<Rightarrow> sample_t \<Rightarrow> packet_t" where
  "packet_of_sample prm s = \<lparr>p_timestamp = swap_bytes (s_timestamp s), p_seq = swap_bytes (s_seq_number s),
     p_samples = data_bytes s, p_id = ucast (node_id prm)\<rparr>"

definition sample_datagram :: "(string \<Rightarrow> u32) \<Rightarrow> sender_params \<Rightarrow> sample_t \<Rightarrow> datagram" where
  "sample_datagram in_aton prm s = \<lparr>d_addr = in_aton (sink_ip prm), d_port = swap_bytes (sink_port prm),
     d_bytes = packet_bytes (packet_of_sample prm s)\<rparr>"

text \<open>The samples of a list whose packet was allocated and accepted.\<close>

fun delivered :: "(nat \<Rightarrow> bool \<times> bool) \<Rightarrow> nat \<Rightarrow> sample_t list \<Rightarrow> sample_t list" where
  "delivered outcome i [] = []"
| "delivered outcome i (s # ss) =
     (if fst (outcome i) \<and> snd (outcome i) then [s] else []) @ delivered outcome (Suc i) ss"

lemma send_samples_sent:
  "send_samples in_aton prm outcome i ss (seq, net) =
     (seq + of_nat (length ss), net @ map (sample_datagram in_aton prm) (delivered outcome i ss))"
  by (induction ss arbitrary: i seq net)
     (auto simp: prepare_packet_def send_it_def sample_datagram_def packet_of_sample_def Let_def)

lemma delivered_all: "(\<And>i. outcome i = (True, True)) \<Longrightarrow> delivered outcome i ss = ss"
  by (induction ss arbitrary: i) simp_all

lemma sender_round_sends:
  assumes "ring_ok (sn_ring st)"
  shows "sn_ring (sender_round in_aton prm k outcome st) = snd (ring_take k (sn_ring st))"
    "sent (sender_round in_aton prm k outcome st)
      = sent st @ map (sample_datagram in_aton prm) (delivered outcome 0 (fst (ring_take k (sn_ring st))))"
proof -
  let ?c = "sn_ring st"
  have u: "unat (of_nat (unread ?c) :: u32) = unread ?c"
    using samples_to_copy_unread [OF assms] by (metis unat_of_nat_le order_refl)
  consider "pending ?c = []" | "pending ?c \<noteq> []" "\<not> k (of_nat (unread ?c * sizeof_sample_t))"
    | "pending ?c \<noteq> []" "k (of_nat (unread ?c * sizeof_sample_t))" by blast
  then have "sn_ring (sender_round in_aton prm k outcome st) = snd (ring_take k ?c)
    \<and> sent (sender_round in_aton prm k outcome st)
      = sent st @ map (sample_datagram in_aton prm) (delivered outcome 0 (fst (ring_take k ?c)))"
  proof cases
    case 3
    then have "(of_nat (unread ?c) :: u32) > 0"
      using u length_pending [of ?c] by (metis length_0_conv unat_0 word_gt_0)
    then show ?thesis
      using 3 assms u by (simp add: sender_round_def read_nsamples_ok ring_take_def send_samples_sent)
  qed (use assms in \<open>simp_all add: sender_round_def ring_take_def read_nsamples_empty read_nsamples_no_memory\<close>)
  then show "sn_ring (sender_round in_aton prm k outcome st) = snd (ring_take k ?c)"
    "sent (sender_round in_aton prm k outcome st)
      = sent st @ map (sample_datagram in_aton prm) (delivered outcome 0 (fst (ring_take k ?c)))"
    by blast+
qed

section \<open>Runs of the thread\<close>

text \<open>A run as the events of the ring it reads, up to the stop request.\<close>

fun ring_events :: "sender_event list \<Rightarrow> (u32 list \<times> u64 \<times> u32, u32 \<Rightarrow> bool) fifo_event list" where
  "ring_events [] = []"
| "ring_events (Round k outcome # evs) = Take k # ring_events evs"
| "ring_events (Adc v t q # evs) = Put (v, t, q) # ring_events evs"
| "ring_events (Should_stop # evs) = []"

fun lossless :: "sender_event \<Rightarrow> bool" where
  "lossless (Round k outcome) = (\<forall>i. outcome i = (True, True))"
| "lossless _ = True"

lemma sender_loop_ring:
  assumes "ring_ok (sn_ring st)" "\<forall>ev\<in>set evs. lossless ev"
  shows "sn_ring (sender_loop in_aton prm evs st)
      = snd (fifo_run ring_put ring_take (ring_events evs) (sn_ring st))"
    and "sent (sender_loop in_aton prm evs st) = sent st
      @ map (sample_datagram in_aton prm) (fst (fifo_run ring_put ring_take (ring_events evs) (sn_ring st)))"
  using assms
proof (induction evs arbitrary: st)
  case (Cons ev evs)
  {
    case 1
    show ?case
    proof (cases ev)
      case (Round k outcome)
      with 1 Cons.IH(1) [of "sender_round in_aton prm k outcome st"] sample_ring.take_invar show ?thesis
        by (simp add: sender_round_sends case_prod_unfold)
    next
      case (Adc v t q)
      with 1 Cons.IH(1) [of "st\<lparr>sn_ring := write_to_buffer v t q (sn_ring st)\<rparr>"] show ?thesis
        by (simp add: ring_put_def)
    qed simp
  next
    case 2
    show ?case
    proof (cases ev)
      case (Round k outcome)
      with 2 Cons.IH(2) [of "sender_round in_aton prm k outcome st"] sample_ring.take_invar show ?thesis
        by (simp add: sender_round_sends delivered_all case_prod_unfold)
    next
      case (Adc v t q)
      with 2 Cons.IH(2) [of "st\<lparr>sn_ring := write_to_buffer v t q (sn_ring st)\<rparr>"] show ?thesis
        by (simp add: ring_put_def)
    qed simp
  }
qed simp_all

section \<open>Properties\<close>

text \<open>C7: the sender delivers everything. Over any run of the thread in which the socket
  exists and takes every packet, every packet is allocated, and the ring never overruns, the
  datagrams sent followed by the packets of the samples still in the ring are the packets of
  the samples that were in the ring and of those the interrupt handler wrote before the
  stop request, one per sample, in order.\<close>

theorem sender_sends_every_sample:
  assumes "ring_ok (sn_ring st)" "\<forall>ev\<in>set evs. lossless ev"
    and "has_room ring_room ring_put ring_take (ring_events evs) (sn_ring st)"
    and "st' = main_loop in_aton prm True True evs st"
  shows "sent st' @ map (sample_datagram in_aton prm) (pending (sn_ring st'))
    = sent st @ map (sample_datagram in_aton prm)
        (pending (sn_ring st) @ map ring_elem (written (ring_events evs)))"
proof -
  have "sn_ring st' = snd (fifo_run ring_put ring_take (ring_events evs) (sn_ring st))"
    "sent st' = sent st
      @ map (sample_datagram in_aton prm) (fst (fifo_run ring_put ring_take (ring_events evs) (sn_ring st)))"
    using sender_loop_ring [OF assms(1,2)] assms(4) by (simp_all add: main_loop_def)
  then show ?thesis
    using sample_ring.run_order [OF assms(1,3)] by (simp flip: map_append)
qed

definition sender0 :: sender_state where
  "sender0 = \<lparr>sn_ring = ring0, sn_seq = 0, sent = []\<rparr>"

theorem sender_sends_every_sample_witness:
  "\<exists>st'. st' = main_loop (\<lambda>ip. 0x0100007F) default_params True True
      [Adc [1, 2, 3] 10 1, Adc [4, 5, 6] 20 2, Round (\<lambda>n. True) (\<lambda>i. (True, True)), Adc [7, 8, 9] 30 3] sender0
    \<and> sent st' @ map (sample_datagram (\<lambda>ip. 0x0100007F) default_params) (pending (sn_ring st'))
      = map (sample_datagram (\<lambda>ip. 0x0100007F) default_params)
          [mk_sample [1, 2, 3] 10 1, mk_sample [4, 5, 6] 20 2, mk_sample [7, 8, 9] 30 3]"
proof -
  let ?evs = "[Adc [1, 2, 3] 10 1, Adc [4, 5, 6] 20 2, Round (\<lambda>n. True) (\<lambda>i. (True, True)), Adc [7, 8, 9] 30 3]"
  let ?two = "ring_put ([4, 5, 6], 20, 2) (ring_put ([1, 2, 3], 10, 1) ring0)"
  have "ring_take (\<lambda>n. True) ?two = (pending ?two, ?two\<lparr>last_read := last_write ?two\<rparr>)"
    by (simp add: ring_put_def ring_take_def read_nsamples_ok pending_write unread_write CIRC_BUF_SIZE_def)
  then have "has_room ring_room ring_put ring_take (ring_events ?evs) ring0"
    by (simp add: ring_room_def ring_put_def unread_write CIRC_BUF_SIZE_def)
  then show ?thesis
    using sender_sends_every_sample [of sender0 ?evs, OF _ _ _ refl, of "\<lambda>ip. 0x0100007F" default_params]
    by (simp add: sender0_def ring_elem_def)
qed

end
