(* ===== verification/Receiver.thy ===== *)
theory Receiver
  imports Packet
begin

text \<open>
  The sink: src/kernel_sender/receiver/list.c (packet to JSON text) and main.c (arguments,
  socket, receive loop), and the channel extraction of src/interruption/userland_reader.c.
  Results of system calls are arguments, in the order the code makes the calls.
\<close>

section \<open>Channels\<close>

definition ntohpkt :: "packet_t \<Rightarrow> packet_t" where
  "ntohpkt pkt = pkt\<lparr>p_timestamp := swap_bytes (p_timestamp pkt), p_seq := swap_bytes (p_seq pkt)\<rparr>"

text \<open>A sample word is assembled byte by byte, its fourth byte is 0.\<close>

definition sample_word :: "u8 \<Rightarrow> u8 \<Rightarrow> u8 \<Rightarrow> u32" where
  "sample_word b0 b1 b2 = bytes_word [b0, b1, b2, 0]"

definition packet_channels :: "packet_t \<Rightarrow> u32 list" where
  "packet_channels pkt = (let s = p_samples pkt in
     [sample_word (s ! 2) (s ! 1) (s ! 0), sample_word (s ! 5) (s ! 4) (s ! 3),
      sample_word (s ! 8) (s ! 7) (s ! 6), sample_word (s ! 11) (s ! 10) (s ! 9)])"

definition sign_extend :: "u32 \<Rightarrow> u32" where
  "sign_extend sample = (if sample > 0x800000 then ((NOT sample + 1) AND 0x00FFFFFF) * (- 1) else sample)"

text \<open>The same two steps in userland_reader.c, on the bytes of \<^verbatim>\<open>data\<close>.\<close>

definition separate_channels :: "sample_t \<Rightarrow> u32 list" where
  "separate_channels samp = (let d = data_bytes samp in
     map (\<lambda>i. push_bit 16 (ucast (d ! i)) + push_bit 8 (ucast (d ! (i + 1))) + ucast (d ! (i + 2))) [0, 3, 6, 9])"

definition two_complement :: "u32 list \<Rightarrow> u32 list" where
  "two_complement channels =
     map (\<lambda>c. if c > 0x800000 then ((NOT c + 1) AND 0x00FFFFFF) * (- 1) else c) channels"

text \<open>\<^verbatim>\<open>getc\<close> at the end of the file gives -1, stored as 0xFF.\<close>

fun read_sample_bytes :: "nat \<Rightarrow> u8 list \<Rightarrow> u8 list \<times> u8 list" where
  "read_sample_bytes 0 f = ([], f)"
| "read_sample_bytes (Suc n) [] = (case read_sample_bytes n [] of (bs, f) \<Rightarrow> (0xFF # bs, f))"
| "read_sample_bytes (Suc n) (b # f) = (case read_sample_bytes n f of (bs, f') \<Rightarrow> (b # bs, f'))"

definition read_sample :: "u8 list \<Rightarrow> sample_t \<times> u8 list" where
  "read_sample f = (case read_sample_bytes sizeof_sample_t f of (bs, f') \<Rightarrow> (sample_of_bytes bs, f'))"

definition correct_sample :: "sample_t \<Rightarrow> sample_t" where
  "correct_sample samp = (let b = (\<lambda>k i. word_bytes 4 (s_data samp ! k) ! i) in
     samp\<lparr>s_data := [bytes_word [b 0 3, b 0 2, b 0 1, b 0 0], bytes_word [b 1 3, b 1 2, b 1 1, b 1 0],
                     bytes_word [b 2 3, b 2 2, b 2 1, b 2 0]]\<rparr>)"

text \<open>The reading loop of \<^verbatim>\<open>main\<close>: at most \<^verbatim>\<open>BUFFER_SIZE\<close> samples; \<^verbatim>\<open>feof\<close> is true only after a
  read has hit the end of the file.\<close>

fun read_channels :: "nat \<Rightarrow> bool \<Rightarrow> u8 list \<Rightarrow> u32 list list" where
  "read_channels 0 eof f = []"
| "read_channels (Suc n) eof f = (if eof then []
     else case read_sample f of (s, f') \<Rightarrow>
       two_complement (separate_channels s) # read_channels n (length f < sizeof_sample_t) f')"

definition userland_main :: "u8 list option \<Rightarrow> u32 list list option" where
  "userland_main proc = map_option (read_channels 250 False) proc"

section \<open>Writing a packet\<close>

abbreviation DQ :: char where
  "DQ \<equiv> CHR 0x22"

abbreviation NL :: char where
  "NL \<equiv> CHR 0x0A"

definition json_record :: "nat \<Rightarrow> nat \<Rightarrow> nat \<Rightarrow> int list \<Rightarrow> string" where
  "json_record node seq ts ch =
     [DQ] @ print_nat node @ '':'' @ print_nat seq @ [DQ] @ '':{'' @ [DQ] @ ''ts'' @ [DQ] @ '':'' @ print_nat ts
     @ '','' @ [DQ] @ ''1'' @ [DQ] @ '':'' @ print_int (ch ! 0)
     @ '','' @ [DQ] @ ''2'' @ [DQ] @ '':'' @ print_int (ch ! 1)
     @ '','' @ [DQ] @ ''3'' @ [DQ] @ '':'' @ print_int (ch ! 2)
     @ '','' @ [DQ] @ ''4'' @ [DQ] @ '': '' @ print_int (ch ! 3) @ ''}''"

text \<open>The text \<^verbatim>\<open>sprintf\<close> leaves in \<^verbatim>\<open>buff\<close>.\<close>

definition packet_text :: "packet_t \<Rightarrow> string" where
  "packet_text pkt = (let p = ntohpkt pkt; ch = map sign_extend (packet_channels pkt) in
     json_record (unat (p_id p)) (unat (p_seq p)) (unat (p_timestamp p)) (map sint ch))"

text \<open>One call of \<^verbatim>\<open>write\<close>: its result is the next of the given results, -1 for an error and
  otherwise the number of bytes that reach the file. No result left means that the call
  does not return.\<close>

fun do_write :: "string \<Rightarrow> u32 list \<times> string \<Rightarrow> (u32 \<times> u32 list \<times> string) option" where
  "do_write buf ([], file) = None"
| "do_write buf (r # rs, file) = Some (r, rs, if r = - 1 then file else file @ take (unat r) buf)"

text \<open>The loop that writes the whole text, from offset \<^verbatim>\<open>written\<close> on.\<close>

function write_loop :: "string \<Rightarrow> u32 \<Rightarrow> u32 list \<times> string \<Rightarrow> (u32 list \<times> string) option" where
  "write_loop buff wr (rs, file) =
     (if wr < of_nat (length buff)
      then (case rs of [] \<Rightarrow> None
        | r # rs' \<Rightarrow> (case do_write (drop (unat wr) buff) (rs, file) of
            None \<Rightarrow> None
          | Some (status, _, file') \<Rightarrow>
              if status = - 1 then Some (rs', file') else write_loop buff (wr + status) (rs', file')))
      else Some (rs, file))"
  by pat_completeness auto
termination
  by (relation "measure (\<lambda>(buff, wr, rs, file). length rs)") auto

definition write_json :: "packet_t \<Rightarrow> bool \<Rightarrow> u32 list \<times> string \<Rightarrow> (u32 list \<times> string) option" where
  "write_json pkt first out =
     (case do_write (if \<not> first then [CHR '','', NL] else [NL]) out of
        None \<Rightarrow> None
      | Some (_, rs, file) \<Rightarrow> write_loop (packet_text pkt) 0 (rs, file))"

section \<open>The program\<close>

record recv_opts =
  port :: u16
  iface :: "string option"
  move_file_to :: "string option"
  capacity :: u32
  output_json_file :: "string option"

definition default_opts :: recv_opts where
  "default_opts = \<lparr>port = 57844, iface = Some ''lo'', move_file_to = Some ''miavita_old'', capacity = 250,
     output_json_file = Some ''miavita.json''\<rparr>"

text \<open>The argument after the option, \<^verbatim>\<open>None\<close> for the NULL that ends \<^verbatim>\<open>argv\<close>.\<close>

definition next_arg :: "string list \<Rightarrow> string option" where
  "next_arg args = (case args of [] \<Rightarrow> None | a # _ \<Rightarrow> Some a)"

text \<open>\<^verbatim>\<open>parse_args\<close> on the arguments from \<^verbatim>\<open>argv[i]\<close> on. The result is \<^verbatim>\<open>None\<close> when the code hands NULL
  to \<^verbatim>\<open>atoi\<close>, otherwise the return value and the options.\<close>

function parse_args :: "string list \<Rightarrow> recv_opts \<Rightarrow> (bool \<times> recv_opts) option" where
  "parse_args [] opts = Some (True, opts)"
| "parse_args (a # rest) opts =
     (if a = ''-i'' then parse_args (drop 1 rest) (opts\<lparr>iface := next_arg rest\<rparr>)
      else if a = ''-p'' then
        (case next_arg rest of None \<Rightarrow> None
         | Some v \<Rightarrow> parse_args (drop 1 rest) (opts\<lparr>port := word_of_int (atoi v)\<rparr>))
      else if a = ''-c'' then
        (case next_arg rest of None \<Rightarrow> None
         | Some v \<Rightarrow> parse_args (drop 1 rest) (opts\<lparr>capacity := word_of_int (atoi v)\<rparr>))
      else if a = ''-j'' then parse_args (drop 1 rest) (opts\<lparr>output_json_file := next_arg rest\<rparr>)
      else if a = ''-o'' then parse_args (drop 1 rest) (opts\<lparr>move_file_to := next_arg rest\<rparr>)
      else Some (False, opts))"
  by pat_completeness auto
termination
  by (relation "measure (\<lambda>(args, opts). length args)") auto

text \<open>The interfaces \<^verbatim>\<open>getifaddrs\<close> lists.\<close>

record ifaddr =
  ifa_name :: string
  ifa_up :: bool
  ifa_inet :: bool
  ifa_addr :: "u32 option"

datatype bind_result = Bind_error | Bound u32 u16 | Unbound

text \<open>The interface that \<^verbatim>\<open>bind_socket\<close> binds to: the first one that is up, has an IPv4
  address and the given name.\<close>

fun find_interface :: "string \<Rightarrow> ifaddr list \<Rightarrow> u32 option" where
  "find_interface name [] = None"
| "find_interface name (iap # iaps) =
     (case ifa_addr iap of
        None \<Rightarrow> find_interface name iaps
      | Some a \<Rightarrow> if ifa_up iap \<and> ifa_inet iap \<and> ifa_name iap = name then Some a
          else find_interface name iaps)"

definition bind_socket :: "bool \<Rightarrow> bool \<Rightarrow> ifaddr list \<Rightarrow> string \<Rightarrow> u16 \<Rightarrow> bind_result" where
  "bind_socket created bind_ok addrs name prt =
     (if \<not> created then Bind_error
      else case find_interface name addrs of
        None \<Rightarrow> Unbound
      | Some a \<Rightarrow> if bind_ok then Bound a (swap_bytes prt) else Bind_error)"

definition bind_socket_ret :: "bind_result \<Rightarrow> nat" where
  "bind_socket_ret r = (case r of Bind_error \<Rightarrow> 0 | _ \<Rightarrow> 1)"

text \<open>\<^verbatim>\<open>open\<close> gives a descriptor or fails; the result is the descriptor used from then on and
  the output.\<close>

definition open_output_files :: "nat option \<Rightarrow> u32 list \<times> string \<Rightarrow> (nat \<times> u32 list \<times> string) option" where
  "open_output_files fd out = (case fd of
     None \<Rightarrow> Some (0, out)
   | Some n \<Rightarrow> map_option (\<lambda>(r, rs, file). (n, rs, file)) (do_write ''{'' out))"

datatype recv = Recv_error | Datagram "u8 list"

text \<open>The packet structure after \<^verbatim>\<open>memset\<close> and \<^verbatim>\<open>recvfrom\<close> of at most 25 bytes.\<close>

definition recv_packet :: "u8 list \<Rightarrow> packet_t" where
  "recv_packet bs = packet_of_bytes (take sizeof_packet_t (bs @ replicate sizeof_packet_t 0))"

text \<open>The receive loop. The first component of the result tells whether \<^verbatim>\<open>serve\<close> returned
  (after a \<^verbatim>\<open>recvfrom\<close> of 0 or less) or waits for the next datagram.\<close>

fun serve_loop :: "recv list \<Rightarrow> bool \<Rightarrow> u32 list \<times> string \<Rightarrow> (bool \<times> u32 list \<times> string) option" where
  "serve_loop [] first out = Some (False, out)"
| "serve_loop (Recv_error # evs) first out = Some (True, out)"
| "serve_loop (Datagram bs # evs) first out =
     (if bs = [] then Some (True, out)
      else Option.bind (write_json (recv_packet bs) first out) (serve_loop evs True))"

definition serve :: "nat option \<Rightarrow> recv list \<Rightarrow> u32 list \<times> string \<Rightarrow> (bool \<times> u32 list \<times> string) option" where
  "serve fd evs out = Option.bind (open_output_files fd out) (\<lambda>(n, out). serve_loop evs False out)"

datatype main_result = Usage_error | Segfault | Served "(bool \<times> u32 list \<times> string) option"

definition receiver_main :: "string list \<Rightarrow> bool \<Rightarrow> bool \<Rightarrow> ifaddr list \<Rightarrow> nat option \<Rightarrow> recv list
    \<Rightarrow> u32 list \<times> string \<Rightarrow> main_result" where
  "receiver_main args created bind_ok addrs fd evs out = (case parse_args args default_opts of
     None \<Rightarrow> Segfault
   | Some (ok, opts) \<Rightarrow>
       if \<not> ok then Usage_error
       else case iface opts of
         None \<Rightarrow> (if created \<and> (\<exists>a\<in>set addrs. ifa_addr a \<noteq> None \<and> ifa_up a \<and> ifa_inet a) then Segfault
                 else if created then Served (serve fd evs out) else Usage_error)
       | Some name \<Rightarrow> (if bind_socket_ret (bind_socket created bind_ok addrs name (port opts)) = 0 then Usage_error
                      else Served (serve fd evs out)))"

section \<open>The values of the channels\<close>

text \<open>A 24-bit two's complement value.\<close>

definition signed24 :: "nat \<Rightarrow> int" where
  "signed24 n = (if n < 0x800000 then int n else int n - 0x1000000)"

lemma unat_sample_word:
  "unat (sample_word b0 b1 b2) = 65536 * unat b2 + 256 * unat b1 + unat b0"
  using unat_bytes_word [of "[b0, b1, b2, 0]", where 'a = 32] by (simp add: sample_word_def)

lemma sample_word_less: "unat (sample_word b0 b1 b2) < 0x1000000"
  using unat_u8_less [of b0] unat_u8_less [of b1] unat_u8_less [of b2] by (simp add: unat_sample_word)

lemma sint_small: "- (2 ^ 31) \<le> i \<Longrightarrow> i < 2 ^ 31 \<Longrightarrow> sint (word_of_int i :: u32) = i"
  by (simp add: sint_sbintrunc' signed_take_bit_int_eq_self)

lemma sign_extend_positive:
  assumes "unat s \<le> 0x800000"
  shows "sint (sign_extend s) = int (unat s)"
proof -
  define n where "n = unat s"
  have "n \<le> 0x800000" using assms by (simp add: n_def)
  then have "sint (word_of_int (int n) :: u32) = int n" by (intro sint_small) simp_all
  moreover have "sign_extend s = word_of_int (int n)"
    using assms by (simp add: sign_extend_def word_less_nat_alt n_def)
  ultimately show ?thesis by (simp add: n_def)
qed

lemma sign_extend_negative:
  assumes "0x800000 < unat s" "unat s < 0x1000000"
  shows "sint (sign_extend s) = int (unat s) - 0x1000000"
proof -
  define n where "n = unat s"
  have "0x800000 < n" "n < 0x1000000" using assms by (simp_all add: n_def)
  then have n: "0x800000 < int n" "int n < 0x1000000" by simp_all
  have u: "uint s = int n" by (simp add: n_def)
  have "uint (take_bit 24 (- s)) = (- int n) mod 2 ^ 32 mod 2 ^ 24"
    unfolding unsigned_take_bit_eq by (simp add: take_bit_eq_mod uint_word_ariths u)
  also have "\<dots> = (- int n) mod 2 ^ 24"
    by (rule mod_mod_cancel) simp
  also have "\<dots> = 0x1000000 - int n"
    using n mod_pos_pos_trivial [of "0x1000000 - int n" "0x1000000"] by (simp add: mod_diff_left_eq)
  finally have t: "take_bit 24 (- s) = word_of_int (0x1000000 - int n)"
    by (metis word_of_int_uint)
  have "(NOT s + 1) AND 0x00FFFFFF = take_bit 24 (- s)"
    by (simp add: take_bit_eq_mask minus_eq_not_plus_1 mask_eq_exp_minus_1)
  also note t
  finally have "sign_extend s = word_of_int (int n - 0x1000000)"
    using assms by (simp add: sign_extend_def word_less_nat_alt)
  also have "sint \<dots> = int n - 0x1000000"
    using n by (intro sint_small) simp_all
  finally show ?thesis by (simp add: n_def)
qed

text \<open>The conversion is exact but for the most negative value, which stays positive.\<close>

lemma sign_extend_signed24:
  "unat s < 0x1000000 \<Longrightarrow> sint (sign_extend s) = (if unat s = 0x800000 then 0x800000 else signed24 (unat s))"
proof (cases "unat s \<le> 0x800000")
  case True
  have "int n = (if n = 0x800000 then 0x800000 else signed24 n)" if "n \<le> 0x800000" for n
    using that by (simp add: signed24_def)
  from this [OF True] show ?thesis
    unfolding sign_extend_positive [OF True] .
next
  case False
  then show "unat s < 0x1000000 \<Longrightarrow> ?thesis"
    by (simp only: sign_extend_negative signed24_def not_le) auto
qed

section \<open>Both readers agree\<close>

lemma separate_channels_words:
  assumes "sample_ok s"
  shows "separate_channels s = packet_channels \<lparr>p_timestamp = t, p_seq = q, p_samples = data_bytes s, p_id = i\<rparr>"
proof -
  have w: "push_bit 16 (ucast a) + push_bit 8 (ucast b) + ucast c = (sample_word c b a :: u32)" for a b c :: u8
  proof -
    have "unat (push_bit 16 (ucast a) + push_bit 8 (ucast b) + ucast c :: u32)
        = 65536 * unat a + 256 * unat b + unat c"
      using unat_u8_less [of a] unat_u8_less [of b] unat_u8_less [of c]
      by (simp add: push_bit_eq_mult unat_word_ariths unsigned_ucast_eq take_bit_nat_eq_self)
    then show ?thesis by (simp add: word_unat_eq_iff unat_sample_word)
  qed
  show ?thesis by (simp add: separate_channels_def packet_channels_def Let_def w numeral_2_eq_2)
qed

section \<open>From sample to text\<close>

lemma recv_packet_bytes: "packet_ok p \<Longrightarrow> recv_packet (packet_bytes p) = p"
  unfolding recv_packet_def by (rule packet_layout.dec_take)

text \<open>Splitting a text at the end of a run of digits.\<close>

lemma digit_run_eq:
  assumes "\<forall>c\<in>set xs. P c" "\<forall>c\<in>set ys. P c" "\<not> P a" "\<not> P b"
  shows "xs @ a # us = ys @ b # vs \<longleftrightarrow> xs = ys \<and> a = b \<and> us = vs"
proof -
  have "takeWhile P (xs @ a # us) = xs" "takeWhile P (ys @ b # vs) = ys"
    using assms by (simp_all add: takeWhile_append2)
  then show ?thesis by (metis append_eq_append_conv list.inject)
qed

lemma print_nat_run:
  assumes "\<not> is_digit a"
  shows "print_nat m @ a # us = print_nat n @ a # vs \<longleftrightarrow> m = n \<and> us = vs"
  using digit_run_eq [of "print_nat m" is_digit "print_nat n" a a us vs] assms print_nat_digits by auto

definition is_num_char :: "char \<Rightarrow> bool" where
  "is_num_char c \<longleftrightarrow> is_digit c \<or> c = CHR ''-''"

lemma print_int_num_chars: "c \<in> set (print_int i) \<Longrightarrow> is_num_char c"
  using print_nat_digits by (auto simp: print_int_def is_num_char_def split: if_splits)

lemma print_int_run:
  assumes "\<not> is_num_char a"
  shows "print_int i @ a # us = print_int j @ a # vs \<longleftrightarrow> i = j \<and> us = vs"
  using digit_run_eq [of "print_int i" is_num_char "print_int j" a a us vs] assms print_int_num_chars by auto

lemma json_separators [simp]:
  "\<not> is_digit CHR '':''" "\<not> is_digit DQ" "\<not> is_digit CHR '',''" "\<not> is_num_char CHR '',''" "\<not> is_num_char CHR ''}''"
  by (simp_all add: is_digit_def is_num_char_def)

lemma json_record_inject:
  "json_record i q t ch = json_record i' q' t' ch' \<longleftrightarrow>
     i = i' \<and> q = q' \<and> t = t' \<and> ch ! 0 = ch' ! 0 \<and> ch ! 1 = ch' ! 1 \<and> ch ! 2 = ch' ! 2 \<and> ch ! 3 = ch' ! 3"
  by (simp add: json_record_def print_nat_run print_int_run)

section \<open>Writing all of it\<close>

text \<open>Results of \<^verbatim>\<open>write\<close> that together take a text of \<^verbatim>\<open>n\<close> bytes, in any pieces.\<close>

fun complete_writes :: "nat \<Rightarrow> u32 list \<Rightarrow> bool" where
  "complete_writes n [] = (n = 0)"
| "complete_writes n (r # rs) = (r \<noteq> - 1 \<and> r \<noteq> 0 \<and> unat r \<le> n \<and> complete_writes (n - unat r) rs)"

declare write_loop.simps [simp del]

lemma complete_writes_0 [simp]: "complete_writes 0 rs \<longleftrightarrow> rs = []"
  by (cases rs) (auto simp: unat_eq_zero)

lemma write_loop_complete:
  assumes "complete_writes (length buff - unat wr) rs" "unat wr \<le> length buff" "length buff < 2 ^ 32"
  shows "write_loop buff wr (rs @ rest, out) = Some (rest, out @ drop (unat wr) buff)"
  using assms
proof (induction rs arbitrary: wr out)
  case Nil
  then show ?case
    by (subst write_loop.simps) (simp add: word_less_nat_alt unat_of_nat take_bit_nat_eq_self)
next
  case (Cons r rs)
  have r: "r \<noteq> - 1" "r \<noteq> 0" "unat r \<le> length buff - unat wr" "complete_writes (length buff - unat wr - unat r) rs"
    using Cons.prems by simp_all
  then have "0 < unat r" by (simp add: unat_gt_0)
  then have less: "wr < of_nat (length buff)"
    using r Cons.prems by (simp add: word_less_nat_alt unat_of_nat take_bit_nat_eq_self)
  have sum: "unat (wr + r) = unat wr + unat r"
    using r Cons.prems by (simp add: unat_word_ariths)
  have "write_loop buff (wr + r) (rs @ rest, out @ take (unat r) (drop (unat wr) buff))
      = Some (rest, (out @ take (unat r) (drop (unat wr) buff)) @ drop (unat (wr + r)) buff)"
    using r Cons.prems by (intro Cons.IH) (simp_all add: sum)
  moreover have "take (unat r) (drop (unat wr) buff) @ drop (unat (wr + r)) buff = drop (unat wr) buff"
    by (simp add: sum split_at)
  ultimately show ?case
    using less r(1) by (subst write_loop.simps) simp
qed

section \<open>Properties\<close>

lemma length_print_sint: "length (print_int (sint (w :: u32))) \<le> 11"
proof -
  have "- (2 ^ 31) \<le> sint w" "sint w < 2 ^ 31" using sint_greater_eq [of w] sint_less [of w] by simp_all
  then have "nat (- sint w) < 10 ^ 10" "nat (sint w) < 10 ^ 10" by simp_all
  then show ?thesis
    using length_print_nat [of "nat (- sint w)" 10] length_print_nat [of "nat (sint w)" 10]
    by (simp add: print_int_def)
qed

lemma length_packet_channels [simp]: "length (packet_channels pkt) = 4"
  by (simp add: packet_channels_def Let_def)

lemma length_packet_text: "length (packet_text pkt) \<le> 109"
proof -
  have "unat (p_id pkt) < 10 ^ 3" using unat_u8_less [of "p_id pkt"] by simp
  then have i: "length (print_nat (unat (p_id pkt))) \<le> 3" by (rule length_print_nat) simp
  have "unat (swap_bytes (p_seq pkt)) < 10 ^ 10" using unat_u32_less [of "swap_bytes (p_seq pkt)"] by simp
  then have q: "length (print_nat (unat (swap_bytes (p_seq pkt)))) \<le> 10" by (rule length_print_nat) simp
  have "unat (swap_bytes (p_timestamp pkt)) < 2 ^ LENGTH(64)" by (rule unsigned_less)
  then have "unat (swap_bytes (p_timestamp pkt)) < 10 ^ 20" by simp
  then have t: "length (print_nat (unat (swap_bytes (p_timestamp pkt)))) \<le> 20" by (rule length_print_nat) simp
  show ?thesis
    using i q t length_print_sint [of "sign_extend (packet_channels pkt ! 0)"]
      length_print_sint [of "sign_extend (packet_channels pkt ! 1)"]
      length_print_sint [of "sign_extend (packet_channels pkt ! 2)"]
      length_print_sint [of "sign_extend (packet_channels pkt ! 3)"]
    by (simp add: packet_text_def json_record_def ntohpkt_def Let_def)
qed

text \<open>C26: every packet text is written whole. The separator, a newline or a comma and a newline, is written by one call
  whose result is not looked at: it may fail, or write any part of it. Then, whatever pieces \<^verbatim>\<open>write\<close> accepts, as long as
  together they take the text and none fails, the loop ends with each byte of the text appended once and in order, and no further
  call made.\<close>

theorem write_json_writes_all:
  assumes "sep = (if first then [NL] else [CHR '','', NL])" "r = - 1 \<or> unat r \<le> length sep"
    and "complete_writes (length (packet_text pkt)) rs"
  shows "write_json pkt first (r # rs, out) = Some ([], out @ (if r = - 1 then [] else take (unat r) sep) @ packet_text pkt)"
  using write_loop_complete [of "packet_text pkt" 0 rs "[]"] assms length_packet_text [of pkt]
  by (simp add: write_json_def)

definition packet0 :: packet_t where
  "packet0 = \<lparr>p_timestamp = 0, p_seq = 0, p_samples = replicate 12 0, p_id = 7\<rparr>"

lemma packet0_length: "length (packet_text packet0) = 39"
  by code_simp

theorem write_json_writes_all_witness:
  "write_json packet0 True ([1, 30, 9], ''{'') = Some ([], ''{'' @ [NL] @ packet_text packet0) \<and>
    write_json packet0 False ([2, 39], ''{'') = Some ([], ''{'' @ [CHR '','', NL] @ packet_text packet0) \<and>
    write_json packet0 False ([1, 39], ''{'') = Some ([], ''{'' @ [CHR '',''] @ packet_text packet0)"
  using write_json_writes_all [OF refl, of 1 True packet0 "[30, 9]" "''{''"] write_json_writes_all [OF refl, of 2 False packet0 "[39]" "''{''"]
    write_json_writes_all [OF refl, of 1 False packet0 "[39]" "''{''"] by (simp add: packet0_length)

text \<open>C40: the text of a packet with its terminating zero fits the 2048 bytes of \<^verbatim>\<open>buff\<close>:
  it never has more than 109 characters, so \<^verbatim>\<open>sprintf\<close> stays in bounds.\<close>

theorem sprintf_in_bounds:
  "length (packet_text pkt) \<le> 109 \<and> length (packet_text pkt) + 1 \<le> 2048"
  using length_packet_text [of pkt] by simp

text \<open>C25: the value printed for a channel is the two's complement reading of its 24 bits,
  with one exception: the most negative reading 0x800000 is printed as +8388608, since the
  comparison is strict.\<close>

theorem printed_channel_value:
  assumes "k < 4" "packet_ok pkt"
    and "n = 65536 * unat (p_samples pkt ! (3 * k)) + 256 * unat (p_samples pkt ! (3 * k + 1))
      + unat (p_samples pkt ! (3 * k + 2))"
  shows "sint (map sign_extend (packet_channels pkt) ! k) = (if n = 0x800000 then 0x800000 else signed24 n)"
proof -
  have "unat (packet_channels pkt ! k) = n"
  proof -
    consider "k = 0" | "k = 1" | "k = 2" | "k = 3" using assms(1) by linarith
    then show ?thesis
      using assms(3) by cases (simp_all add: packet_channels_def Let_def unat_sample_word numeral_2_eq_2)
  qed
  moreover have "n < 0x1000000"
    using assms(3) unat_u8_less [of "p_samples pkt ! (3 * k)"] unat_u8_less [of "p_samples pkt ! (3 * k + 1)"]
      unat_u8_less [of "p_samples pkt ! (3 * k + 2)"] by simp
  ultimately show ?thesis using assms(1) by (simp add: sign_extend_signed24)
qed

theorem printed_channel_value_witness:
  "sint (map sign_extend (packet_channels (packet0\<lparr>p_samples := [0xFF, 0xFF, 0xFE, 0x80, 0, 0, 0, 0, 1, 0, 0, 0]\<rparr>)) ! 0) = - 2"
  using printed_channel_value [of 0 "packet0\<lparr>p_samples := [0xFF, 0xFF, 0xFE, 0x80, 0, 0, 0, 0, 1, 0, 0, 0]\<rparr>", OF _ _ refl]
  by (simp add: packet_ok_def signed24_def)

lemma sign_extend_inject:
  assumes "unat s < 0x1000000" "unat t < 0x1000000" "sint (sign_extend s) = sint (sign_extend t)"
  shows "s = t"
proof -
  have "m = n" if "m < 0x1000000" "n < 0x1000000"
    "(if m = 0x800000 then 0x800000 else signed24 m) = (if n = 0x800000 then 0x800000 else signed24 n)" for m n
    using that by (auto simp: signed24_def split: if_splits)
  from this [of "unat s" "unat t"] assms show ?thesis
    by (simp add: sign_extend_signed24 word_unat_eq_iff)
qed

lemma sample_word_inject: "sample_word a b c = sample_word a' b' c' \<longleftrightarrow> a = a' \<and> b = b' \<and> c = c'"
proof
  assume "sample_word a b c = sample_word a' b' c'"
  then have "word_bytes 4 (sample_word a b c) = word_bytes 4 (sample_word a' b' c')" by simp
  then show "a = a' \<and> b = b' \<and> c = c'"
    unfolding sample_word_def by (simp add: word_bytes_bytes_word_n del: word_bytes_numeral bytes_word.simps)
qed simp

text \<open>C19: no information is lost in the text: two packets with the same JSON text are the
  same packet, field by field and byte by byte.\<close>

theorem packet_text_determines_packet:
  assumes "packet_ok p" "packet_ok p'" "packet_text p = packet_text p'"
  shows "p = p'"
proof -
  have eq: "unat (p_id p) = unat (p_id p')" "unat (swap_bytes (p_seq p)) = unat (swap_bytes (p_seq p'))"
    "unat (swap_bytes (p_timestamp p)) = unat (swap_bytes (p_timestamp p'))"
    using assms(3) unfolding packet_text_def Let_def json_record_inject ntohpkt_def by auto
  have ch: "map sint (map sign_extend (packet_channels p)) ! k = map sint (map sign_extend (packet_channels p')) ! k"
    if "k \<in> {0, 1, 2, 3}" for k
    using assms(3) that unfolding packet_text_def Let_def json_record_inject by auto
  have "p_id p = p_id p'" using eq(1) by (simp add: word_unat_eq_iff)
  moreover have "p_seq p = p_seq p'"
  proof -
    have "swap_bytes (p_seq p) = swap_bytes (p_seq p')" using eq(2) by (simp add: word_unat_eq_iff)
    then have "swap_bytes (swap_bytes (p_seq p)) = swap_bytes (swap_bytes (p_seq p'))" by simp
    then show ?thesis by (simp add: swap_bytes_swap_bytes)
  qed
  moreover have "p_timestamp p = p_timestamp p'"
  proof -
    have "swap_bytes (p_timestamp p) = swap_bytes (p_timestamp p')" using eq(3) by (simp add: word_unat_eq_iff)
    then have "swap_bytes (swap_bytes (p_timestamp p)) = swap_bytes (swap_bytes (p_timestamp p'))" by simp
    then show ?thesis by (simp add: swap_bytes_swap_bytes)
  qed
  moreover have "p_samples p = p_samples p'"
  proof (rule nth_equalityI)
    show len: "length (p_samples p) = length (p_samples p')"
      using assms(1,2) by (simp add: packet_ok_def)
    have "packet_channels p ! k = packet_channels p' ! k" if "k \<in> {0, 1, 2, 3}" for k
      using ch [OF that] that
      by (intro sign_extend_inject) (auto simp: packet_channels_def Let_def intro: sample_word_less)
    from this [of 0] this [of 1] this [of 2] this [of 3]
    have "\<forall>i \<in> {0, 1, 2, 3, 4, 5, 6, 7, 8, 9, 10, 11}. p_samples p ! i = p_samples p' ! i"
      by (simp add: packet_channels_def Let_def sample_word_inject)
    moreover have "i \<in> {0, 1, 2, 3, 4, 5, 6, 7, 8, 9, 10, 11}" if "i < 12" for i :: nat
      using that by simp arith
    ultimately show "p_samples p ! i = p_samples p' ! i" if "i < length (p_samples p)" for i
      using that assms(1) unfolding packet_ok_def by metis
  qed
  ultimately show ?thesis by (intro packet_t.equality) simp_all
qed

theorem packet_text_determines_packet_witness:
  "packet_text packet0 \<noteq> packet_text (packet0\<lparr>p_seq := 1\<rparr>)"
  using packet_text_determines_packet [of packet0 "packet0\<lparr>p_seq := 1\<rparr>"]
  by (auto simp: packet_ok_def packet0_def)

text \<open>The output of the receive loop, and results of \<^verbatim>\<open>write\<close> that accept each call whole.\<close>

fun serve_text :: "bool \<Rightarrow> u8 list list \<Rightarrow> string" where
  "serve_text first [] = []"
| "serve_text first (d # ds) =
     (if first then [NL] else [CHR '','', NL]) @ packet_text (recv_packet d) @ serve_text True ds"

fun serve_results :: "bool \<Rightarrow> u8 list list \<Rightarrow> u32 list" where
  "serve_results first [] = []"
| "serve_results first (d # ds) =
     (if first then 1 else 2) # of_nat (length (packet_text (recv_packet d))) # serve_results True ds"

lemma packet_text_result:
  "complete_writes (length (packet_text p)) [of_nat (length (packet_text p))]"
proof -
  have len: "length (packet_text p) \<le> 109" "0 < length (packet_text p)"
    using length_packet_text [of p] by (simp_all add: packet_text_def json_record_def Let_def)
  have u: "unat (of_nat (length (packet_text p)) :: u32) = length (packet_text p)"
    using len(1) by (simp add: unat_of_nat take_bit_nat_eq_self)
  have "(of_nat (length (packet_text p)) :: u32) \<noteq> - 1"
  proof
    assume "(of_nat (length (packet_text p)) :: u32) = - 1"
    then have "length (packet_text p) = unat (- 1 :: u32)" using u by simp
    then show False using len by (simp add: unsigned_minus_1_eq_mask mask_eq_exp_minus_1)
  qed
  moreover have "(of_nat (length (packet_text p)) :: u32) \<noteq> 0" using u len(2) by (metis unat_0 less_numeral_extra(3))
  ultimately show ?thesis using u by simp
qed

lemma write_json_full:
  "write_json p first ((if first then 1 else 2) # of_nat (length (packet_text p)) # rs, out)
    = Some (rs, out @ (if first then [NL] else [CHR '','', NL]) @ packet_text p)"
  using write_loop_complete [of "packet_text p" 0 "[of_nat (length (packet_text p))]" rs]
    packet_text_result [of p] length_packet_text [of p]
  by (simp add: write_json_def)

lemma serve_loop_text:
  "\<forall>d\<in>set ds. d \<noteq> [] \<Longrightarrow> serve_loop (map Datagram ds) first (serve_results first ds @ rs, out)
    = Some (False, rs, out @ serve_text first ds)"
  by (induction ds arbitrary: first out) (auto simp: write_json_full)

text \<open>what the sink writes. For every sequence of datagrams, when every \<^verbatim>\<open>write\<close> is
  accepted whole, the file is an opening brace, then for the first packet a comma, a newline
  and its text, and for every later packet a newline and its text: the separator comes before
  the first record and is missing between the others, and the brace is never closed.\<close>

theorem serve_output:
  assumes "\<forall>d\<in>set ds. d \<noteq> []"
  shows "serve (Some fd) (map Datagram ds) (1 # serve_results False ds, out)
    = Some (False, [], out @ ''{'' @ serve_text False ds)"
  using serve_loop_text [OF assms, of False "[]" "out @ ''{''"] by (simp add: serve_def open_output_files_def)

theorem serve_output_witness:
  "serve (Some 3) (map Datagram [[1], [2]]) (1 # serve_results False [[1], [2]], [])
    = Some (False, [], ''{'' @ [CHR '','', NL] @ packet_text (recv_packet [1]) @ [NL] @ packet_text (recv_packet [2]))"
  using serve_output [of "[[1], [2]]" 3 "[]"] by simp

text \<open>a datagram without data ends the sink: \<^verbatim>\<open>recvfrom\<close> returns 0 for it, which
  \<^verbatim>\<open>serve\<close> takes for an error, so nothing after it is received, whatever came before.\<close>

theorem empty_datagram_ends_sink:
  assumes "\<forall>d\<in>set ds. d \<noteq> []"
  shows "serve (Some fd) (map Datagram ds @ Datagram [] # evs) (1 # serve_results False ds, out)
    = Some (True, [], out @ ''{'' @ serve_text False ds)"
proof -
  have "serve_loop (map Datagram ds @ Datagram [] # evs) first (serve_results first ds, out)
      = Some (True, [], out @ serve_text first ds)" for first out
    using assms by (induction ds arbitrary: first out) (auto simp: write_json_full)
  then show ?thesis by (simp add: serve_def open_output_files_def)
qed

theorem empty_datagram_ends_sink_witness:
  "serve (Some 3) [Datagram [], Datagram [1]] ([1], []) = Some (True, [], ''{'')"
  using empty_datagram_ends_sink [of "[]" 3 "[Datagram [1]]" "[]"] by simp

text \<open>the two programs that print samples agree: on the same twelve bytes the test reader
  of the proc file and the sink compute the same four values.\<close>

theorem userland_reader_agrees:
  assumes "sample_ok s" "p_samples pkt = data_bytes s"
  shows "two_complement (separate_channels s) = map sign_extend (packet_channels pkt)"
  using separate_channels_words [OF assms(1), of "p_timestamp pkt" "p_seq pkt" "p_id pkt"] assms(2)
  by (simp add: two_complement_def sign_extend_def packet_channels_def Let_def)

theorem userland_reader_agrees_witness:
  "two_complement (separate_channels (mk_sample [0x010203FF, 4, 5] 0 0))
    = map sign_extend (packet_channels (packet0\<lparr>p_samples := data_bytes (mk_sample [0x010203FF, 4, 5] 0 0)\<rparr>))"
  by (rule userland_reader_agrees) (simp_all add: sample_ok_def mk_sample_def)

end
