(* ===== verification/Klist.thy ===== *)
theory Klist
  imports Mia_Prelude
begin

text \<open>
  The doubly linked list of src/fred_framework/klist.c. The list lives in a heap: nodes and list
  heads are found by address, address 0 is NULL and a NULL or dangling dereference is \<^term>\<open>None\<close>.
  kmalloc takes its addresses from a supply in the heap; 0, or an empty supply, is a failed
  allocation. The relation \<^verbatim>\<open>klists h L\<close> says which sequence of (node, data) pairs every list
  head of \<^verbatim>\<open>L\<close> stands for; each operation is shown to be the expected operation on one of these
  sequences that leaves the others alone.

  An iterator is a value, not a heap object: no two pointers to one iterator exist in the sources.
  Loops are \<^verbatim>\<open>run\<close> computations: \<^term>\<open>None\<close> when they do not end, \<^term>\<open>Some None\<close> when they end
  in an oops.
\<close>

section \<open>The heap\<close>

record klist_node =
  n_data :: addr
  n_front :: addr
  n_back :: addr

record klist =
  k_first :: addr
  k_last :: addr

record kheap =
  nodes :: "addr \<rightharpoonup> klist_node"
  lists :: "addr \<rightharpoonup> klist"
  kmem :: "addr list"

record klist_iterator =
  it_list :: addr
  it_cur :: addr

type_synonym 'a run = "'a option option"

definition run_bind :: "'a run \<Rightarrow> ('a \<Rightarrow> 'b run) \<Rightarrow> 'b run" where
  "run_bind m f = Option.bind m (\<lambda>r. case r of None \<Rightarrow> Some None | Some x \<Rightarrow> f x)"

lemma run_bind_simps [simp]:
  "run_bind None f = None" "run_bind (Some None) f = Some None" "run_bind (Some (Some x)) f = f x"
  by (simp_all add: run_bind_def)

definition deref :: "(addr \<rightharpoonup> 'a) \<Rightarrow> addr \<Rightarrow> 'a option" where
  "deref m p = (if p = NULL then None else m p)"

lemma deref_simps [simp]: "deref m NULL = None" "p \<noteq> NULL \<Longrightarrow> deref m p = m p"
  by (simp_all add: deref_def)

fun kmalloc :: "'a kheap_scheme \<Rightarrow> addr \<times> 'a kheap_scheme" where
  "kmalloc h = (case kmem h of [] \<Rightarrow> (NULL, h) | p # ps \<Rightarrow> (p, h\<lparr>kmem := ps\<rparr>))"


section \<open>The operations\<close>

definition free_klist_node :: "addr \<Rightarrow> 'a kheap_scheme \<Rightarrow> 'a kheap_scheme" where
  "free_klist_node kn h = (if kn = NULL then h\<lparr>nodes := (nodes h)(kn := None)\<rparr> else h)"

definition make_klist_node :: "addr \<Rightarrow> 'a kheap_scheme \<Rightarrow> addr \<times> 'a kheap_scheme" where
  "make_klist_node d h = (case kmalloc h of (kn, h) \<Rightarrow>
     if kn = NULL then (NULL, h)
     else (kn, h\<lparr>nodes := (nodes h)(kn \<mapsto> \<lparr>n_data = d, n_front = NULL, n_back = NULL\<rparr>)\<rparr>))"

definition make_klist :: "'a kheap_scheme \<Rightarrow> addr \<times> 'a kheap_scheme" where
  "make_klist h = (case kmalloc h of (kl, h) \<Rightarrow>
     if kl = NULL then (NULL, h)
     else (kl, h\<lparr>lists := (lists h)(kl \<mapsto> \<lparr>k_first = NULL, k_last = NULL\<rparr>)\<rparr>))"

text \<open>The assignments through a node pointer, and through a list pointer.\<close>

definition set_front :: "addr \<Rightarrow> addr \<Rightarrow> 'a kheap_scheme \<Rightarrow> 'a kheap_scheme option" where
  "set_front p v h = do { n \<leftarrow> deref (nodes h) p; Some (h\<lparr>nodes := (nodes h)(p \<mapsto> n\<lparr>n_front := v\<rparr>)\<rparr>) }"

definition set_back :: "addr \<Rightarrow> addr \<Rightarrow> 'a kheap_scheme \<Rightarrow> 'a kheap_scheme option" where
  "set_back p v h = do { n \<leftarrow> deref (nodes h) p; Some (h\<lparr>nodes := (nodes h)(p \<mapsto> n\<lparr>n_back := v\<rparr>)\<rparr>) }"

definition set_first :: "addr \<Rightarrow> addr \<Rightarrow> 'a kheap_scheme \<Rightarrow> 'a kheap_scheme option" where
  "set_first l v h = do { k \<leftarrow> deref (lists h) l; Some (h\<lparr>lists := (lists h)(l \<mapsto> k\<lparr>k_first := v\<rparr>)\<rparr>) }"

definition set_last :: "addr \<Rightarrow> addr \<Rightarrow> 'a kheap_scheme \<Rightarrow> 'a kheap_scheme option" where
  "set_last l v h = do { k \<leftarrow> deref (lists h) l; Some (h\<lparr>lists := (lists h)(l \<mapsto> k\<lparr>k_last := v\<rparr>)\<rparr>) }"

definition add_klist_node_to_klist :: "addr \<Rightarrow> addr \<Rightarrow> 'a kheap_scheme \<Rightarrow> 'a kheap_scheme option" where
  "add_klist_node_to_klist kl kn h = do {
     k \<leftarrow> deref (lists h) kl;
     if k_first k = NULL then do { h \<leftarrow> set_last kl kn h; set_first kl kn h }
     else do {
       h \<leftarrow> set_back kn (k_last k) h;
       h \<leftarrow> set_front (k_last k) kn h;
       set_last kl kn h } }"

definition remove_klist_node_from_klist :: "addr \<Rightarrow> addr \<Rightarrow> 'a kheap_scheme \<Rightarrow> 'a kheap_scheme option" where
  "remove_klist_node_from_klist kl kn h =
    (if kn = NULL \<or> kl = NULL then Some h
     else do {
       k \<leftarrow> deref (lists h) kl;
       if k_first k = kn \<and> kn = k_last k then do {
         h \<leftarrow> set_last kl NULL h;
         h \<leftarrow> set_first kl NULL h;
         Some (free_klist_node kn h) }
       else if k_first k = kn then do {
         n \<leftarrow> deref (nodes h) kn;
         h \<leftarrow> set_first kl (n_front n) h;
         h \<leftarrow> set_back (n_front n) NULL h;
         Some (free_klist_node kn h) }
       else if k_last k = kn then do {
         n \<leftarrow> deref (nodes h) kn;
         h \<leftarrow> set_last kl (n_back n) h;
         h \<leftarrow> set_front (n_back n) NULL h;
         Some (free_klist_node kn h) }
       else do {
         n \<leftarrow> deref (nodes h) kn;
         h \<leftarrow> set_front (n_back n) (n_front n) h;
         n \<leftarrow> deref (nodes h) kn;
         h \<leftarrow> set_back (n_front n) (n_back n) h;
         Some (free_klist_node kn h) } })"

text \<open>The callback of \<^verbatim>\<open>free_klist\<close> is \<^term>\<open>None\<close> when the caller passes NULL.\<close>

partial_function (option) free_klist_loop ::
  "(addr \<Rightarrow> 'a kheap_scheme \<Rightarrow> 'a kheap_scheme run) option \<Rightarrow> addr \<Rightarrow> addr \<Rightarrow> 'a kheap_scheme \<Rightarrow> 'a kheap_scheme run"
where
  "free_klist_loop cb kl it h =
    (if it = NULL then Some (Some h)
     else case deref (nodes h) it of
       None \<Rightarrow> Some None
     | Some n \<Rightarrow> (case set_first kl (n_front n) h of
         None \<Rightarrow> Some None
       | Some h \<Rightarrow> Option.bind (case cb of None \<Rightarrow> Some (Some h) | Some f \<Rightarrow> f (n_data n) h) (\<lambda>r. case r of
           None \<Rightarrow> Some None
         | Some h \<Rightarrow> let h = h\<lparr>nodes := (nodes h)(it := None)\<rparr> in
             (case deref (lists h) kl of
               None \<Rightarrow> Some None
             | Some k \<Rightarrow> free_klist_loop cb kl (k_first k) h))))"

definition free_klist ::
  "(addr \<Rightarrow> 'a kheap_scheme \<Rightarrow> 'a kheap_scheme run) option \<Rightarrow> addr \<Rightarrow> 'a kheap_scheme \<Rightarrow> 'a kheap_scheme run" where
  "free_klist cb kl h =
    (if kl = NULL then Some (Some h)
     else case deref (lists h) kl of
       None \<Rightarrow> Some None
     | Some k \<Rightarrow> run_bind (free_klist_loop cb kl (k_first k) h)
         (\<lambda>h. Some (Some (h\<lparr>lists := (lists h)(kl := None)\<rparr>))))"

subsection \<open>Iterators\<close>

definition make_klist_iterator :: "addr \<Rightarrow> 'a kheap_scheme \<Rightarrow> (klist_iterator option \<times> 'a kheap_scheme) option" where
  "make_klist_iterator kl h =
    (if kl = NULL then Some (None, h)
     else case kmalloc h of (p, h) \<Rightarrow>
       if p = NULL then Some (None, h)
       else do { k \<leftarrow> deref (lists h) kl; Some (Some \<lparr>it_list = kl, it_cur = k_first k\<rparr>, h) })"

definition klist_iterator_has_next :: "klist_iterator option \<Rightarrow> bool" where
  "klist_iterator_has_next ki = (case ki of None \<Rightarrow> False | Some i \<Rightarrow> it_cur i \<noteq> NULL)"

definition klist_iterator_next ::
  "klist_iterator option \<Rightarrow> 'a kheap_scheme \<Rightarrow> (addr \<times> klist_iterator option) option" where
  "klist_iterator_next ki h = (case ki of None \<Rightarrow> Some (NULL, None) | Some i \<Rightarrow>
     if it_cur i = NULL then Some (NULL, Some i)
     else do { n \<leftarrow> deref (nodes h) (it_cur i); Some (it_cur i, Some (i\<lparr>it_cur := n_front n\<rparr>)) })"

definition klist_iterator_peek :: "klist_iterator option \<Rightarrow> addr option" where
  "klist_iterator_peek ki = map_option it_cur ki"

definition klist_iterator_remove_current ::
  "klist_iterator option \<Rightarrow> 'a kheap_scheme \<Rightarrow> (addr \<times> klist_iterator option \<times> 'a kheap_scheme) option" where
  "klist_iterator_remove_current ki h = do {
     i \<leftarrow> ki;
     if it_cur i \<noteq> NULL then do {
       n \<leftarrow> deref (nodes h) (it_cur i);
       h \<leftarrow> remove_klist_node_from_klist (it_list i) (it_cur i) h;
       Some (n_data n, Some (i\<lparr>it_cur := n_front n\<rparr>), h) }
     else Some (NULL, Some i, h) }"

definition klist_iterator_insert_before ::
  "klist_iterator option \<Rightarrow> addr \<Rightarrow> 'a kheap_scheme \<Rightarrow> 'a kheap_scheme option" where
  "klist_iterator_insert_before ki d h = (case make_klist_node d h of (new, h) \<Rightarrow> do {
     i \<leftarrow> ki;
     k \<leftarrow> deref (lists h) (it_list i);
     h \<leftarrow> (if it_cur i = k_first k then set_first (it_list i) new h else Some h);
     h \<leftarrow> set_front new (it_cur i) h;
     c \<leftarrow> deref (nodes h) (it_cur i);
     h \<leftarrow> set_back new (n_back c) h;
     h \<leftarrow> (if n_back c \<noteq> NULL then set_front (n_back c) new h else Some h);
     set_back (it_cur i) new h })"

text \<open>
  The loops of the framework that look for a node all have one shape: while the iterator has a next
  element, look at the data of the current node; stop there, or advance. The test may itself oops.
  The result is the iterator where the loop stopped.
\<close>

partial_function (option) klist_scan ::
  "(addr \<Rightarrow> bool option) \<Rightarrow> 'a kheap_scheme \<Rightarrow> klist_iterator option \<Rightarrow> klist_iterator option run"
where
  "klist_scan test h it =
    (if \<not> klist_iterator_has_next it then Some (Some it)
     else case Option.bind (klist_iterator_peek it) (deref (nodes h)) of
       None \<Rightarrow> Some None
     | Some n \<Rightarrow> (case test (n_data n) of
         None \<Rightarrow> Some None
       | Some found \<Rightarrow> if found then Some (Some it)
           else (case klist_iterator_next it h of
             None \<Rightarrow> Some None
           | Some (_, it) \<Rightarrow> klist_scan test h it)))"


section \<open>What a list head stands for\<close>

text \<open>\<^verbatim>\<open>head_of xs e\<close> and \<^verbatim>\<open>tail_of b xs\<close>: the first and the last node of a segment, or the
  pointer beyond it when the segment is empty.\<close>

definition head_of :: "(addr \<times> addr) list \<Rightarrow> addr \<Rightarrow> addr" where
  "head_of xs e = (case xs of [] \<Rightarrow> e | x # _ \<Rightarrow> fst x)"

definition tail_of :: "addr \<Rightarrow> (addr \<times> addr) list \<Rightarrow> addr" where
  "tail_of b xs = (if xs = [] then b else fst (last xs))"

lemma head_of_simps [simp]:
  "head_of [] e = e" "head_of (x # xs) e = fst x" "head_of (xs @ ys) e = head_of xs (head_of ys e)"
  by (simp_all add: head_of_def split: list.split)

lemma tail_of_simps [simp]:
  "tail_of b [] = b" "tail_of b (x # xs) = tail_of (fst x) xs" "tail_of b (xs @ ys) = tail_of (tail_of b xs) ys"
  by (simp_all add: tail_of_def)

fun dll :: "(addr \<rightharpoonup> klist_node) \<Rightarrow> addr \<Rightarrow> (addr \<times> addr) list \<Rightarrow> addr \<Rightarrow> bool" where
  "dll ns b [] e = True"
| "dll ns b (x # xs) e = (fst x \<noteq> NULL \<and> ns (fst x) = Some \<lparr>n_data = snd x, n_front = head_of xs e, n_back = b\<rparr>
     \<and> dll ns (fst x) xs e)"

abbreviation node_set :: "(addr \<times> addr) list \<Rightarrow> addr set" where
  "node_set xs \<equiv> fst ` set xs"

lemma head_of_neq: "p \<notin> node_set xs \<Longrightarrow> p \<noteq> e \<Longrightarrow> head_of xs e \<noteq> p"
  by (cases xs) auto

lemma tail_of_neq: "p \<notin> node_set xs \<Longrightarrow> p \<noteq> b \<Longrightarrow> tail_of b xs \<noteq> p"
  by (auto simp: tail_of_def)

lemma dll_append: "dll ns b (xs @ ys) e \<longleftrightarrow> dll ns b xs (head_of ys e) \<and> dll ns (tail_of b xs) ys e"
  by (induction xs arbitrary: b) auto

lemma dll_frame:
  "\<forall>p\<in>node_set xs. ns' p = ns p \<Longrightarrow> dll ns' b xs e = dll ns b xs e"
  by (induction xs arbitrary: b) auto

lemma dll_upd [simp]: "p \<notin> node_set xs \<Longrightarrow> dll (ns(p := v)) b xs e = dll ns b xs e"
  by (rule dll_frame) auto

lemma dll_not_NULL: "dll ns b xs e \<Longrightarrow> NULL \<notin> node_set xs"
  by (induction xs arbitrary: b) auto

lemma dll_ends: "dll ns b xs e \<Longrightarrow> xs \<noteq> [] \<Longrightarrow> head_of xs c \<noteq> NULL \<and> tail_of c xs \<noteq> NULL"
  using dll_not_NULL [of ns b xs e] by (cases xs) (force simp: tail_of_def)+

lemma dll_nodes: "dll ns b xs e \<Longrightarrow> p \<in> node_set xs \<Longrightarrow> ns p \<noteq> None"
  by (induction xs arbitrary: b) auto

definition klist_at :: "'a kheap_scheme \<Rightarrow> addr \<Rightarrow> (addr \<times> addr) list \<Rightarrow> bool" where
  "klist_at h l xs = (l \<noteq> NULL \<and> lists h l = Some \<lparr>k_first = head_of xs NULL, k_last = tail_of NULL xs\<rparr>
     \<and> dll (nodes h) NULL xs NULL \<and> distinct (map fst xs))"

definition klists :: "'a kheap_scheme \<Rightarrow> (addr \<rightharpoonup> (addr \<times> addr) list) \<Rightarrow> bool" where
  "klists h L = ((\<forall>l xs. L l = Some xs \<longrightarrow> klist_at h l xs)
     \<and> (\<forall>l l' xs xs'. L l = Some xs \<longrightarrow> L l' = Some xs' \<longrightarrow> l \<noteq> l' \<longrightarrow> node_set xs \<inter> node_set xs' = {}))"

definition linked :: "(addr \<rightharpoonup> (addr \<times> addr) list) \<Rightarrow> addr set" where
  "linked L = (\<Union>xs\<in>ran L. node_set xs)"

lemma klists_at [dest]: "klists h L \<Longrightarrow> L l = Some xs \<Longrightarrow> klist_at h l xs"
  by (simp add: klists_def)

lemma linkedI: "L l = Some xs \<Longrightarrow> p \<in> node_set xs \<Longrightarrow> p \<in> linked L"
  by (auto simp: linked_def ran_def)

lemma not_linked: "p \<notin> linked L \<Longrightarrow> L l = Some xs \<Longrightarrow> p \<notin> node_set xs"
  using linkedI by metis

text \<open>The frame rule: an operation that writes the nodes of one list, or nodes of no list, and only the
  head of that list, leaves the others as they are.\<close>

lemma klists_update:
  assumes "klists h L" and "L l = Some xs" and "klist_at h' l xs'"
    and "node_set xs' \<subseteq> node_set xs \<union> F" and "F \<inter> linked L = {}"
    and "\<And>k. k \<noteq> l \<Longrightarrow> lists h' k = lists h k"
    and "\<And>p. p \<notin> node_set xs \<union> F \<Longrightarrow> nodes h' p = nodes h p"
  shows "klists h' (L(l \<mapsto> xs'))"
proof -
  have apart: "node_set ys \<inter> (node_set xs \<union> F) = {}" if "L k = Some ys" "k \<noteq> l" for k ys
    using assms(1,2,5) that linkedI [of L k ys] unfolding klists_def by blast
  have other: "klist_at h' k ys" if "L k = Some ys" "k \<noteq> l" for k ys
  proof -
    have "dll (nodes h') NULL ys NULL = dll (nodes h) NULL ys NULL"
      by (rule dll_frame) (use apart [OF that] assms(7) in blast)
    with klists_at [OF assms(1) that(1)] assms(6) [OF that(2)] show ?thesis by (simp add: klist_at_def)
  qed
  have "node_set ys \<inter> node_set xs' = {}" if "L k = Some ys" "k \<noteq> l" for k ys
    using apart [OF that] assms(4) by blast
  then show ?thesis
    using assms(1,3) other unfolding klists_def by (auto simp: Int_commute)
qed

lemma klists_new:
  assumes "klists h L" and "L l = None" and "klist_at h' l []"
    and "\<And>k. k \<noteq> l \<Longrightarrow> lists h' k = lists h k" and "nodes h' = nodes h"
  shows "klists h' (L(l \<mapsto> []))"
  using assms unfolding klists_def klist_at_def by auto

lemma klists_forget: "klists h L \<Longrightarrow> klists h (L(l := None))"
  unfolding klists_def by auto

lemma klists_cong:
  "klists h L \<Longrightarrow> nodes h' = nodes h \<Longrightarrow> lists h' = lists h \<Longrightarrow> klists h' L"
  by (simp add: klists_def klist_at_def)


text \<open>Addresses kmalloc has still to give are unused.\<close>

definition kmem_ok :: "'a kheap_scheme \<Rightarrow> bool" where
  "kmem_ok h = (distinct (filter (\<lambda>p. p \<noteq> NULL) (kmem h))
     \<and> (\<forall>p\<in>set (kmem h). p \<noteq> NULL \<longrightarrow> p \<notin> dom (nodes h) \<and> p \<notin> dom (lists h)))"

text \<open>The effect of pointer assignments: no node and no list appears or goes away, and nothing but
  nodes and lists changes.\<close>

definition relink :: "'a kheap_scheme \<Rightarrow> 'a kheap_scheme \<Rightarrow> bool" where
  "relink h h' = (kmem h' = kmem h \<and> kheap.more h' = kheap.more h
     \<and> dom (nodes h') = dom (nodes h) \<and> dom (lists h') = dom (lists h))"

lemma relink_refl [simp]: "relink h h"
  by (simp add: relink_def)

lemma relink_trans: "relink h h' \<Longrightarrow> relink h' h'' \<Longrightarrow> relink h h''"
  by (simp add: relink_def)

lemma relink_kmem_ok: "relink h h' \<Longrightarrow> kmem_ok h \<Longrightarrow> kmem_ok h'"
  by (simp add: kmem_ok_def relink_def)

lemma kmem_fresh:
  assumes "kmem_ok h" and "klists h L" and "p \<in> set (kmem h)" and "p \<noteq> NULL"
  shows "p \<notin> linked L" "L p = None" "nodes h p = None" "lists h p = None"
proof -
  show *: "nodes h p = None" "lists h p = None" using assms unfolding kmem_ok_def by auto
  have "nodes h p \<noteq> None" if "L l = Some xs" "p \<in> node_set xs" for l xs
    using klists_at [OF assms(2) that(1)] that(2) dll_nodes [of "nodes h" NULL xs NULL p] by (simp add: klist_at_def)
  then show "p \<notin> linked L" using * by (auto simp: linked_def ran_def)
  show "L p = None" using klists_at [OF assms(2), of p] *(2) by (cases "L p") (auto simp: klist_at_def)
qed

section \<open>The operations on the sequences\<close>

lemma make_klist_node_ok:
  assumes "kmem_ok h" and "klists h L" and "kmem h = p # ps" and "p \<noteq> NULL"
  obtains h' where "make_klist_node d h = (p, h')" and "klists h' L" and "kmem_ok h'" and "p \<notin> linked L"
    and "h' = h\<lparr>kmem := ps, nodes := (nodes h)(p \<mapsto> \<lparr>n_data = d, n_front = NULL, n_back = NULL\<rparr>)\<rparr>"
proof -
  let ?n = "\<lparr>n_data = d, n_front = NULL, n_back = NULL\<rparr>"
  let ?h = "h\<lparr>kmem := ps, nodes := (nodes h)(p \<mapsto> ?n)\<rparr>"
  have fresh: "p \<notin> linked L" using kmem_fresh [OF assms(1,2)] assms(3,4) by simp
  have "klist_at ?h l xs" if "L l = Some xs" for l xs
    using klists_at [OF assms(2) that] not_linked [OF fresh that] by (simp add: klist_at_def)
  then have "klists ?h L" using assms(2) unfolding klists_def by blast
  moreover have "kmem_ok ?h" using assms(1,3,4) by (auto simp: kmem_ok_def)
  moreover have "make_klist_node d h = (p, ?h)" using assms(3,4) by (simp add: make_klist_node_def)
  ultimately show thesis using that fresh by blast
qed

lemma make_klist_ok:
  assumes "kmem_ok h" and "klists h L" and "kmem h = l # ps" and "l \<noteq> NULL"
  obtains h' where "make_klist h = (l, h')" and "klists h' (L(l \<mapsto> []))" and "kmem_ok h'"
    and "h' = h\<lparr>kmem := ps, lists := (lists h)(l \<mapsto> \<lparr>k_first = NULL, k_last = NULL\<rparr>)\<rparr>"
proof -
  let ?h = "h\<lparr>kmem := ps, lists := (lists h)(l \<mapsto> \<lparr>k_first = NULL, k_last = NULL\<rparr>)\<rparr>"
  have "L l = None" using kmem_fresh [OF assms(1,2)] assms(3,4) by simp
  then have "klists ?h (L(l \<mapsto> []))"
    using assms(2,4) by (intro klists_new [of h]) (auto simp: klist_at_def)
  moreover have "kmem_ok ?h" using assms(1,3,4) by (auto simp: kmem_ok_def)
  moreover have "make_klist h = (l, ?h)" using assms(3,4) by (simp add: make_klist_def)
  ultimately show thesis using that by blast
qed

lemma add_klist_node_to_klist_ok:
  assumes "klists h L" and "L l = Some xs"
    and "nodes h p = Some \<lparr>n_data = d, n_front = NULL, n_back = NULL\<rparr>" and "p \<noteq> NULL" and "p \<notin> linked L"
  obtains h' where "add_klist_node_to_klist l p h = Some h'" and "klists h' (L(l \<mapsto> xs @ [(p, d)]))" and "relink h h'"
proof -
  have at: "klist_at h l xs" using assms(1,2) by auto
  have new: "p \<notin> node_set xs" using not_linked [OF assms(5,2)] .
  show thesis
  proof (cases xs rule: rev_cases)
    case Nil
    let ?h = "h\<lparr>lists := (lists h)(l \<mapsto> \<lparr>k_first = p, k_last = p\<rparr>)\<rparr>"
    have run: "add_klist_node_to_klist l p h = Some ?h"
      using at Nil by (simp add: add_klist_node_to_klist_def klist_at_def set_first_def set_last_def)
    moreover have "klists ?h (L(l \<mapsto> xs @ [(p, d)]))"
      by (rule klists_update [OF assms(1,2), of _ _ "{p}"])
        (use at Nil assms in \<open>auto simp: klist_at_def\<close>)
    moreover have "relink h ?h"
      using at unfolding relink_def klist_at_def by auto
    ultimately show thesis by (rule that)
  next
    case (snoc ys x)
    let ?ns = "(nodes h)(p \<mapsto> \<lparr>n_data = d, n_front = NULL, n_back = fst x\<rparr>,
      fst x \<mapsto> \<lparr>n_data = snd x, n_front = p, n_back = tail_of NULL ys\<rparr>)"
    let ?k = "\<lparr>k_first = head_of xs NULL, k_last = p\<rparr>"
    let ?h = "h\<lparr>nodes := ?ns, lists := (lists h)(l \<mapsto> ?k)\<rparr>"
    have ne: "fst x \<noteq> p" "fst x \<noteq> NULL" "head_of xs NULL \<noteq> NULL"
      using new at snoc dll_ends [of "nodes h" NULL xs NULL NULL] by (auto simp: klist_at_def dll_append)
    have run: "add_klist_node_to_klist l p h = Some ?h"
      using at ne assms(3,4) unfolding snoc
      by (simp add: add_klist_node_to_klist_def klist_at_def set_back_def set_front_def set_last_def dll_append)
    moreover have "klists ?h (L(l \<mapsto> xs @ [(p, d)]))"
      by (rule klists_update [OF assms(1,2), of _ _ "{p}"])
        (use at snoc ne new assms(4,5) in \<open>auto simp: klist_at_def dll_append\<close>)
    moreover have "relink h ?h"
      using at assms(3) snoc unfolding relink_def klist_at_def by (auto simp: dll_append)
    ultimately show thesis by (rule that)
  qed
qed

lemmas klist_sets = set_first_def set_last_def set_front_def set_back_def

lemma remove_klist_node_from_klist_ok:
  assumes "klists h L" and "L l = Some (xs @ (p, d) # ys)"
  obtains (removed) h' where "remove_klist_node_from_klist l p h = Some h'" and "klists h' (L(l \<mapsto> xs @ ys))"
    and "relink h h'" and "nodes h' p = nodes h p"
proof -
  have at: "klist_at h l (xs @ (p, d) # ys)" using assms by auto
  have goal: thesis if run: "remove_klist_node_from_klist l p h = Some h'" and at': "klist_at h' l (xs @ ys)"
    and heads: "\<And>k. k \<noteq> l \<Longrightarrow> lists h' k = lists h k"
    and frame: "\<And>q. q \<notin> node_set (xs @ (p, d) # ys) \<Longrightarrow> nodes h' q = nodes h q"
    and "relink h h'" "nodes h' p = nodes h p" for h'
  proof (rule removed [OF run])
    show "klists h' (L(l \<mapsto> xs @ ys))"
      by (rule klists_update [OF assms at', of "{}"]) (use heads frame in auto)
  qed fact+
  consider (only) "xs = []" "ys = []" | (first) y zs where "xs = []" "ys = y # zs"
    | (last) us u where "xs = us @ [u]" "ys = []" | (mid) us u y zs where "xs = us @ [u]" "ys = y # zs"
    by (metis list.exhaust rev_exhaust)
  then show thesis
  proof cases
    case only
    show thesis
      by (rule goal [of "h\<lparr>lists := (lists h)(l \<mapsto> \<lparr>k_first = NULL, k_last = NULL\<rparr>)\<rparr>"])
        (use at in \<open>auto simp: only remove_klist_node_from_klist_def klist_sets free_klist_node_def klist_at_def relink_def\<close>)
  next
    case first
    show thesis
      by (rule goal [of "h\<lparr>lists := (lists h)(l \<mapsto> \<lparr>k_first = fst y, k_last = tail_of NULL ys\<rparr>),
            nodes := (nodes h)(fst y \<mapsto> \<lparr>n_data = snd y, n_front = head_of zs NULL, n_back = NULL\<rparr>)\<rparr>"])
        (use at tail_of_neq [of p zs "fst y"] in \<open>auto simp: first remove_klist_node_from_klist_def klist_sets free_klist_node_def klist_at_def relink_def\<close>)
  next
    case last
    show thesis
      by (rule goal [of "h\<lparr>lists := (lists h)(l \<mapsto> \<lparr>k_first = head_of xs NULL, k_last = fst u\<rparr>),
            nodes := (nodes h)(fst u \<mapsto> \<lparr>n_data = snd u, n_front = NULL, n_back = tail_of NULL us\<rparr>)\<rparr>"])
        (use at head_of_neq [of p us "fst u"] in \<open>auto simp: last remove_klist_node_from_klist_def klist_sets free_klist_node_def klist_at_def relink_def dll_append\<close>)
  next
    case mid
    show thesis
      by (rule goal [of "h\<lparr>nodes := (nodes h)(fst u \<mapsto> \<lparr>n_data = snd u, n_front = fst y, n_back = tail_of NULL us\<rparr>,
            fst y \<mapsto> \<lparr>n_data = snd y, n_front = head_of zs NULL, n_back = fst u\<rparr>)\<rparr>"])
        (use at head_of_neq [of p us "fst u"] tail_of_neq [of p zs "fst y"] in \<open>auto simp: mid remove_klist_node_from_klist_def klist_sets free_klist_node_def klist_at_def relink_def dll_append\<close>)
  qed
qed

text \<open>The effect of an allocation of a node: one address leaves the supply and becomes a node.\<close>

definition grown :: "addr \<Rightarrow> 'a kheap_scheme \<Rightarrow> 'a kheap_scheme \<Rightarrow> bool" where
  "grown p h h' = (kmem h = p # kmem h' \<and> kheap.more h' = kheap.more h
     \<and> dom (nodes h') = insert p (dom (nodes h)) \<and> dom (lists h') = dom (lists h))"

lemma grown_kmem_ok: "grown p h h' \<Longrightarrow> p \<noteq> NULL \<Longrightarrow> kmem_ok h \<Longrightarrow> kmem_ok h'"
  unfolding grown_def kmem_ok_def by auto

lemma grown_make_relink:
  "make_klist_node d h = (p, h') \<Longrightarrow> p \<noteq> NULL \<Longrightarrow> relink h' h'' \<Longrightarrow> grown p h h''"
  by (auto simp: grown_def relink_def make_klist_node_def split: list.splits if_splits)

lemma append_new_node_ok:
  assumes "kmem_ok h" and "klists h L" and "kmem h = p # ps" and "p \<noteq> NULL" and "L l = Some xs"
  obtains h1 h' where "make_klist_node d h = (p, h1)" and "add_klist_node_to_klist l p h1 = Some h'"
    and "klists h' (L(l \<mapsto> xs @ [(p, d)]))" and "kmem_ok h'" and "grown p h h'"
proof -
  obtain h1 where h1: "make_klist_node d h = (p, h1)" "klists h1 L" "p \<notin> linked L"
      "h1 = h\<lparr>kmem := ps, nodes := (nodes h)(p \<mapsto> \<lparr>n_data = d, n_front = NULL, n_back = NULL\<rparr>)\<rparr>"
    using make_klist_node_ok [OF assms(1-4), of d] by blast
  obtain h' where h': "add_klist_node_to_klist l p h1 = Some h'" "klists h' (L(l \<mapsto> xs @ [(p, d)]))" "relink h1 h'"
    by (rule add_klist_node_to_klist_ok [OF h1(2) assms(5) _ assms(4) h1(3), of d]) (simp add: h1(4))
  have "grown p h h'" using grown_make_relink [OF h1(1) assms(4) h'(3)] .
  with that h1(1) h'(1,2) grown_kmem_ok [OF _ assms(4,1)] show thesis by blast
qed

lemma klist_iterator_insert_before_ok:
  assumes "kmem_ok h" and "klists h L" and "kmem h = p # ps" and "p \<noteq> NULL"
    and "L l = Some (xs @ (q, e) # ys)"
  obtains (inserted) h' where "klist_iterator_insert_before (Some \<lparr>it_list = l, it_cur = q\<rparr>) d h = Some h'"
    and "klists h' (L(l \<mapsto> xs @ (p, d) # (q, e) # ys))" and "kmem_ok h'" and "grown p h h'"
proof -
  have at: "klist_at h l (xs @ (q, e) # ys)" using assms(2,5) by auto
  have fresh: "p \<notin> linked L" "nodes h p = None" using kmem_fresh [OF assms(1,2)] assms(3,4) by simp_all
  have new: "p \<notin> node_set (xs @ (q, e) # ys)" using not_linked [OF fresh(1) assms(5)] .
  have goal: thesis if run: "klist_iterator_insert_before (Some \<lparr>it_list = l, it_cur = q\<rparr>) d h = Some h'"
      and at': "klist_at h' l (xs @ (p, d) # (q, e) # ys)" and heads: "\<And>k. k \<noteq> l \<Longrightarrow> lists h' k = lists h k"
      and frame: "\<And>r. r \<notin> node_set (xs @ (q, e) # ys) \<union> {p} \<Longrightarrow> nodes h' r = nodes h r" and grow: "grown p h h'" for h'
  proof (rule inserted [OF run _ grown_kmem_ok [OF grow assms(4,1)] grow])
    show "klists h' (L(l \<mapsto> xs @ (p, d) # (q, e) # ys))"
      by (rule klists_update [OF assms(2,5) at', of "{p}"]) (use heads frame fresh in auto)
  qed
  let ?q = "\<lparr>n_data = e, n_front = head_of ys NULL, n_back = p\<rparr>"
  let ?p = "\<lparr>n_data = d, n_front = q, n_back = tail_of NULL xs\<rparr>"
  let ?k = "\<lparr>k_first = head_of xs p, k_last = tail_of q ys\<rparr>"
  show thesis
  proof (cases xs rule: rev_cases)
    case Nil
    show thesis
      by (rule goal [of "h\<lparr>kmem := ps, nodes := (nodes h)(p \<mapsto> ?p, q \<mapsto> ?q), lists := (lists h)(l \<mapsto> ?k)\<rparr>"])
        (use at new assms(3,4) in \<open>auto simp: Nil klist_iterator_insert_before_def make_klist_node_def klist_sets
          klist_at_def grown_def\<close>)
  next
    case (snoc us u)
    have "head_of us (fst u) \<noteq> q" using at snoc head_of_neq [of q us "fst u"] by (auto simp: klist_at_def)
    then show thesis
      by (intro goal [of "h\<lparr>kmem := ps, nodes := (nodes h)(p \<mapsto> ?p,
            fst u \<mapsto> \<lparr>n_data = snd u, n_front = p, n_back = tail_of NULL us\<rparr>, q \<mapsto> ?q)\<rparr>"])
        (use at new assms(3,4) in \<open>auto simp: image_Un snoc klist_iterator_insert_before_def make_klist_node_def klist_sets
          klist_at_def grown_def dll_append\<close>)
  qed
qed

lemma klist_iterator_insert_before_oops:
  "fst (kmalloc h) = NULL \<Longrightarrow> klist_iterator_insert_before (Some it) d h = None"
  by (auto simp: klist_iterator_insert_before_def make_klist_node_def set_front_def split: list.splits bind_splits)

lemma klist_iterator_remove_current_ok:
  assumes "klists h L" and "L l = Some (xs @ (p, d) # ys)"
  obtains h' where "klist_iterator_remove_current (Some \<lparr>it_list = l, it_cur = p\<rparr>) h
      = Some (d, Some \<lparr>it_list = l, it_cur = head_of ys NULL\<rparr>, h')"
    and "klists h' (L(l \<mapsto> xs @ ys))" and "relink h h'"
proof -
  obtain h' where h': "remove_klist_node_from_klist l p h = Some h'" "klists h' (L(l \<mapsto> xs @ ys))" "relink h h'"
    using remove_klist_node_from_klist_ok [OF assms] .
  have "klist_at h l (xs @ (p, d) # ys)" using assms by auto
  then have "klist_iterator_remove_current (Some \<lparr>it_list = l, it_cur = p\<rparr>) h
      = Some (d, Some \<lparr>it_list = l, it_cur = head_of ys NULL\<rparr>, h')"
    by (simp add: klist_iterator_remove_current_def h' klist_at_def dll_append)
  with that h'(2,3) show thesis by blast
qed

lemma make_klist_iterator_ok:
  "klist_at h l xs \<Longrightarrow> kmem h = p # ps \<Longrightarrow> make_klist_iterator l h = Some
    (if p = NULL then None else Some \<lparr>it_list = l, it_cur = head_of xs NULL\<rparr>, h\<lparr>kmem := ps\<rparr>)"
  by (simp add: make_klist_iterator_def klist_at_def)

lemma make_klist_iterator_fails: "kmem h = [] \<Longrightarrow> make_klist_iterator l h = Some (None, h)"
  by (simp add: make_klist_iterator_def)

text \<open>A search stops at the first node whose data passes the test, or at the end, and always ends.\<close>

lemma klist_scan_ok:
  assumes "dll (nodes h) b xs NULL" and "\<forall>x\<in>set xs. test (snd x) \<noteq> None"
  shows "klist_scan test h (Some \<lparr>it_list = l, it_cur = head_of xs NULL\<rparr>)
    = Some (Some (Some \<lparr>it_list = l, it_cur = head_of (dropWhile (\<lambda>x. test (snd x) = Some False) xs) NULL\<rparr>))"
  using assms
proof (induction xs arbitrary: b)
  case Nil
  then show ?case by (simp add: klist_scan.simps klist_iterator_has_next_def)
next
  case (Cons x xs)
  then obtain t where t: "test (snd x) = Some t" by auto
  show ?case
    using Cons t by (subst klist_scan.simps)
      (cases t, auto simp: klist_iterator_has_next_def klist_iterator_peek_def klist_iterator_next_def)
qed

lemma klist_scan_no_iterator [simp]: "klist_scan test h None = Some (Some None)"
  by (simp add: klist_scan.simps klist_iterator_has_next_def)

lemma free_klist_loop_ok:
  assumes "dll (nodes h) b xs NULL" and "distinct (map fst xs)" and "l \<noteq> NULL"
    and "lists h l = Some k" and "k_first k = head_of xs NULL"
  shows "free_klist_loop None l (head_of xs NULL) h = Some (Some
    (h\<lparr>nodes := nodes h |` (- node_set xs), lists := (lists h)(l \<mapsto> k\<lparr>k_first := NULL\<rparr>)\<rparr>))"
  using assms
proof (induction xs arbitrary: b h k)
  case Nil
  then have "(lists h)(l \<mapsto> k\<lparr>k_first := NULL\<rparr>) = lists h" by (auto simp: fun_eq_iff)
  then show ?case by (simp add: free_klist_loop.simps)
next
  case (Cons x xs)
  let ?h = "h\<lparr>lists := (lists h)(l \<mapsto> k\<lparr>k_first := head_of xs NULL\<rparr>), nodes := (nodes h)(fst x := None)\<rparr>"
  have next_dll: "dll (nodes ?h) (fst x) xs NULL"
  proof (rule iffD2 [OF dll_frame])
    show "\<forall>p\<in>node_set xs. nodes ?h p = nodes h p"
    proof
      fix p assume "p \<in> node_set xs"
      then have "p \<noteq> fst x" using Cons.prems(2) by (metis distinct.simps(2) list.set_map list.simps(9))
      then show "nodes ?h p = nodes h p" by simp
    qed
  qed (use Cons.prems in simp)
  have "free_klist_loop None l (head_of (x # xs) NULL) h = free_klist_loop None l (head_of xs NULL) ?h"
    using Cons.prems by (subst free_klist_loop.simps) (simp add: set_first_def)
  also have "\<dots> = Some (Some (?h\<lparr>nodes := nodes ?h |` (- node_set xs),
      lists := (lists ?h)(l \<mapsto> k\<lparr>k_first := head_of xs NULL\<rparr>\<lparr>k_first := NULL\<rparr>)\<rparr>))"
    using Cons.prems by (intro Cons.IH [OF next_dll]) simp_all
  also have "\<dots> = Some (Some (h\<lparr>nodes := nodes h |` (- node_set (x # xs)), lists := (lists h)(l \<mapsto> k\<lparr>k_first := NULL\<rparr>)\<rparr>))"
    by (intro arg_cong [where f = Some] kheap.equality) (auto simp: restrict_map_def fun_eq_iff)
  finally show ?case .
qed

lemma free_klist_ok:
  assumes "klists h L" and "L l = Some xs"
  shows "free_klist None l h = Some (Some
      (h\<lparr>nodes := nodes h |` (- node_set xs), lists := (lists h)(l := None)\<rparr>))"
proof -
  have at: "klist_at h l xs" using assms by auto
  then show ?thesis
    using free_klist_loop_ok [of h NULL xs l] by (simp add: free_klist_def klist_at_def)
qed

end
