(* ===== verification/Chains.thy ===== *)
theory Chains
  imports Klist
begin

text \<open>
  The filters of the interceptor framework and the five chains they are registered in
  (src/fred_framework/filter.c, filter.h, chains.c, chains.h), with the data of rules and
  interceptors (rule.h, interceptor.h) that the later theories use. The framework state extends
  the list heap: one heap per structure, the chain array, and the globals of the managers. A
  function pointer is an address; what the code behind it does is a parameter of the operations
  that call it.
\<close>

section \<open>The data\<close>

record filter_specs =
  filter_by :: u8
  protocol :: u8
  dst_addr :: u32
  src_addr :: u32
  dst_port :: u16
  src_port :: u16

record sfilter =
  priority :: u8
  filter_at :: u8
  f_rule :: addr
  f_specs :: addr
  f_apply :: addr

record srule =
  r_id :: u32
  r_interceptor :: addr
  number_of_filters :: u32
  r_filters :: "addr list"

record interceptor_descriptor =
  i_name :: string
  create_rule_for_specs_cb :: addr

record filter_chain =
  c_filters :: addr
  c_len :: u8

record fred = kheap +
  ffilters :: "addr \<rightharpoonup> sfilter"
  fspecs :: "addr \<rightharpoonup> filter_specs"
  frules :: "addr \<rightharpoonup> srule"
  fdescs :: "addr \<rightharpoonup> interceptor_descriptor"
  fchains :: "filter_chain list"
  manager_rule_list :: addr
  int_list :: addr
  rule_ids :: u32
  proc_dirty :: bool

definition FILTER_BY_L4_PROTO :: u8 where "FILTER_BY_L4_PROTO = 0x01"
definition FILTER_BY_DST_PORT :: u8 where "FILTER_BY_DST_PORT = 0x02"
definition FILTER_BY_SRC_PORT :: u8 where "FILTER_BY_SRC_PORT = 0x04"
definition FILTER_BY_DST_ADDR :: u8 where "FILTER_BY_DST_ADDR = 0x08"
definition FILTER_BY_SRC_ADDR :: u8 where "FILTER_BY_SRC_ADDR = 0x10"

definition FILTER_PRIO_FIRST :: u8 where "FILTER_PRIO_FIRST = 0xFF"
definition FILTER_PRIO_UNSPECIFIED :: u8 where "FILTER_PRIO_UNSPECIFIED = 0x7F"
definition FILTER_PRIO_LAST :: u8 where "FILTER_PRIO_LAST = 0x00"

definition FILTER_AT_LOCAL_IN :: u8 where "FILTER_AT_LOCAL_IN = 0x01"
definition FILTER_AT_LOCAL_OUT :: u8 where "FILTER_AT_LOCAL_OUT = 0x02"
definition FILTER_AT_FWD :: u8 where "FILTER_AT_FWD = 0x04"
definition FILTER_AT_POST_RT :: u8 where "FILTER_AT_POST_RT = 0x08"
definition FILTER_AT_PRE_RT :: u8 where "FILTER_AT_PRE_RT = 0x10"

definition MAX_FILTERS_PER_CHAIN :: u8 where "MAX_FILTERS_PER_CHAIN = 10"
definition LOCAL_OUT_CHAIN :: nat where "LOCAL_OUT_CHAIN = 0"
definition LOCAL_IN_CHAIN :: nat where "LOCAL_IN_CHAIN = 1"
definition FORWARD_CHAIN :: nat where "FORWARD_CHAIN = 2"
definition PRE_ROUTING_CHAIN :: nat where "PRE_ROUTING_CHAIN = 3"
definition POST_ROUTING_CHAIN :: nat where "POST_ROUTING_CHAIN = 4"
definition CHAINS_SIZE :: nat where "CHAINS_SIZE = 5"

lemmas filter_consts = FILTER_AT_LOCAL_IN_def FILTER_AT_LOCAL_OUT_def FILTER_AT_FWD_def
  FILTER_AT_POST_RT_def FILTER_AT_PRE_RT_def LOCAL_OUT_CHAIN_def LOCAL_IN_CHAIN_def FORWARD_CHAIN_def
  PRE_ROUTING_CHAIN_def POST_ROUTING_CHAIN_def

section \<open>filter.c\<close>

definition create_filter_specs :: "u8 \<Rightarrow> u32 \<Rightarrow> u32 \<Rightarrow> u16 \<Rightarrow> u16 \<Rightarrow> 32 word \<Rightarrow> fred \<Rightarrow> addr \<times> fred" where
  "create_filter_specs by da sa dp sp proto st = (case kmalloc st of (fs, st) \<Rightarrow>
     if fs = NULL then (NULL, st)
     else (fs, st\<lparr>fspecs := (fspecs st)(fs \<mapsto> \<lparr>filter_by = by, protocol = ucast proto, dst_addr = da, src_addr = sa,
       dst_port = dp, src_port = sp\<rparr>)\<rparr>))"

definition free_filter_specs :: "addr \<Rightarrow> fred \<Rightarrow> fred" where
  "free_filter_specs sp st = st\<lparr>fspecs := (fspecs st)(sp := None)\<rparr>"

definition create_filter :: "u8 \<Rightarrow> addr \<Rightarrow> addr \<Rightarrow> u8 \<Rightarrow> addr \<Rightarrow> fred \<Rightarrow> addr \<times> fred" where
  "create_filter prio sp r at nf_hook st = (case kmalloc st of (f, st) \<Rightarrow>
     if f = NULL then (NULL, st)
     else (f, st\<lparr>ffilters := (ffilters st)(f \<mapsto> \<lparr>priority = prio, filter_at = at, f_rule = r, f_specs = sp,
       f_apply = nf_hook\<rparr>)\<rparr>))"

definition free_filter :: "addr \<Rightarrow> fred \<Rightarrow> fred" where
  "free_filter f st = st\<lparr>ffilters := (ffilters st)(f := None)\<rparr>"

section \<open>chains.c\<close>

definition get_chain :: "nat \<Rightarrow> fred \<Rightarrow> filter_chain" where
  "get_chain c st = fchains st ! c"

definition set_chain_len :: "nat \<Rightarrow> u8 \<Rightarrow> fred \<Rightarrow> fred" where
  "set_chain_len c n st = st\<lparr>fchains := (fchains st)[c := (fchains st ! c)\<lparr>c_len := n\<rparr>]\<rparr>"

primrec init_chains_from :: "nat \<Rightarrow> fred \<Rightarrow> filter_chain list \<times> fred" where
  "init_chains_from 0 st = ([], st)"
| "init_chains_from (Suc n) st = (case make_klist st of (l, st) \<Rightarrow>
     case init_chains_from n st of (cs, st) \<Rightarrow> (\<lparr>c_filters = l, c_len = 0\<rparr> # cs, st))"

definition init_chains :: "fred \<Rightarrow> fred" where
  "init_chains st = (case init_chains_from CHAINS_SIZE st of (cs, st) \<Rightarrow> st\<lparr>fchains := cs\<rparr>)"

definition unregister_in_chain :: "nat \<Rightarrow> addr \<Rightarrow> fred \<Rightarrow> fred run" where
  "unregister_in_chain c f st = (case make_klist_iterator (c_filters (get_chain c st)) st of
     None \<Rightarrow> Some None
   | Some (it, st) \<Rightarrow> run_bind (klist_scan (\<lambda>t. Some (t = f)) st it) (\<lambda>it.
       if klist_iterator_has_next it then (case klist_iterator_remove_current it st of
           None \<Rightarrow> Some None
         | Some (_, _, st) \<Rightarrow> Some (Some (set_chain_len c (c_len (get_chain c st) - 1) st)))
       else Some (Some st)))"

definition higher_priority :: "fred \<Rightarrow> addr \<Rightarrow> addr \<Rightarrow> bool option" where
  "higher_priority st f t = do {
     f \<leftarrow> deref (ffilters st) f;
     t \<leftarrow> deref (ffilters st) t;
     Some (priority f > priority t) }"

definition register_in_chain :: "nat \<Rightarrow> addr \<Rightarrow> fred \<Rightarrow> (bool \<times> fred) run" where
  "register_in_chain c f st =
    (if c_len (get_chain c st) = MAX_FILTERS_PER_CHAIN then Some (Some (False, st))
     else case make_klist_iterator (c_filters (get_chain c st)) st of
       None \<Rightarrow> Some None
     | Some (it, st) \<Rightarrow> run_bind (klist_scan (higher_priority st f) st it) (\<lambda>it.
         if klist_iterator_has_next it then (case klist_iterator_insert_before it f st of
             None \<Rightarrow> Some None
           | Some st \<Rightarrow> Some (Some (True, set_chain_len c (c_len (get_chain c st) + 1) st)))
         else let st = set_chain_len c (c_len (get_chain c st) + 1) st in
           (case (case make_klist_node f st of (kn, h) \<Rightarrow> add_klist_node_to_klist (c_filters (get_chain c st)) kn h) of
               None \<Rightarrow> Some None
             | Some st \<Rightarrow> Some (Some (True, st)))))"

text \<open>The switch over the point of filtering, the same in \<^verbatim>\<open>register_filter\<close> and
  \<^verbatim>\<open>unregister_filter\<close>.\<close>

definition chain_of :: "u8 \<Rightarrow> nat option" where
  "chain_of at =
    (if at = FILTER_AT_LOCAL_IN then Some LOCAL_IN_CHAIN
     else if at = FILTER_AT_LOCAL_OUT then Some LOCAL_OUT_CHAIN
     else if at = FILTER_AT_FWD then Some FORWARD_CHAIN
     else if at = FILTER_AT_POST_RT then Some POST_ROUTING_CHAIN
     else if at = FILTER_AT_PRE_RT then Some PRE_ROUTING_CHAIN
     else None)"

definition register_filter :: "addr \<Rightarrow> fred \<Rightarrow> (bool \<times> fred) run" where
  "register_filter f st = (case deref (ffilters st) f of
     None \<Rightarrow> Some None
   | Some fl \<Rightarrow> (case chain_of (filter_at fl) of
       Some c \<Rightarrow> register_in_chain c f st
     | None \<Rightarrow> Some (Some (False, st))))"

definition unregister_filter :: "addr \<Rightarrow> fred \<Rightarrow> fred run" where
  "unregister_filter f st = (case deref (ffilters st) f of
     None \<Rightarrow> Some None
   | Some fl \<Rightarrow> (case chain_of (filter_at fl) of
       Some c \<Rightarrow> unregister_in_chain c f st
     | None \<Rightarrow> Some (Some st)))"


section \<open>The invariant of the chains\<close>

definition prio :: "fred \<Rightarrow> addr \<Rightarrow> u8" where
  "prio st f = priority (the (ffilters st f))"

definition filter_list_ok :: "fred \<Rightarrow> addr list \<Rightarrow> bool" where
  "filter_list_ok st fs = (length fs \<le> 10 \<and> (\<forall>f\<in>set fs. f \<noteq> NULL \<and> ffilters st f \<noteq> None)
     \<and> sorted_wrt (\<lambda>f g. prio st f \<ge> prio st g) fs)"

definition chain_ok :: "fred \<Rightarrow> (addr \<rightharpoonup> (addr \<times> addr) list) \<Rightarrow> filter_chain \<Rightarrow> bool" where
  "chain_ok st L ch = (\<exists>xs. L (c_filters ch) = Some xs \<and> c_len ch = of_nat (length xs) \<and> filter_list_ok st (map snd xs))"

definition chains_ok :: "fred \<Rightarrow> (addr \<rightharpoonup> (addr \<times> addr) list) \<Rightarrow> bool" where
  "chains_ok st L = (klists st L \<and> kmem_ok st \<and> length (fchains st) = CHAINS_SIZE
     \<and> distinct (map c_filters (fchains st)) \<and> (\<forall>ch\<in>set (fchains st). chain_ok st L ch))"

text \<open>The filters of a chain, in the order the hooks apply them.\<close>

definition chain_filters :: "fred \<Rightarrow> (addr \<rightharpoonup> (addr \<times> addr) list) \<Rightarrow> nat \<Rightarrow> addr list" where
  "chain_filters st L c = map snd (the (L (c_filters (get_chain c st))))"

text \<open>Where \<^verbatim>\<open>register_filter\<close> means to put a filter: after every filter of the same or a higher
  priority.\<close>

definition prio_insert :: "fred \<Rightarrow> addr \<Rightarrow> addr list \<Rightarrow> addr list" where
  "prio_insert st f fs = takeWhile (\<lambda>g. prio st g \<ge> prio st f) fs @ f # dropWhile (\<lambda>g. prio st g \<ge> prio st f) fs"

text \<open>Nothing of the framework but the list heap and the chains changes.\<close>

definition chains_only :: "fred \<Rightarrow> fred \<Rightarrow> bool" where
  "chains_only st st' = (ffilters st' = ffilters st \<and> fspecs st' = fspecs st \<and> frules st' = frules st
     \<and> fdescs st' = fdescs st \<and> manager_rule_list st' = manager_rule_list st \<and> int_list st' = int_list st
     \<and> rule_ids st' = rule_ids st \<and> proc_dirty st' = proc_dirty st
     \<and> map c_filters (fchains st') = map c_filters (fchains st))"

lemma chains_only_trans: "chains_only st st' \<Longrightarrow> chains_only st' st'' \<Longrightarrow> chains_only st st''"
  by (simp add: chains_only_def)

lemma chains_only_refl [simp]: "chains_only st st" "chains_only st (st\<lparr>kmem := ks\<rparr>)"
  by (simp_all add: chains_only_def)

lemma more_eq:
  fixes st st' :: fred
  assumes "kheap.more st' = kheap.more st"
  shows "chains_only st st'" "fchains st' = fchains st"
  using assms by (cases st; cases st'; simp add: chains_only_def)+

lemma set_chain_len_simps [simp]:
  "nodes (set_chain_len c n st) = nodes st" "lists (set_chain_len c n st) = lists st"
  "kmem (set_chain_len c n st) = kmem st" "ffilters (set_chain_len c n st) = ffilters st"
  "fchains (set_chain_len c n st) = (fchains st)[c := (fchains st ! c)\<lparr>c_len := n\<rparr>]"
  "klists (set_chain_len c n st) L = klists st L" "kmem_ok (set_chain_len c n st) = kmem_ok st"
  by (simp_all add: set_chain_len_def klists_def klist_at_def kmem_ok_def)

lemma chains_only_set_chain_len [simp]: "c < length (fchains st) \<Longrightarrow> chains_only st (set_chain_len c n st)"
  by (auto simp: chains_only_def set_chain_len_def map_update intro!: nth_equalityI simp: nth_list_update)

lemma prio_cong: "ffilters st' = ffilters st \<Longrightarrow> prio st' = prio st"
  by (simp add: prio_def fun_eq_iff)

lemma filter_list_ok_cong: "ffilters st' = ffilters st \<Longrightarrow> filter_list_ok st' = filter_list_ok st"
  using prio_cong [of st' st] by (intro ext) (simp add: filter_list_ok_def)

lemma chain_ok_cong: "ffilters st' = ffilters st \<Longrightarrow> chain_ok st' L ch = chain_ok st L ch"
  using filter_list_ok_cong [of st' st] by (simp add: chain_ok_def)

lemma chains_okD:
  assumes "chains_ok st L" and "c < CHAINS_SIZE"
  obtains xs where "L (c_filters (get_chain c st)) = Some xs" and "c_len (get_chain c st) = of_nat (length xs)"
    and "filter_list_ok st (map snd xs)" and "length xs \<le> 10" and "chain_filters st L c = map snd xs"
    and "klist_at st (c_filters (get_chain c st)) xs"
proof -
  have "get_chain c st \<in> set (fchains st)" using assms by (simp add: get_chain_def chains_ok_def)
  then obtain xs where xs: "L (c_filters (get_chain c st)) = Some xs" "c_len (get_chain c st) = of_nat (length xs)"
      "filter_list_ok st (map snd xs)"
    using assms(1) unfolding chains_ok_def chain_ok_def by blast
  show thesis
    by (rule that [OF xs]) (use xs assms(1) in \<open>auto simp: filter_list_ok_def chain_filters_def chains_ok_def\<close>)
qed

text \<open>A change of one chain, in the list heap and in the array, keeps the invariant.\<close>

lemma chains_ok_update:
  assumes ok: "chains_ok st L" and c: "c < CHAINS_SIZE" and l: "l = c_filters (get_chain c st)"
    and heap: "klists st' (L(l \<mapsto> xs))" "kmem_ok st'"
    and arr: "fchains st' = (fchains st)[c := (get_chain c st)\<lparr>c_len := of_nat (length xs)\<rparr>]"
    and fs: "ffilters st' = ffilters st" "filter_list_ok st (map snd xs)"
  shows "chains_ok st' (L(l \<mapsto> xs))"
    and "k < CHAINS_SIZE \<Longrightarrow> chain_filters st' (L(l \<mapsto> xs)) k = (if k = c then map snd xs else chain_filters st L k)"
proof -
  have len: "length (fchains st) = CHAINS_SIZE" using ok by (simp add: chains_ok_def)
  have flo: "filter_list_ok st' = filter_list_ok st" using fs(1) by (rule filter_list_ok_cong)
  have names: "map c_filters (fchains st') = map c_filters (fchains st)"
    using c len by (simp add: arr map_update get_chain_def list_update_same_conv)
  have dist: "distinct (map c_filters (fchains st))" using ok by (simp add: chains_ok_def)
  have other: "c_filters (fchains st ! k) \<noteq> l" if "k < CHAINS_SIZE" "k \<noteq> c" for k
    using dist c that len by (auto simp: distinct_conv_nth l get_chain_def)
  have each: "chain_ok st' (L(l \<mapsto> xs)) (fchains st' ! k)" if "k < CHAINS_SIZE" for k
  proof (cases "k = c")
    case True
    with c len fs l show ?thesis by (simp add: arr chain_ok_def flo)
  next
    case False
    have "chain_ok st L (fchains st ! k)" using ok that by (simp add: chains_ok_def)
    with False other [OF that False] show ?thesis by (simp add: arr chain_ok_def flo)
  qed
  have len': "length (fchains st') = CHAINS_SIZE" by (simp add: arr len)
  with each have all: "\<forall>ch\<in>set (fchains st'). chain_ok st' (L(l \<mapsto> xs)) ch" by (metis in_set_conv_nth)
  show "chains_ok st' (L(l \<mapsto> xs))"
    unfolding chains_ok_def names using heap len' dist all by (intro conjI)
  show "chain_filters st' (L(l \<mapsto> xs)) k = (if k = c then map snd xs else chain_filters st L k)" if "k < CHAINS_SIZE"
  proof (cases "k = c")
    case True
    with c len l show ?thesis by (simp add: chain_filters_def get_chain_def arr)
  next
    case False
    with other [OF that False] show ?thesis by (simp add: chain_filters_def get_chain_def arr)
  qed
qed


section \<open>Registering and unregistering\<close>

lemma sorted_wrt_insert:
  fixes g :: "'a \<Rightarrow> 'b::linorder"
  assumes "sorted_wrt (\<lambda>x y. g x \<ge> g y) xs"
  shows "sorted_wrt (\<lambda>x y. g x \<ge> g y) (takeWhile (\<lambda>x. g x \<ge> g a) xs @ a # dropWhile (\<lambda>x. g x \<ge> g a) xs)"
  using assms by (induction xs) (auto dest!: set_takeWhileD set_dropWhileD)

lemma length_prio_insert [simp]: "length (prio_insert st f fs) = Suc (length fs)"
  by (simp add: prio_insert_def) (metis length_append takeWhile_dropWhile_id)

lemma filter_list_ok_insert:
  "filter_list_ok st fs \<Longrightarrow> length fs < 10 \<Longrightarrow> f \<noteq> NULL \<Longrightarrow> ffilters st f \<noteq> None \<Longrightarrow> filter_list_ok st (prio_insert st f fs)"
  unfolding filter_list_ok_def length_prio_insert
  by (auto simp: prio_insert_def sorted_wrt_insert dest: set_takeWhileD set_dropWhileD)

lemma filter_list_ok_remove: "filter_list_ok st (fs @ f # gs) \<Longrightarrow> filter_list_ok st (fs @ gs)"
  by (auto simp: filter_list_ok_def sorted_wrt_append)

lemma chain_len_max: "n \<le> 10 \<Longrightarrow> (of_nat n = MAX_FILTERS_PER_CHAIN) = (n = 10)"
proof
  assume "n \<le> 10" "of_nat n = MAX_FILTERS_PER_CHAIN"
  then have "unat (of_nat n :: u8) = 10" "unat (of_nat n :: u8) = n"
    using unat_of_nat_le [of n "10 :: u8"] by (simp_all add: MAX_FILTERS_PER_CHAIN_def)
  then show "n = 10" by simp
qed (simp add: MAX_FILTERS_PER_CHAIN_def)

lemma higher_priority_eq:
  "f \<noteq> NULL \<Longrightarrow> g \<noteq> NULL \<Longrightarrow> ffilters st f \<noteq> None \<Longrightarrow> ffilters st g \<noteq> None \<Longrightarrow>
    higher_priority st f g = Some (\<not> prio st g \<ge> prio st f)"
  by (auto simp: higher_priority_def prio_def not_le)

text \<open>The two ways of the loop, stopping at a node or at the end, put the new node at the same place of
  the sequence: before the rest that \<^verbatim>\<open>dropWhile\<close> leaves.\<close>

lemma place_node_ok:
  fixes st :: fred
  assumes "kmem_ok st" and "klists st L" and "kmem st = p # ps" and "p \<noteq> NULL" and "L l = Some (xs @ ys)"
  obtains st' where
    "ys \<noteq> [] \<Longrightarrow> klist_iterator_insert_before (Some \<lparr>it_list = l, it_cur = head_of ys NULL\<rparr>) f st = Some st'"
    and "ys = [] \<Longrightarrow> (case make_klist_node f st of (kn, h) \<Rightarrow> add_klist_node_to_klist l kn h) = Some st'"
    and "klists st' (L(l \<mapsto> xs @ (p, f) # ys))" and "kmem_ok st'" and "grown p st st'"
proof (cases ys)
  case Nil
  obtain h st' where "make_klist_node f st = (p, h)" "add_klist_node_to_klist l p h = Some st'"
      "klists st' (L(l \<mapsto> xs @ [(p, f)]))" "kmem_ok st'" "grown p st st'"
    using append_new_node_ok [OF assms(1-4), of l xs f] assms(5) Nil by auto
  with that [of st'] Nil show thesis by simp
next
  case (Cons y zs)
  obtain st' where "klist_iterator_insert_before (Some \<lparr>it_list = l, it_cur = fst y\<rparr>) f st = Some st'"
      "klists st' (L(l \<mapsto> xs @ (p, f) # y # zs))" "kmem_ok st'" "grown p st st'"
    using klist_iterator_insert_before_ok [OF assms(1-4), of l xs "fst y" "snd y" zs f] assms(5) Cons by auto
  with that [of st'] Cons show thesis by simp
qed

lemma kmem_ok_tl: "kmem_ok h \<Longrightarrow> kmem h = p # ps \<Longrightarrow> kmem_ok (h\<lparr>kmem := ps\<rparr>)"
  by (auto simp: kmem_ok_def split: if_splits)

lemma klists_kmem [simp]: "klists (h\<lparr>kmem := ks\<rparr>) L = klists h L"
  by (simp add: klists_def klist_at_def)

lemma klist_at_dll: "klist_at h l xs \<Longrightarrow> dll (nodes h) NULL xs NULL"
  by (simp add: klist_at_def)

text \<open>The search of the place, when the iterator can be allocated.\<close>

lemma register_in_chain_search:
  assumes at: "klist_at st (c_filters (get_chain c st)) xs" and ok: "filter_list_ok st (map snd xs)"
    and len: "c_len (get_chain c st) = of_nat (length xs)" "length xs < 10"
    and f: "f \<noteq> NULL" "ffilters st f \<noteq> None" and mem: "kmem st = i # ks" "i \<noteq> NULL"
    and st1: "st1 = st\<lparr>kmem := ks\<rparr>" and ys: "ys = dropWhile (\<lambda>x. prio st (snd x) \<ge> prio st f) xs"
    and l: "l = c_filters (get_chain c st)" and st2: "st2 = set_chain_len c (c_len (get_chain c st) + 1) st1"
  shows "register_in_chain c f st =
    (if ys \<noteq> [] then (case klist_iterator_insert_before (Some \<lparr>it_list = l, it_cur = head_of ys NULL\<rparr>) f st1 of
         None \<Rightarrow> Some None
       | Some st \<Rightarrow> Some (Some (True, set_chain_len c (c_len (get_chain c st) + 1) st)))
     else (case (case make_klist_node f st2 of (kn, h) \<Rightarrow> add_klist_node_to_klist (c_filters (get_chain c st2)) kn h) of
         None \<Rightarrow> Some None
       | Some st \<Rightarrow> Some (Some (True, st))))"
proof -
  let ?P = "\<lambda>x. prio st (snd x) \<ge> prio st f"
  have test: "higher_priority st1 f (snd x) = Some (\<not> ?P x)" if "x \<in> set xs" for x
    using higher_priority_eq [of f "snd x" st1] ok f that by (force simp: filter_list_ok_def prio_def st1)
  then have "dropWhile (\<lambda>x. higher_priority st1 f (snd x) = Some False) xs = ys"
    unfolding ys by (intro dropWhile_cong) auto
  then have scan: "klist_scan (higher_priority st1 f) st1 (Some \<lparr>it_list = l, it_cur = head_of xs NULL\<rparr>)
      = Some (Some (Some \<lparr>it_list = l, it_cur = head_of ys NULL\<rparr>))"
    using klist_scan_ok [of st1 NULL xs "higher_priority st1 f" l] test klist_at_dll [OF at] by (simp add: st1)
  have next_node: "klist_iterator_has_next (Some \<lparr>it_list = l, it_cur = head_of ys NULL\<rparr>) = (ys \<noteq> [])"
  proof -
    have "set ys \<subseteq> set xs" unfolding ys using set_dropWhileD by fast
    then show ?thesis using dll_not_NULL [OF klist_at_dll [OF at]]
      by (cases ys) (force simp: klist_iterator_has_next_def)+
  qed
  have it: "make_klist_iterator l st = Some (Some \<lparr>it_list = l, it_cur = head_of xs NULL\<rparr>, st1)"
    using make_klist_iterator_ok [OF at mem(1)] mem(2) by (simp add: st1 l)
  have "c_len (get_chain c st) \<noteq> MAX_FILTERS_PER_CHAIN" using chain_len_max [of "length xs"] len by simp
  moreover have "get_chain c st1 = get_chain c st" by (simp add: st1 get_chain_def)
  ultimately show ?thesis
    unfolding register_in_chain_def l [symmetric] it by (simp add: scan next_node st2 Let_def)
qed

lemma fchains_kmem [simp]: "get_chain c (st\<lparr>kmem := ks\<rparr>) = get_chain c st"
  by (simp add: get_chain_def)

text \<open>A chain with the new node at its place, and the length that counts it.\<close>

definition placed :: "fred \<Rightarrow> addr \<Rightarrow> addr \<Rightarrow> (addr \<times> addr) list \<Rightarrow> (addr \<times> addr) list" where
  "placed st p f xs = takeWhile (\<lambda>x. prio st (snd x) \<ge> prio st f) xs @ (p, f) # dropWhile (\<lambda>x. prio st (snd x) \<ge> prio st f) xs"

lemma map_snd_placed: "map snd (placed st p f xs) = prio_insert st f (map snd xs)"
  by (simp add: placed_def prio_insert_def takeWhile_map dropWhile_map o_def)

lemma length_placed: "length (placed st p f xs) = Suc (length xs)"
  using arg_cong [OF map_snd_placed, of length] by (simp only: length_map length_prio_insert)

lemma register_in_chain_placed:
  assumes ok: "chains_ok st L" and c: "c < CHAINS_SIZE" and l: "l = c_filters (get_chain c st)" and xs: "L l = Some xs"
    and room: "length xs < 10" and f: "f \<noteq> NULL" "ffilters st f \<noteq> None" and mem: "kmem st = i # p # ps" "i \<noteq> NULL" "p \<noteq> NULL"
  obtains (placed) st' where "register_in_chain c f st = Some (Some (True, st'))" "klists st' (L(l \<mapsto> placed st p f xs))" "kmem_ok st'"
      "fchains st' = (fchains st)[c := (get_chain c st)\<lparr>c_len := of_nat (length (placed st p f xs))\<rparr>]"
      "chains_only st st'" "kmem st' = ps"
proof -
  obtain ys where ys: "L l = Some ys" "c_len (get_chain c st) = of_nat (length ys)"
      "filter_list_ok st (map snd ys)" "klist_at st l ys"
    by (rule chains_okD [OF ok c]) (use l in simp)
  then have [simp]: "ys = xs" using xs by simp
  have clen: "c < length (fchains st)" using ok c by (simp add: chains_ok_def)
  let ?ys = "dropWhile (\<lambda>x. prio st (snd x) \<ge> prio st f) xs"
  let ?len = "c_len (get_chain c st) + 1"
  define st1 where st1: "st1 = st\<lparr>kmem := p # ps\<rparr>"
  define st2 where st2: "st2 = set_chain_len c ?len st1"
  have len: "of_nat (length (placed st p f xs)) = ?len" using ys(2) by (simp add: length_placed)
  have ok1: "kmem_ok st1" "klists st1 L" "kmem st1 = p # ps" "kmem_ok st2" "klists st2 L" "kmem st2 = p # ps"
    using ok kmem_ok_tl [OF _ mem(1)] by (simp_all add: chains_ok_def st1 st2)
  have split: "L l = Some (takeWhile (\<lambda>x. prio st (snd x) \<ge> prio st f) xs @ ?ys)" using xs by simp
  note search = register_in_chain_search [OF ys(4) [unfolded l] ys(3,2) _ f mem(1,2) st1 refl l st2, simplified, OF room]
  show thesis
  proof (cases "?ys = []")
    case False
    obtain st' where st': "klist_iterator_insert_before (Some \<lparr>it_list = l, it_cur = head_of ?ys NULL\<rparr>) f st1 = Some st'"
        "klists st' (L(l \<mapsto> placed st p f xs))" "kmem_ok st'" "grown p st1 st'"
      using place_node_ok [OF ok1(1-3) mem(3) split, of f] False unfolding placed_def by metis
    have more: "kheap.more st' = kheap.more st1" "kmem st' = ps" using st'(4) ok1(3) by (simp_all add: grown_def)
    have same: "fchains st' = fchains st" "chains_only st st'"
      using more_eq [OF more(1)] by (simp_all add: st1 chains_only_def)
    have "register_in_chain c f st = Some (Some (True, set_chain_len c ?len st'))"
      using search False st'(1) same(1) by (simp add: get_chain_def)
    then show thesis
      by (rule placed) (use st' more same len clen chains_only_trans [OF same(2)] in \<open>auto simp: get_chain_def\<close>)
  next
    case True
    obtain st' where st': "(case make_klist_node f st2 of (kn, h) \<Rightarrow> add_klist_node_to_klist l kn h) = Some st'"
        "klists st' (L(l \<mapsto> placed st p f xs))" "kmem_ok st'" "grown p st2 st'"
      using place_node_ok [OF ok1(4-6) mem(3) split, of f] True unfolding placed_def by metis
    have more: "kheap.more st' = kheap.more st2" "kmem st' = ps" using st'(4) ok1(6) by (simp_all add: grown_def)
    have same: "fchains st' = fchains st2" "chains_only st2 st'" using more_eq [OF more(1)] by simp_all
    have "chains_only st st2" using clen by (simp add: st2 st1 chains_only_def set_chain_len_def map_update list_update_same_conv)
    moreover have "c_filters (get_chain c st2) = l" using clen by (simp add: st2 st1 l get_chain_def)
    ultimately show thesis
      using search True st' more same len chains_only_trans by (intro placed [of st']) (auto simp: st2 st1 get_chain_def)
  qed
qed

text \<open>Registration in one chain, when the two allocations succeed.\<close>

lemma register_in_chain_ok:
  assumes ok: "chains_ok st L" and c: "c < CHAINS_SIZE" and room: "length (chain_filters st L c) < 10"
    and f: "f \<noteq> NULL" "ffilters st f \<noteq> None" and mem: "kmem st = i # p # ps" "i \<noteq> NULL" "p \<noteq> NULL"
  obtains (registered) st' L' where "register_in_chain c f st = Some (Some (True, st'))" and "chains_ok st' L'"
    and "\<forall>k<CHAINS_SIZE. chain_filters st' L' k = (if k = c then prio_insert st f (chain_filters st L c) else chain_filters st L k)"
    and "chains_only st st'" and "kmem st' = ps" and "\<forall>l. l \<noteq> c_filters (get_chain c st) \<longrightarrow> L' l = L l"
proof -
  let ?l = "c_filters (get_chain c st)"
  obtain xs where xs: "L ?l = Some xs" "filter_list_ok st (map snd xs)" "chain_filters st L c = map snd xs"
    by (rule chains_okD [OF ok c])
  have small: "length xs < 10" using room xs(3) by simp
  obtain st' where run: "register_in_chain c f st = Some (Some (True, st'))"
    and heap: "klists st' (L(?l \<mapsto> placed st p f xs))" "kmem_ok st'"
    and arr: "fchains st' = (fchains st)[c := (get_chain c st)\<lparr>c_len := of_nat (length (placed st p f xs))\<rparr>]"
    and only: "chains_only st st'" "kmem st' = ps"
    by (rule register_in_chain_placed [OF ok c refl xs(1) small f mem])
  have fs: "ffilters st' = ffilters st" "filter_list_ok st (map snd (placed st p f xs))"
    using only(1) filter_list_ok_insert [OF xs(2) _ f] small by (simp_all add: chains_only_def map_snd_placed)
  show thesis
    by (rule registered [OF run chains_ok_update(1) [OF ok c refl heap arr fs] _ only])
      (use chains_ok_update(2) [OF ok c refl heap arr fs] xs(3) in \<open>simp_all add: map_snd_placed\<close>)
qed

lemma split_first:
  assumes "f \<in> set (map snd xs)"
  obtains us q vs where "xs = us @ (q, f) # vs" and "f \<notin> set (map snd us)"
proof -
  obtain as bs where as: "map snd xs = as @ f # bs" "f \<notin> set as" using split_list_first [OF assms] by blast
  then obtain us x vs where "xs = us @ x # vs" "map snd us = as" "snd x = f"
    by (auto simp: map_eq_append_conv)
  with as that [of us "fst x" vs] show thesis by (cases x) simp
qed

lemma unregister_in_chain_search:
  assumes at: "klist_at st (c_filters (get_chain c st)) xs" and mem: "kmem st = i # ps" "i \<noteq> NULL"
    and ys: "ys = dropWhile (\<lambda>x. snd x \<noteq> f) xs" and l: "l = c_filters (get_chain c st)" and st1: "st1 = st\<lparr>kmem := ps\<rparr>"
  shows "unregister_in_chain c f st =
    (if ys \<noteq> [] then (case klist_iterator_remove_current (Some \<lparr>it_list = l, it_cur = head_of ys NULL\<rparr>) st1 of
         None \<Rightarrow> Some None
       | Some (_, _, st) \<Rightarrow> Some (Some (set_chain_len c (c_len (get_chain c st) - 1) st)))
     else Some (Some st1))"
proof -
  have "set ys \<subseteq> set xs" unfolding ys using set_dropWhileD by fast
  then have "klist_iterator_has_next (Some \<lparr>it_list = l, it_cur = head_of ys NULL\<rparr>) = (ys \<noteq> [])"
    using dll_not_NULL [OF klist_at_dll [OF at]] by (cases ys) (force simp: klist_iterator_has_next_def)+
  moreover have "klist_scan (\<lambda>t. Some (t = f)) st1 (Some \<lparr>it_list = l, it_cur = head_of xs NULL\<rparr>)
      = Some (Some (Some \<lparr>it_list = l, it_cur = head_of ys NULL\<rparr>))"
    using klist_scan_ok [of st1 NULL xs "\<lambda>t. Some (t = f)" l] klist_at_dll [OF at] by (simp add: st1 ys)
  ultimately show ?thesis
    using make_klist_iterator_ok [OF at mem(1)] mem(2) by (simp add: unregister_in_chain_def st1 l)
qed

lemma unregister_in_chain_ok:
  assumes ok: "chains_ok st L" and c: "c < CHAINS_SIZE" and mem: "kmem st = i # ps" "i \<noteq> NULL"
  obtains (gone) st' L' where "unregister_in_chain c f st = Some (Some st')" and "chains_ok st' L'"
    and "\<forall>k<CHAINS_SIZE. chain_filters st' L' k = (if k = c then remove1 f (chain_filters st L c) else chain_filters st L k)"
    and "chains_only st st'" and "kmem st' = ps" and "\<forall>l. l \<noteq> c_filters (get_chain c st) \<longrightarrow> L' l = L l"
proof -
  let ?l = "c_filters (get_chain c st)"
  obtain xs where xs: "L ?l = Some xs" "filter_list_ok st (map snd xs)" "chain_filters st L c = map snd xs"
      "c_len (get_chain c st) = of_nat (length xs)" "klist_at st ?l xs"
    by (rule chains_okD [OF ok c])
  define st1 where st1: "st1 = st\<lparr>kmem := ps\<rparr>"
  have clen: "c < length (fchains st)" using ok c by (simp add: chains_ok_def)
  have ok1: "chains_ok st1 L" "klists st1 L" "kmem_ok st1"
    using ok kmem_ok_tl [OF _ mem(1)] by (auto simp: chains_ok_def st1 chain_ok_def filter_list_ok_def prio_def)
  note search = unregister_in_chain_search [OF xs(5) mem refl refl st1]
  show thesis
  proof (cases "f \<in> set (map snd xs)")
    case False
    then have "\<forall>x\<in>set xs. snd x \<noteq> f" by auto
    then have "dropWhile (\<lambda>x. snd x \<noteq> f) xs = []" by (simp add: dropWhile_eq_Nil_conv)
    then have run: "unregister_in_chain c f st = Some (Some st1)" using search [of f] by simp
    have "remove1 f (chain_filters st L c) = chain_filters st L c" using False xs(3) remove1_idem by metis
    moreover have "chain_filters st1 L = chain_filters st L" by (simp add: chain_filters_def st1 fun_eq_iff)
    ultimately show thesis by (intro gone [OF run ok1(1)]) (simp_all add: st1)
  next
    case True
    obtain us q vs where sp: "xs = us @ (q, f) # vs" "f \<notin> set (map snd us)" by (rule split_first [OF True])
    have drop: "dropWhile (\<lambda>x. snd x \<noteq> f) xs = (q, f) # vs" using sp by (auto simp: dropWhile_append)
    obtain st2 where st2: "klist_iterator_remove_current (Some \<lparr>it_list = ?l, it_cur = q\<rparr>) st1
          = Some (f, Some \<lparr>it_list = ?l, it_cur = head_of vs NULL\<rparr>, st2)"
        "klists st2 (L(?l \<mapsto> us @ vs))" "relink st1 st2"
      using klist_iterator_remove_current_ok [OF ok1(2), of ?l us q f vs] xs(1) sp(1) by metis
    have same: "fchains st2 = fchains st" "chains_only st st2" "kmem st2 = ps"
      using more_eq [of st2 st1] st2(3) by (simp_all add: relink_def st1 chains_only_def)
    let ?st = "set_chain_len c (c_len (get_chain c st2) - 1) st2"
    have run: "unregister_in_chain c f st = Some (Some ?st)" using search [of f] drop st2(1) by simp
    have arr: "fchains ?st = (fchains st)[c := (get_chain c st)\<lparr>c_len := of_nat (length (us @ vs))\<rparr>]"
      using sp xs(4) by (simp add: get_chain_def same)
    have heap: "klists ?st (L(?l \<mapsto> us @ vs))" "kmem_ok ?st" using st2 relink_kmem_ok [OF st2(3) ok1(3)] by simp_all
    have only: "chains_only st ?st" using same clen chains_only_trans by simp
    have fs: "ffilters ?st = ffilters st" "filter_list_ok st (map snd (us @ vs))"
      using only xs(2) sp(1) filter_list_ok_remove [of st "map snd us" f "map snd vs"] by (simp_all add: chains_only_def)
    have rem: "map snd (us @ vs) = remove1 f (map snd xs)" using sp by (simp add: remove1_append)
    show thesis
      by (rule gone [OF run chains_ok_update(1) [OF ok c refl heap arr fs] _ only])
        (use chains_ok_update(2) [OF ok c refl heap arr fs] xs(3) rem same in simp_all)
  qed
qed

lemma init_chains_from_ok:
  assumes "kmem_ok st" and "klists st L" and "kmem st = ls @ ps" and "\<forall>l\<in>set ls. l \<noteq> NULL"
  obtains st' where "init_chains_from (length ls) st = (map (\<lambda>l. \<lparr>c_filters = l, c_len = 0\<rparr>) ls, st')"
    and "klists st' (L ++ map_of (map (\<lambda>l. (l, [])) ls))" and "kmem_ok st'" and "kmem st' = ps"
    and "kheap.more st' = kheap.more st"
  using assms
proof (induction ls arbitrary: st L thesis)
  case (Cons l ls)
  obtain st1 where st1: "make_klist st = (l, st1)" "klists st1 (L(l \<mapsto> []))" "kmem_ok st1"
    and eq: "st1 = st\<lparr>kmem := ls @ ps, lists := (lists st)(l \<mapsto> \<lparr>k_first = NULL, k_last = NULL\<rparr>)\<rparr>"
    by (rule make_klist_ok [OF Cons.prems(2,3), of l "ls @ ps"]) (use Cons.prems(4,5) in simp_all)
  have rest: "\<forall>l\<in>set ls. l \<noteq> NULL" using Cons.prems(5) by simp
  have st1': "kmem st1 = ls @ ps" "kheap.more st1 = kheap.more st" by (simp_all add: eq)
  obtain st' where st': "init_chains_from (length ls) st1 = (map (\<lambda>l. \<lparr>c_filters = l, c_len = 0\<rparr>) ls, st')"
      "klists st' (L(l \<mapsto> []) ++ map_of (map (\<lambda>l. (l, [])) ls))" "kmem_ok st'" "kmem st' = ps"
      "kheap.more st' = kheap.more st1"
    by (rule Cons.IH [OF _ st1(3,2) st1'(1) rest])
  have same: "L(l \<mapsto> []) ++ map_of (map (\<lambda>l. (l, [])) ls) = L ++ map_of (map (\<lambda>l. (l, [])) (l # ls))"
    by (auto simp: fun_eq_iff map_add_def map_of_map split: option.splits dest: map_of_SomeD)
  show ?case
    by (rule Cons.prems(1) [OF _ st'(2) [unfolded same] st'(3,4)]) (simp_all add: st1 st1' st')
qed simp

lemma init_chains_ok:
  assumes "kmem_ok st" and "klists st L" and "kmem st = ls @ ps" and "length ls = CHAINS_SIZE" and "\<forall>l\<in>set ls. l \<noteq> NULL"
  obtains L' where "chains_ok (init_chains st) L'" and "\<forall>k<CHAINS_SIZE. chain_filters (init_chains st) L' k = []"
    and "kmem (init_chains st) = ps" and "ffilters (init_chains st) = ffilters st" and "fspecs (init_chains st) = fspecs st"
    and "\<forall>l. l \<notin> set ls \<longrightarrow> L' l = L l"
proof -
  let ?cs = "map (\<lambda>l. \<lparr>c_filters = l, c_len = 0\<rparr>) ls"
  let ?L = "L ++ map_of (map (\<lambda>l. (l, [])) ls)"
  obtain st' where st': "init_chains_from CHAINS_SIZE st = (?cs, st')" "klists st' ?L" "kmem_ok st'" "kmem st' = ps"
      "kheap.more st' = kheap.more st"
    by (rule init_chains_from_ok [OF assms(1-3,5)]) (simp add: assms(4))
  have eq: "init_chains st = st'\<lparr>fchains := ?cs\<rparr>" using st'(1) by (simp add: init_chains_def)
  have none: "?L l = Some []" if "l \<in> set ls" for l
    using that by (simp add: map_add_def map_of_map map_of_map_restrict split: option.split)
  have dist: "distinct ls" using assms(1,3,5) by (auto simp: kmem_ok_def)
  have "chain_ok (init_chains st) ?L ch" if "ch \<in> set ?cs" for ch
    unfolding chain_ok_def by (rule exI [of _ "[]"]) (use that none in \<open>auto simp: filter_list_ok_def\<close>)
  moreover have "klists (init_chains st) ?L" by (rule klists_cong [OF st'(2)]) (simp_all add: eq)
  moreover have "kmem_ok (init_chains st)" using st'(3) by (simp add: eq kmem_ok_def)
  ultimately have "chains_ok (init_chains st) ?L"
    using dist assms(4) by (simp add: chains_ok_def eq o_def)
  moreover have "\<forall>k<CHAINS_SIZE. chain_filters (init_chains st) ?L k = []"
    unfolding eq chain_filters_def get_chain_def using none assms(4) by simp
  moreover have "\<forall>l. l \<notin> set ls \<longrightarrow> ?L l = L l" by (auto simp: map_add_def map_of_map map_of_eq_None_iff split: option.split dest: map_of_SomeD)
  moreover have "ffilters (init_chains st) = ffilters st" "fspecs (init_chains st) = fspecs st" using more_eq(1) [OF st'(5)] by (simp_all add: eq chains_only_def)
  ultimately show thesis using that st'(4) by (simp add: eq)
qed


section \<open>Properties\<close>

lemma chain_of_less: "chain_of at = Some c \<Longrightarrow> c < CHAINS_SIZE"
  by (auto simp: chain_of_def filter_consts CHAINS_SIZE_def split: if_splits)

text \<open>A framework with two filters of the local-out point that no chain holds yet.\<close>

definition fred0 :: fred where
  "fred0 = \<lparr>nodes = (\<lambda>_. None), lists = (\<lambda>_. None), kmem = [1..<40],
     ffilters = [100 \<mapsto> \<lparr>priority = 5, filter_at = FILTER_AT_LOCAL_OUT, f_rule = 0, f_specs = 200, f_apply = 300\<rparr>,
       101 \<mapsto> \<lparr>priority = FILTER_PRIO_FIRST, filter_at = FILTER_AT_LOCAL_OUT, f_rule = 0, f_specs = 200, f_apply = 301\<rparr>],
     fspecs = [200 \<mapsto> \<lparr>filter_by = 0, protocol = 0, dst_addr = 0, src_addr = 0, dst_port = 0, src_port = 0\<rparr>],
     frules = (\<lambda>_. None), fdescs = (\<lambda>_. None), fchains = [], manager_rule_list = NULL, int_list = NULL,
     rule_ids = 0, proc_dirty = False\<rparr>"

lemma fred0_filters:
  obtains fl gl where "ffilters fred0 100 = Some fl" "chain_of (filter_at fl) = Some LOCAL_OUT_CHAIN"
    and "ffilters fred0 101 = Some gl" "chain_of (filter_at gl) = Some LOCAL_OUT_CHAIN" "priority fl = 5" "priority gl = 255"
    and "f_specs fl = 200" "f_apply fl = 300"
  by (simp add: fred0_def chain_of_def filter_consts FILTER_PRIO_FIRST_def)

lemma fred0_chains:
  obtains L where "chains_ok (init_chains fred0) L" and "\<forall>k<CHAINS_SIZE. chain_filters (init_chains fred0) L k = []"
    and "kmem (init_chains fred0) = [6..<40]" and "ffilters (init_chains fred0) = ffilters fred0"
    and "fspecs (init_chains fred0) = fspecs fred0"
proof -
  have "kmem_ok fred0" "klists fred0 (\<lambda>_. None)" by (simp_all add: fred0_def kmem_ok_def klists_def)
  moreover have "kmem fred0 = [1..<6] @ [6..<40]" using upt_add_eq_append [of 1 6 34] by (simp add: fred0_def)
  moreover have "length [1..<6] = CHAINS_SIZE" "\<forall>l\<in>set [1..<6]. l \<noteq> NULL" by (simp_all add: CHAINS_SIZE_def)
  ultimately show thesis by (rule init_chains_ok [where ?ls = "[1..<6]"]) (blast intro: that)
qed

text \<open>C9: a filter registers at its priority. When its chain has room and the iterator and
  the node can be allocated, registering answers 1 and puts the filter after the filters of the same or a
  higher priority and before the lower ones, in its own chain only; every chain stays a well-linked list
  sorted by priority whose length field counts its filters.\<close>

theorem register_filter_sorts:
  assumes "chains_ok st L" and "f \<noteq> NULL" and "ffilters st f = Some fl" and "chain_of (filter_at fl) = Some c"
    and "length (chain_filters st L c) < 10" and "kmem st = i # p # ps" and "i \<noteq> NULL" and "p \<noteq> NULL"
  shows "\<exists>st' L'. register_filter f st = Some (Some (True, st')) \<and> chains_ok st' L' \<and>
    (\<forall>k<CHAINS_SIZE. chain_filters st' L' k =
      (if k = c then prio_insert st f (chain_filters st L c) else chain_filters st L k))"
proof -
  have c: "c < CHAINS_SIZE" using assms(4) by (rule chain_of_less)
  have eq: "register_filter f st = register_in_chain c f st" using assms(2-4) by (simp add: register_filter_def)
  obtain st' L' where "register_in_chain c f st = Some (Some (True, st'))" "chains_ok st' L'"
      "\<forall>k<CHAINS_SIZE. chain_filters st' L' k = (if k = c then prio_insert st f (chain_filters st L c) else chain_filters st L k)"
    by (rule register_in_chain_ok [OF assms(1) c assms(5,2) _ assms(6-8)]) (use assms(3) in simp)
  then show ?thesis unfolding eq by (intro exI conjI)
qed

theorem register_filter_sorts_witness:
  "\<exists>st L. register_filter 100 (init_chains fred0) = Some (Some (True, st)) \<and> chain_filters st L LOCAL_OUT_CHAIN = [100]"
proof -
  obtain L where L: "chains_ok (init_chains fred0) L" "\<forall>k<CHAINS_SIZE. chain_filters (init_chains fred0) L k = []"
      "kmem (init_chains fred0) = [6..<40]" "ffilters (init_chains fred0) = ffilters fred0" by (rule fred0_chains)
  have mem: "kmem (init_chains fred0) = 6 # 7 # [8..<40]" using L(3) by (simp add: upt_conv_Cons)
  have out: "LOCAL_OUT_CHAIN < CHAINS_SIZE" by (simp add: CHAINS_SIZE_def LOCAL_OUT_CHAIN_def)
  obtain fl where fl: "ffilters (init_chains fred0) 100 = Some fl" "chain_of (filter_at fl) = Some LOCAL_OUT_CHAIN"
    by (rule fred0_filters) (use L(4) in simp)
  show ?thesis
    using register_filter_sorts [OF L(1) _ fl _ mem] L(2) out by (force simp: prio_insert_def)
qed

text \<open>unregistering undoes registering. A filter that is in no chain, registered and then
  unregistered, leaves the five chains as they were, with the same filters in the same order.\<close>

theorem unregister_undoes_register:
  assumes "chains_ok st L" and "f \<noteq> NULL" and "ffilters st f = Some fl" and "chain_of (filter_at fl) = Some c"
    and "length (chain_filters st L c) < 10" and "f \<notin> set (chain_filters st L c)"
    and "kmem st = i # p # j # ps" and "i \<noteq> NULL" and "p \<noteq> NULL" and "j \<noteq> NULL"
  shows "\<exists>st1 st2 L2. register_filter f st = Some (Some (True, st1)) \<and> unregister_filter f st1 = Some (Some st2)
    \<and> chains_ok st2 L2 \<and> (\<forall>k<CHAINS_SIZE. chain_filters st2 L2 k = chain_filters st L k)"
proof -
  have c: "c < CHAINS_SIZE" using assms(4) by (rule chain_of_less)
  obtain st1 L1 where st1: "register_in_chain c f st = Some (Some (True, st1))" "chains_ok st1 L1"
      "\<forall>k<CHAINS_SIZE. chain_filters st1 L1 k = (if k = c then prio_insert st f (chain_filters st L c) else chain_filters st L k)"
      "chains_only st st1" "kmem st1 = j # ps"
    by (rule register_in_chain_ok [OF assms(1) c assms(5,2) _ assms(7-9)]) (use assms(3) in simp)
  obtain st2 L2 where st2: "unregister_in_chain c f st1 = Some (Some st2)" "chains_ok st2 L2"
      "\<forall>k<CHAINS_SIZE. chain_filters st2 L2 k = (if k = c then remove1 f (chain_filters st1 L1 c) else chain_filters st1 L1 k)"
    by (rule unregister_in_chain_ok [OF st1(2) c st1(5) assms(10)])
  have "f \<notin> set (takeWhile (\<lambda>g. prio st g \<ge> prio st f) (chain_filters st L c))"
    using assms(6) by (metis set_takeWhileD)
  then have "remove1 f (prio_insert st f (chain_filters st L c)) = chain_filters st L c"
    by (simp add: prio_insert_def remove1_append)
  then have "\<forall>k<CHAINS_SIZE. chain_filters st2 L2 k = chain_filters st L k" using st1(3) st2(3) by simp
  moreover have "register_filter f st = Some (Some (True, st1))" "unregister_filter f st1 = Some (Some st2)"
    using st1(1,4) st2(1) assms(2-4) by (simp_all add: register_filter_def unregister_filter_def chains_only_def)
  ultimately show ?thesis using st2(2) by (intro exI conjI)
qed

theorem unregister_undoes_register_witness:
  "\<exists>st1 st2 L2. register_filter 100 (init_chains fred0) = Some (Some (True, st1)) \<and> unregister_filter 100 st1 = Some (Some st2)
    \<and> chain_filters st2 L2 LOCAL_OUT_CHAIN = []"
proof -
  obtain L where L: "chains_ok (init_chains fred0) L" "\<forall>k<CHAINS_SIZE. chain_filters (init_chains fred0) L k = []"
      "kmem (init_chains fred0) = [6..<40]" "ffilters (init_chains fred0) = ffilters fred0" by (rule fred0_chains)
  have mem: "kmem (init_chains fred0) = 6 # 7 # 8 # [9..<40]" using L(3) by (simp add: upt_conv_Cons)
  have out: "LOCAL_OUT_CHAIN < CHAINS_SIZE" by (simp add: CHAINS_SIZE_def LOCAL_OUT_CHAIN_def)
  obtain fl where fl: "ffilters (init_chains fred0) 100 = Some fl" "chain_of (filter_at fl) = Some LOCAL_OUT_CHAIN"
    by (rule fred0_filters) (use L(4) in simp)
  show ?thesis
    using unregister_undoes_register [OF L(1) _ fl _ _ mem] L(2) out by force
qed

text \<open>When the iterator cannot be allocated, the loop is skipped and the filter goes to the end, whatever
  its priority.\<close>

lemma register_without_iterator:
  assumes ok: "chains_ok st L" and f: "f \<noteq> NULL" "ffilters st f = Some fl" "chain_of (filter_at fl) = Some c"
    and room: "length (chain_filters st L c) < 10" and mem: "kmem st = NULL # p # ps" "p \<noteq> NULL"
  shows "\<exists>st' L'. register_filter f st = Some (Some (True, st')) \<and> klists st' L' \<and> chain_filters st' L' c = chain_filters st L c @ [f]"
proof -
  let ?l = "c_filters (get_chain c st)"
  have c: "c < CHAINS_SIZE" using f(3) by (rule chain_of_less)
  obtain xs where xs: "L ?l = Some xs" "c_len (get_chain c st) = of_nat (length xs)" "length xs \<le> 10"
      "chain_filters st L c = map snd xs" "klist_at st ?l xs"
    by (rule chains_okD [OF ok c])
  have clen: "c < length (fchains st)" using ok c by (simp add: chains_ok_def)
  define st2 where st2: "st2 = set_chain_len c (c_len (get_chain c st) + 1) (st\<lparr>kmem := p # ps\<rparr>)"
  have ok2: "kmem_ok st2" "klists st2 L" "kmem st2 = p # ps"
    using ok kmem_ok_tl [OF _ mem(1)] by (simp_all add: st2 chains_ok_def)
  obtain h st' where st': "make_klist_node f st2 = (p, h)" "add_klist_node_to_klist ?l p h = Some st'"
      "klists st' (L(?l \<mapsto> xs @ [(p, f)]))" "grown p st2 st'"
    by (rule append_new_node_ok [OF ok2 mem(2) xs(1), of f])
  have len: "c_len (get_chain c st) \<noteq> MAX_FILTERS_PER_CHAIN" using chain_len_max [OF xs(3)] room xs(2,4) by simp
  have l2: "c_filters (get_chain c st2) = ?l" using clen by (simp add: st2 get_chain_def)
  have "register_filter f st = Some (Some (True, st'))"
    using f len make_klist_iterator_ok [OF xs(5) mem(1)] st'(1,2) l2
    by (simp add: register_filter_def register_in_chain_def klist_iterator_has_next_def flip: st2)
  moreover have "fchains st' = fchains st2" using more_eq(2) [of st' st2] st'(4) by (simp add: grown_def)
  then have "chain_filters st' (L(?l \<mapsto> xs @ [(p, f)])) c = chain_filters st L c @ [f]"
    using l2 xs(4) by (simp add: chain_filters_def get_chain_def)
  ultimately show ?thesis using st'(3) by blast
qed

end
