(* ===== verification/Hooks.thy ===== *)
theory Hooks
  imports Chains
begin

text \<open>
  The netfilter hooks of src/fred_framework/hooks.c: matching a packet against a filter, and the five
  hook functions that run the filters of a chain. A packet is the list of its bytes from the network
  header on; the match functions do not test its length, so a read beyond the last byte is \<^term>\<open>None\<close>.
  The callback behind a filter is the parameter \<^verbatim>\<open>call\<close>: from the function pointer, the
  specification, the hook number, the packet and the state of the interceptors it gives the verdict,
  the packet and the new state.
\<close>

section \<open>Reading headers\<close>

definition byte_at :: "u8 list \<Rightarrow> nat \<Rightarrow> u8 option" where
  "byte_at bs i = (if i < length bs then Some (bs ! i) else None)"

definition be16_at :: "u8 list \<Rightarrow> nat \<Rightarrow> u16 option" where
  "be16_at bs i = (if i + 2 \<le> length bs then Some (bytes_word (take 2 (drop i bs))) else None)"

definition be32_at :: "u8 list \<Rightarrow> nat \<Rightarrow> u32 option" where
  "be32_at bs i = (if i + 4 \<le> length bs then Some (bytes_word (take 4 (drop i bs))) else None)"

definition IPPROTO_UDP :: u8 where "IPPROTO_UDP = 17"
definition AGREGATED_APPLICATION_ENCAP_UDP_PROTO :: u8 where "AGREGATED_APPLICATION_ENCAP_UDP_PROTO = 143"
definition AGREGATED_IP_ENCAP_IP_PROTO :: u8 where "AGREGATED_IP_ENCAP_IP_PROTO = 144"

text \<open>The fields of the IP header at an offset: \<^verbatim>\<open>ihl << 2\<close>, \<^verbatim>\<open>protocol\<close>, \<^verbatim>\<open>saddr\<close>, \<^verbatim>\<open>daddr\<close>.\<close>

definition ip_header_bytes :: "u8 list \<Rightarrow> nat \<Rightarrow> nat option" where
  "ip_header_bytes skb o' = map_option (\<lambda>b. 4 * unat (b AND 0x0F)) (byte_at skb o')"

definition ip_protocol :: "u8 list \<Rightarrow> nat \<Rightarrow> u8 option" where
  "ip_protocol skb o' = byte_at skb (o' + 9)"

section \<open>Matching\<close>

definition specs_of :: "fred \<Rightarrow> addr \<Rightarrow> filter_specs option" where
  "specs_of st f = do { fl \<leftarrow> deref (ffilters st) f; deref (fspecs st) (f_specs fl) }"

definition match_src_addr :: "fred \<Rightarrow> addr \<Rightarrow> u8 list \<Rightarrow> bool option" where
  "match_src_addr st f skb = do {
     sp \<leftarrow> specs_of st f;
     if filter_by sp AND FILTER_BY_SRC_ADDR \<noteq> 0 then do { a \<leftarrow> be32_at skb 12; Some (\<not> src_addr sp \<noteq> a) }
     else Some True }"

definition match_dst_addr :: "fred \<Rightarrow> addr \<Rightarrow> u8 list \<Rightarrow> bool option" where
  "match_dst_addr st f skb = do {
     sp \<leftarrow> specs_of st f;
     if filter_by sp AND FILTER_BY_DST_ADDR \<noteq> 0 then do { a \<leftarrow> be32_at skb 16; Some (\<not> dst_addr sp \<noteq> a) }
     else Some True }"

definition match_ports :: "fred \<Rightarrow> addr \<Rightarrow> u8 list \<Rightarrow> bool option" where
  "match_ports st f skb = do {
     sp \<leftarrow> specs_of st f;
     pr \<leftarrow> ip_protocol skb 0;
     ip \<leftarrow> (if pr = AGREGATED_IP_ENCAP_IP_PROTO then ip_header_bytes skb 0 else Some 0);
     pr \<leftarrow> ip_protocol skb ip;
     if pr = AGREGATED_APPLICATION_ENCAP_UDP_PROTO \<or> pr = IPPROTO_UDP then do {
       n \<leftarrow> ip_header_bytes skb ip;
       d \<leftarrow> (if filter_by sp AND FILTER_BY_DST_PORT \<noteq> 0 then do { p \<leftarrow> be16_at skb (ip + n + 2); Some (dst_port sp \<noteq> p) } else Some False);
       if d then Some False
       else do {
         s \<leftarrow> (if filter_by sp AND FILTER_BY_SRC_PORT \<noteq> 0 then do { p \<leftarrow> be16_at skb (ip + n); Some (src_port sp \<noteq> p) } else Some False);
         Some (\<not> s) } }
     else Some False }"

definition match_filter :: "fred \<Rightarrow> addr \<Rightarrow> u8 list \<Rightarrow> bool option" where
  "match_filter st f skb = do {
     m \<leftarrow> match_src_addr st f skb;
     if \<not> m then Some False
     else do {
       m \<leftarrow> match_dst_addr st f skb;
       if \<not> m then Some False
       else do {
         m \<leftarrow> match_ports st f skb;
         Some m } } }"

section \<open>The hooks\<close>

definition NF_ACCEPT :: u32 where "NF_ACCEPT = 1"

datatype hook_point = Local_out | Local_in | Forward | Pre_routing | Post_routing

type_synonym 'w callback = "addr \<Rightarrow> addr \<Rightarrow> hook_point \<Rightarrow> u8 list \<Rightarrow> 'w \<Rightarrow> u32 \<times> u8 list \<times> 'w"

definition apply_filter ::
  "'w callback \<Rightarrow> fred \<Rightarrow> addr \<Rightarrow> hook_point \<Rightarrow> u8 list \<Rightarrow> 'w \<Rightarrow> (u32 \<times> u8 list \<times> 'w) option" where
  "apply_filter call st f hooknum skb w = do {
     fl \<leftarrow> deref (ffilters st) f;
     Some (call (f_apply fl) (f_specs fl) hooknum skb w) }"

partial_function (option) hook_loop ::
  "'w callback \<Rightarrow> fred \<Rightarrow> hook_point \<Rightarrow> klist_iterator option \<Rightarrow> u8 list \<Rightarrow> 'w \<Rightarrow> (u32 \<times> u8 list \<times> 'w) run"
where
  "hook_loop call st hooknum it skb w =
    (if \<not> klist_iterator_has_next it then Some (Some (NF_ACCEPT, skb, w))
     else case do { (kn, it) \<leftarrow> klist_iterator_next it st; n \<leftarrow> deref (nodes st) kn;
                    m \<leftarrow> match_filter st (n_data n) skb; Some (n_data n, m, it) } of
       None \<Rightarrow> Some None
     | Some (f, m, it) \<Rightarrow>
         if m then (case apply_filter call st f hooknum skb w of
             None \<Rightarrow> Some None
           | Some (retval, skb, w) \<Rightarrow>
               if retval \<noteq> NF_ACCEPT then Some (Some (retval, skb, w)) else hook_loop call st hooknum it skb w)
         else hook_loop call st hooknum it skb w)"

text \<open>The body the five functions share; each names its chain.\<close>

definition run_hook ::
  "nat \<Rightarrow> 'w callback \<Rightarrow> fred \<Rightarrow> hook_point \<Rightarrow> u8 list \<Rightarrow> 'w \<Rightarrow> ((u32 \<times> u8 list \<times> 'w) \<times> fred) run" where
  "run_hook chain call st hooknum skb w = (let c = get_chain chain st in
     if c_len c = 0 then Some (Some ((NF_ACCEPT, skb, w), st))
     else case make_klist_iterator (c_filters c) st of
       None \<Rightarrow> Some None
     | Some (it, st) \<Rightarrow> run_bind (hook_loop call st hooknum it skb w) (\<lambda>r. Some (Some (r, st))))"

definition nf_ip_local_out_hook ::
  "'w callback \<Rightarrow> fred \<Rightarrow> hook_point \<Rightarrow> u8 list \<Rightarrow> 'w \<Rightarrow> ((u32 \<times> u8 list \<times> 'w) \<times> fred) run" where
  "nf_ip_local_out_hook = run_hook LOCAL_OUT_CHAIN"

definition nf_ip_local_in_hook ::
  "'w callback \<Rightarrow> fred \<Rightarrow> hook_point \<Rightarrow> u8 list \<Rightarrow> 'w \<Rightarrow> ((u32 \<times> u8 list \<times> 'w) \<times> fred) run" where
  "nf_ip_local_in_hook = run_hook LOCAL_IN_CHAIN"

definition nf_ip_forward_hook ::
  "'w callback \<Rightarrow> fred \<Rightarrow> hook_point \<Rightarrow> u8 list \<Rightarrow> 'w \<Rightarrow> ((u32 \<times> u8 list \<times> 'w) \<times> fred) run" where
  "nf_ip_forward_hook = run_hook FORWARD_CHAIN"

definition nf_ip_pre_routing_hook ::
  "'w callback \<Rightarrow> fred \<Rightarrow> hook_point \<Rightarrow> u8 list \<Rightarrow> 'w \<Rightarrow> ((u32 \<times> u8 list \<times> 'w) \<times> fred) run" where
  "nf_ip_pre_routing_hook = run_hook PRE_ROUTING_CHAIN"

definition nf_ip_post_routing_hook ::
  "'w callback \<Rightarrow> fred \<Rightarrow> hook_point \<Rightarrow> u8 list \<Rightarrow> 'w \<Rightarrow> ((u32 \<times> u8 list \<times> 'w) \<times> fred) run" where
  "nf_ip_post_routing_hook = run_hook POST_ROUTING_CHAIN"

text \<open>What \<^verbatim>\<open>init_hooks\<close> registers with netfilter, in order: the point and the function; every hook has
  the first priority. \<^verbatim>\<open>free_hooks\<close> unregisters the same five.\<close>

definition init_hooks ::
  "(hook_point \<times> ('w callback \<Rightarrow> fred \<Rightarrow> hook_point \<Rightarrow> u8 list \<Rightarrow> 'w \<Rightarrow> ((u32 \<times> u8 list \<times> 'w) \<times> fred) run)) list" where
  "init_hooks = [(Local_out, nf_ip_local_out_hook), (Local_in, nf_ip_local_in_hook), (Forward, nf_ip_forward_hook),
     (Pre_routing, nf_ip_pre_routing_hook), (Post_routing, nf_ip_post_routing_hook)]"


section \<open>What the hooks compute\<close>

text \<open>The verdict of a sequence of filters: the first decision other than NF_ACCEPT of a filter that
  matches the packet as the filters before it left it.\<close>

fun chain_verdict ::
  "'w callback \<Rightarrow> fred \<Rightarrow> hook_point \<Rightarrow> addr list \<Rightarrow> u8 list \<Rightarrow> 'w \<Rightarrow> (u32 \<times> u8 list \<times> 'w) option" where
  "chain_verdict call st pt [] skb w = Some (NF_ACCEPT, skb, w)"
| "chain_verdict call st pt (f # fs) skb w = (case match_filter st f skb of
     None \<Rightarrow> None
   | Some False \<Rightarrow> chain_verdict call st pt fs skb w
   | Some True \<Rightarrow> (case apply_filter call st f pt skb w of
       None \<Rightarrow> None
     | Some (r, skb, w) \<Rightarrow> if r \<noteq> NF_ACCEPT then Some (r, skb, w) else chain_verdict call st pt fs skb w))"

lemma hook_loop_verdict:
  assumes "dll (nodes st) b xs NULL"
  shows "hook_loop call st pt (Some \<lparr>it_list = l, it_cur = head_of xs NULL\<rparr>) skb w
    = Some (chain_verdict call st pt (map snd xs) skb w)"
  using assms
proof (induction xs arbitrary: b skb w)
  case Nil
  then show ?case by (simp add: hook_loop.simps klist_iterator_has_next_def)
next
  case (Cons x xs)
  then show ?case
    by (subst hook_loop.simps)
      (auto simp: klist_iterator_has_next_def klist_iterator_next_def split: option.split bool.split)
qed

lemma hook_loop_no_iterator [simp]: "hook_loop call st pt None skb w = Some (Some (NF_ACCEPT, skb, w))"
  by (simp add: hook_loop.simps klist_iterator_has_next_def)

lemma specs_of_kmem: "specs_of (st\<lparr>kmem := ks\<rparr>) f = specs_of st f"
  by (simp add: specs_of_def)

lemma kmem_cong [simp]:
  "match_filter (st\<lparr>kmem := ks\<rparr>) f skb = match_filter st f skb"
  "apply_filter call (st\<lparr>kmem := ks\<rparr>) f pt skb w = apply_filter call st f pt skb w"
  unfolding match_filter_def match_src_addr_def match_dst_addr_def match_ports_def specs_of_kmem
  by (simp_all add: apply_filter_def)

lemma chain_verdict_kmem [simp]:
  "chain_verdict call (st\<lparr>kmem := ks\<rparr>) pt fs skb w = chain_verdict call st pt fs skb w"
  by (induction fs arbitrary: skb w) (auto split: option.split bool.split)

text \<open>The point a filter names in \<^verbatim>\<open>filter_at\<close>, for each point of the network stack.\<close>

primrec at_of :: "hook_point \<Rightarrow> u8" where
  "at_of Local_out = FILTER_AT_LOCAL_OUT"
| "at_of Local_in = FILTER_AT_LOCAL_IN"
| "at_of Forward = FILTER_AT_FWD"
| "at_of Pre_routing = FILTER_AT_PRE_RT"
| "at_of Post_routing = FILTER_AT_POST_RT"

lemma run_hook_verdict:
  assumes "chains_ok st L" and "c < CHAINS_SIZE" and "kmem st = i # ps"
  shows "run_hook c call st pt skb w = Some
    (if chain_filters st L c = [] then Some ((NF_ACCEPT, skb, w), st)
     else if i = NULL then Some ((NF_ACCEPT, skb, w), st\<lparr>kmem := ps\<rparr>)
     else map_option (\<lambda>r. (r, st\<lparr>kmem := ps\<rparr>)) (chain_verdict call st pt (chain_filters st L c) skb w))"
proof -
  obtain xs where xs: "c_len (get_chain c st) = of_nat (length xs)" "length xs \<le> 10" "chain_filters st L c = map snd xs"
      "klist_at st (c_filters (get_chain c st)) xs"
    by (rule chains_okD [OF assms(1,2)])
  have empty: "c_len (get_chain c st) = 0 \<longleftrightarrow> xs = []"
    using unat_of_nat_le [of "length xs" "10 :: u8"] xs(1,2) by (cases xs) (auto simp del: of_nat_Suc dest: arg_cong [where f = unat])
  show ?thesis
  proof (cases "xs = [] \<or> i = NULL")
    case True
    then show ?thesis
      using empty xs(3) make_klist_iterator_ok [OF xs(4) assms(3)] by (auto simp: run_hook_def Let_def)
  next
    case False
    have "dll (nodes (st\<lparr>kmem := ps\<rparr>)) NULL xs NULL" using klist_at_dll [OF xs(4)] by simp
    from hook_loop_verdict [OF this, of call pt "c_filters (get_chain c st)" skb w] False show ?thesis
      using empty xs(3) make_klist_iterator_ok [OF xs(4) assms(3)]
      by (cases "chain_verdict call st pt (map snd xs) skb w") (simp_all add: run_hook_def Let_def)
  qed
qed

text \<open>C11: a hook runs the chain of its point. Each of the five functions that \<^verbatim>\<open>init_hooks\<close>
  registers goes through the filters registered for that point, in chain order, and gives the first verdict
  other than NF_ACCEPT of a filter that matches, NF_ACCEPT when there is none; the chains do not change. Only
  when the iterator cannot be allocated is the packet accepted without looking at the filters.\<close>

theorem hooks_run_their_chain:
  assumes "chains_ok st L" and "kmem st = i # ps"
  shows "list_all (\<lambda>(pt, hook). \<exists>c. chain_of (at_of pt) = Some c \<and> hook call st pt skb w = Some
    (if chain_filters st L c = [] then Some ((NF_ACCEPT, skb, w), st)
     else if i = NULL then Some ((NF_ACCEPT, skb, w), st\<lparr>kmem := ps\<rparr>)
     else map_option (\<lambda>r. (r, st\<lparr>kmem := ps\<rparr>)) (chain_verdict call st pt (chain_filters st L c) skb w))) init_hooks"
proof -
  have points: "chain_of (at_of Local_out) = Some LOCAL_OUT_CHAIN" "chain_of (at_of Local_in) = Some LOCAL_IN_CHAIN"
    "chain_of (at_of Forward) = Some FORWARD_CHAIN" "chain_of (at_of Pre_routing) = Some PRE_ROUTING_CHAIN"
    "chain_of (at_of Post_routing) = Some POST_ROUTING_CHAIN"
    by (simp_all add: chain_of_def filter_consts)
  note run = points [THEN chain_of_less, THEN run_hook_verdict [OF assms(1) _ assms(2)]]
  show ?thesis
    unfolding init_hooks_def nf_ip_local_out_hook_def nf_ip_local_in_hook_def nf_ip_forward_hook_def
      nf_ip_pre_routing_hook_def nf_ip_post_routing_hook_def
    unfolding list.pred_inject prod.case points by (intro conjI; ((rule exI, rule conjI, rule refl, rule run) | simp))
qed

text \<open>An interceptor that drops every packet at function 300 and accepts elsewhere.\<close>

definition drop300 :: "nat callback" where
  "drop300 fn sp pt skb w = (if fn = 300 then 0 else NF_ACCEPT, skb, Suc w)"

definition udp_packet :: "u8 list" where
  "udp_packet = [0x45, 0, 0, 28, 0, 0, 0, 0, 64, 17, 0, 0, 10, 0, 0, 1, 10, 0, 0, 2, 0, 53, 1, 2, 0, 8, 0, 0]"

lemma registered100:
  obtains st L where "register_filter 100 (init_chains fred0) = Some (Some (True, st))" and "chains_ok st L"
    and "chain_filters st L LOCAL_OUT_CHAIN = [100]" and "kmem st = 8 # [9..<40]"
    and "specs_of st 100 = Some \<lparr>filter_by = 0, protocol = 0, dst_addr = 0, src_addr = 0, dst_port = 0, src_port = 0\<rparr>"
    and "apply_filter drop300 st 100 Local_out udp_packet 0 = Some (0, udp_packet, 1)"
proof -
  obtain L where L: "chains_ok (init_chains fred0) L" "\<forall>k<CHAINS_SIZE. chain_filters (init_chains fred0) L k = []"
      "kmem (init_chains fred0) = [6..<40]" "ffilters (init_chains fred0) = ffilters fred0"
      "fspecs (init_chains fred0) = fspecs fred0" by (rule fred0_chains)
  have mem: "kmem (init_chains fred0) = 6 # 7 # 8 # [9..<40]" "6 \<noteq> NULL" "7 \<noteq> NULL" using L(3) by (simp_all add: upt_conv_Cons)
  have out: "LOCAL_OUT_CHAIN < CHAINS_SIZE" by (simp add: CHAINS_SIZE_def LOCAL_OUT_CHAIN_def)
  obtain fl where fl: "ffilters (init_chains fred0) 100 = Some fl" "chain_of (filter_at fl) = Some LOCAL_OUT_CHAIN"
      "f_specs fl = 200" "f_apply fl = 300" by (rule fred0_filters) (use L(4) in simp)
  have pre: "length (chain_filters (init_chains fred0) L LOCAL_OUT_CHAIN) < 10" "100 \<noteq> NULL" "ffilters (init_chains fred0) 100 \<noteq> None"
    using L(2) out fl by simp_all
  obtain st L' where st: "register_in_chain LOCAL_OUT_CHAIN 100 (init_chains fred0) = Some (Some (True, st))"
      "chains_ok st L'" "\<forall>k<CHAINS_SIZE. chain_filters st L' k = (if k = LOCAL_OUT_CHAIN
        then prio_insert (init_chains fred0) 100 (chain_filters (init_chains fred0) L LOCAL_OUT_CHAIN)
        else chain_filters (init_chains fred0) L k)" "chains_only (init_chains fred0) st" "kmem st = 8 # [9..<40]"
    by (rule register_in_chain_ok [OF L(1) out pre mem])
  show thesis
  proof (rule that [OF _ st(2) _ st(5)])
    show "register_filter 100 (init_chains fred0) = Some (Some (True, st))" using st(1) fl by (simp add: register_filter_def)
    show "chain_filters st L' LOCAL_OUT_CHAIN = [100]" using st(3) L(2) out by (simp add: prio_insert_def)
    show "specs_of st 100 = Some \<lparr>filter_by = 0, protocol = 0, dst_addr = 0, src_addr = 0, dst_port = 0, src_port = 0\<rparr>"
      using st(4) fl L(5) by (simp add: specs_of_def chains_only_def) (simp add: fred0_def)
    show "apply_filter drop300 st 100 Local_out udp_packet 0 = Some (0, udp_packet, 1)"
      using st(4) fl by (simp add: apply_filter_def chains_only_def drop300_def)
  qed
qed

theorem hooks_run_their_chain_witness:
  "\<exists>st st'. register_filter 100 (init_chains fred0) = Some (Some (True, st)) \<and>
    nf_ip_local_out_hook drop300 st Local_out udp_packet 0 = Some (Some ((0, udp_packet, 1), st'))"
proof -
  obtain st L where st: "register_filter 100 (init_chains fred0) = Some (Some (True, st))" "chains_ok st L"
    "chain_filters st L LOCAL_OUT_CHAIN = [100]" "kmem st = 8 # [9..<40]"
    "specs_of st 100 = Some \<lparr>filter_by = 0, protocol = 0, dst_addr = 0, src_addr = 0, dst_port = 0, src_port = 0\<rparr>"
    "apply_filter drop300 st 100 Local_out udp_packet 0 = Some (0, udp_packet, 1)" by (rule registered100)
  have "match_filter st 100 udp_packet = Some True"
    by (simp add: st(5) match_filter_def match_src_addr_def match_dst_addr_def match_ports_def ip_protocol_def byte_at_def
        udp_packet_def AGREGATED_IP_ENCAP_IP_PROTO_def IPPROTO_UDP_def ip_header_bytes_def)
  then have "chain_verdict drop300 st Local_out [100] udp_packet 0 = Some (0, udp_packet, 1)"
    using st(6) by (simp add: NF_ACCEPT_def)
  then have "nf_ip_local_out_hook drop300 st Local_out udp_packet 0 = Some (Some ((0, udp_packet, 1), st\<lparr>kmem := [9..<40]\<rparr>))"
    using hooks_run_their_chain [OF st(2,4), of drop300 udp_packet 0] st(3)
    by (auto simp: init_hooks_def chain_of_def filter_consts LOCAL_OUT_CHAIN_def)
  with st(1) show ?thesis by blast
qed

lemma guards: "(if \<not> a then Some False else if \<not> b then Some False else Some c) = Some (a \<and> b \<and> c)"
  by simp

text \<open>C28: what a match means. For a filter with a specification and a packet that holds its IP
  header (the inner one when the outer protocol is the aggregation protocol) and four bytes of UDP header
  behind it, the match reads nothing beyond the packet and holds exactly when each address and each port
  whose bit is set in \<^verbatim>\<open>filter_by\<close> is the one of the packet and the (inner) protocol is UDP or
  aggregated UDP. The protocol of the specification is never compared, whether its bit is set or not.\<close>

theorem match_filter_meaning:
  assumes "specs_of st f = Some sp" and "20 \<le> length skb"
    and "ip = (if skb ! 9 = AGREGATED_IP_ENCAP_IP_PROTO then 4 * unat (skb ! 0 AND 0x0F) else 0)"
    and "ip + 10 \<le> length skb" and "udp = ip + 4 * unat (skb ! ip AND 0x0F)" and "udp + 4 \<le> length skb"
  shows "match_filter st f skb = Some
     ((filter_by sp AND FILTER_BY_SRC_ADDR \<noteq> 0 \<longrightarrow> src_addr sp = bytes_word (take 4 (drop 12 skb)))
    \<and> (filter_by sp AND FILTER_BY_DST_ADDR \<noteq> 0 \<longrightarrow> dst_addr sp = bytes_word (take 4 (drop 16 skb)))
    \<and> (skb ! (ip + 9) = IPPROTO_UDP \<or> skb ! (ip + 9) = AGREGATED_APPLICATION_ENCAP_UDP_PROTO)
    \<and> (filter_by sp AND FILTER_BY_DST_PORT \<noteq> 0 \<longrightarrow> dst_port sp = bytes_word (take 2 (drop (udp + 2) skb)))
    \<and> (filter_by sp AND FILTER_BY_SRC_PORT \<noteq> 0 \<longrightarrow> src_port sp = bytes_word (take 2 (drop udp skb))))"
proof -
  have src: "match_src_addr st f skb = Some (filter_by sp AND FILTER_BY_SRC_ADDR \<noteq> 0 \<longrightarrow> src_addr sp = bytes_word (take 4 (drop 12 skb)))"
    using assms(1,2) by (simp add: match_src_addr_def be32_at_def)
  have dst: "match_dst_addr st f skb = Some (filter_by sp AND FILTER_BY_DST_ADDR \<noteq> 0 \<longrightarrow> dst_addr sp = bytes_word (take 4 (drop 16 skb)))"
    using assms(1,2) by (simp add: match_dst_addr_def be32_at_def)
  have reads: "ip_protocol skb 0 = Some (skb ! 9)" "ip_header_bytes skb 0 = Some (4 * unat (skb ! 0 AND 0x0F))"
    "ip_protocol skb ip = Some (skb ! (ip + 9))" "ip_header_bytes skb ip = Some (4 * unat (skb ! ip AND 0x0F))"
    using assms(2,4) by (auto simp: ip_protocol_def ip_header_bytes_def byte_at_def)
  have off: "(if skb ! 9 = AGREGATED_IP_ENCAP_IP_PROTO then Some (4 * unat (skb ! 0 AND 0x0F)) else Some 0) = Some ip"
    using assms(3) by simp
  have udp: "be16_at skb (ip + 4 * unat (skb ! ip AND 0x0F) + 2) = Some (bytes_word (take 2 (drop (udp + 2) skb)))"
    "be16_at skb (ip + 4 * unat (skb ! ip AND 0x0F)) = Some (bytes_word (take 2 (drop udp skb)))"
    using assms(5,6) by (simp_all add: be16_at_def)
  have ports: "match_ports st f skb = Some
     ((skb ! (ip + 9) = IPPROTO_UDP \<or> skb ! (ip + 9) = AGREGATED_APPLICATION_ENCAP_UDP_PROTO)
    \<and> (filter_by sp AND FILTER_BY_DST_PORT \<noteq> 0 \<longrightarrow> dst_port sp = bytes_word (take 2 (drop (udp + 2) skb)))
    \<and> (filter_by sp AND FILTER_BY_SRC_PORT \<noteq> 0 \<longrightarrow> src_port sp = bytes_word (take 2 (drop udp skb))))"
    unfolding match_ports_def assms(1) Option.bind.bind_lunit reads off udp
    by (cases "filter_by sp AND FILTER_BY_DST_PORT = 0"; cases "filter_by sp AND FILTER_BY_SRC_PORT = 0"; simp; blast)
  show ?thesis
    unfolding match_filter_def src dst ports Option.bind.bind_lunit by (rule guards)
qed


theorem match_filter_meaning_witness:
  "\<exists>st. match_filter st 100 udp_packet = Some True"
proof -
  obtain st L where "register_filter 100 (init_chains fred0) = Some (Some (True, st))" "chains_ok st L"
    and sp: "specs_of st 100 = Some \<lparr>filter_by = 0, protocol = 0, dst_addr = 0, src_addr = 0, dst_port = 0, src_port = 0\<rparr>"
    by (rule registered100)
  have packet: "20 \<le> length udp_packet" "0 + 10 \<le> length udp_packet" "20 + 4 \<le> length udp_packet"
    "0 = (if udp_packet ! 9 = AGREGATED_IP_ENCAP_IP_PROTO then 4 * unat (udp_packet ! 0 AND 0x0F) else 0)"
    "20 = 0 + 4 * unat (udp_packet ! 0 AND 0x0F)" "udp_packet ! (0 + 9) = IPPROTO_UDP"
    by (simp_all add: udp_packet_def AGREGATED_IP_ENCAP_IP_PROTO_def IPPROTO_UDP_def)
  have "match_filter st 100 udp_packet = Some True"
    unfolding match_filter_meaning [OF sp packet(1,4,2,5,3)] packet(6) by simp
  then show ?thesis by (rule exI)
qed

end
