(* ===== verification/Rules.thy ===== *)
theory Rules
  imports Chains
begin

text \<open>
  Rules, the rule manager and the interceptor manager (src/fred_framework/rule.c, rule_manager.c,
  interceptor_manager.c) and the start and stop of the framework (main.c). The function with which an
  interceptor makes a rule is the parameter \<^verbatim>\<open>mk\<close>, given by function pointer.
\<close>

section \<open>rule.c\<close>

text \<open>The loop of \<^verbatim>\<open>free_rule_and_unregister_filters\<close> with \<^verbatim>\<open>k\<close> rounds to go, at filter \<^verbatim>\<open>i\<close>.\<close>

primrec free_rule_from :: "nat \<Rightarrow> nat \<Rightarrow> addr list \<Rightarrow> fred \<Rightarrow> fred run" where
  "free_rule_from 0 i fs st = Some (Some st)"
| "free_rule_from (Suc k) i fs st =
    (if i \<ge> length fs then Some None
     else run_bind (unregister_filter (fs ! i) st) (\<lambda>st.
       case (if i = 0 then do { fl \<leftarrow> deref (ffilters st) (fs ! 0); Some (free_filter_specs (f_specs fl) st) } else Some st) of
         None \<Rightarrow> Some None
       | Some st \<Rightarrow> free_rule_from k (Suc i) fs (free_filter (fs ! i) st)))"

definition free_rule_and_unregister_filters :: "addr \<Rightarrow> fred \<Rightarrow> fred run" where
  "free_rule_and_unregister_filters r st =
    (if r = NULL then Some (Some st)
     else case deref (frules st) r of
       None \<Rightarrow> Some None
     | Some rl \<Rightarrow> run_bind (free_rule_from (unat (number_of_filters rl)) 0 (r_filters rl) st)
         (\<lambda>st. Some (Some (st\<lparr>frules := (frules st)(r := None)\<rparr>))))"

definition make_rule :: "32 word \<Rightarrow> fred \<Rightarrow> addr \<times> fred" where
  "make_rule nfilters st = (case kmalloc st of (r, st) \<Rightarrow>
     if r = NULL then (NULL, st)
     else case kmalloc st of (fs, st) \<Rightarrow>
       if fs = NULL then (NULL, st)
       else (r, st\<lparr>frules := (frules st)(r \<mapsto> \<lparr>r_id = rule_ids st, r_interceptor = NULL, number_of_filters = nfilters,
           r_filters = replicate (unat nfilters) NULL\<rparr>), rule_ids := rule_ids st + 1\<rparr>))"

section \<open>rule_manager.c\<close>

definition mess_proc_entry :: "fred \<Rightarrow> fred" where
  "mess_proc_entry st = st\<lparr>proc_dirty := True\<rparr>"

definition start_rule_manager :: "fred \<Rightarrow> bool \<times> fred" where
  "start_rule_manager st = (case make_klist st of (l, st) \<Rightarrow> (l \<noteq> NULL, st\<lparr>manager_rule_list := l\<rparr>))"

definition stop_rule_manager :: "fred \<Rightarrow> fred run" where
  "stop_rule_manager st = free_klist (Some free_rule_and_unregister_filters) (manager_rule_list st) st"

primrec register_filters_from :: "nat \<Rightarrow> nat \<Rightarrow> addr list \<Rightarrow> fred \<Rightarrow> fred run" where
  "register_filters_from 0 i fs st = Some (Some st)"
| "register_filters_from (Suc k) i fs st =
    (if i \<ge> length fs then Some None
     else run_bind (register_filter (fs ! i) st) (\<lambda>(_, st). register_filters_from k (Suc i) fs st))"

definition register_rule :: "addr \<Rightarrow> fred \<Rightarrow> fred run" where
  "register_rule r st =
    (if manager_rule_list st \<noteq> NULL then
       (case make_klist_node r st of (kn, st) \<Rightarrow>
         if kn \<noteq> NULL then
           (case do { st \<leftarrow> add_klist_node_to_klist (manager_rule_list st) kn st; rl \<leftarrow> deref (frules st) r; Some (rl, st) } of
             None \<Rightarrow> Some None
           | Some (rl, st) \<Rightarrow> run_bind (register_filters_from (unat (number_of_filters rl)) 0 (r_filters rl) st)
               (\<lambda>st. Some (Some (mess_proc_entry st))))
         else Some (Some st))
     else Some (Some st))"

text \<open>The name of the interceptor a rule belongs to.\<close>

definition rule_interceptor_name :: "fred \<Rightarrow> addr \<Rightarrow> string option" where
  "rule_interceptor_name st r = do {
     rl \<leftarrow> deref (frules st) r;
     d \<leftarrow> deref (fdescs st) (r_interceptor rl);
     Some (i_name d) }"

partial_function (option) unregister_rules_loop ::
  "string \<Rightarrow> klist_iterator option \<Rightarrow> fred \<Rightarrow> fred run"
where
  "unregister_rules_loop name it st =
    (if \<not> klist_iterator_has_next it then Some (Some st)
     else case do { n \<leftarrow> Option.bind (klist_iterator_peek it) (deref (nodes st)); rule_interceptor_name st (n_data n) } of
       None \<Rightarrow> Some None
     | Some s \<Rightarrow>
         if name = s then (case klist_iterator_remove_current it st of
             None \<Rightarrow> Some None
           | Some (r, it, st) \<Rightarrow>
               Option.bind (if r \<noteq> NULL then free_rule_and_unregister_filters r st else Some (Some st)) (\<lambda>x. case x of
                 None \<Rightarrow> Some None
               | Some st \<Rightarrow> unregister_rules_loop name it (mess_proc_entry st)))
         else unregister_rules_loop name it st)"

definition unregister_rules_for_interceptor :: "string \<Rightarrow> fred \<Rightarrow> fred run" where
  "unregister_rules_for_interceptor name st = (case make_klist_iterator (manager_rule_list st) st of
     None \<Rightarrow> Some None
   | Some (it, st) \<Rightarrow> unregister_rules_loop name it st)"

definition get_rules_iterator :: "fred \<Rightarrow> (klist_iterator option \<times> fred) option" where
  "get_rules_iterator st = make_klist_iterator (manager_rule_list st) st"

definition rule_has_id :: "fred \<Rightarrow> u32 \<Rightarrow> addr \<Rightarrow> bool option" where
  "rule_has_id st i r = map_option (\<lambda>rl. r_id rl = i) (deref (frules st) r)"

definition unregister_rule :: "u32 \<Rightarrow> fred \<Rightarrow> fred run" where
  "unregister_rule i st = (case make_klist_iterator (manager_rule_list st) st of
     None \<Rightarrow> Some None
   | Some (it, st) \<Rightarrow> run_bind (klist_scan (rule_has_id st i) st it) (\<lambda>it.
       if klist_iterator_has_next it then (case klist_iterator_remove_current it st of
           None \<Rightarrow> Some None
         | Some (r, _, st) \<Rightarrow>
             run_bind (if r \<noteq> NULL then free_rule_and_unregister_filters r st else Some (Some st))
               (\<lambda>st. Some (Some (mess_proc_entry st))))
       else Some (Some st)))"

section \<open>interceptor_manager.c\<close>

definition start_interceptor_manager :: "fred \<Rightarrow> bool \<times> fred" where
  "start_interceptor_manager st = (case make_klist st of (l, st) \<Rightarrow> (l \<noteq> NULL, st\<lparr>int_list := l\<rparr>))"

definition stop_interceptor_manager :: "fred \<Rightarrow> fred run" where
  "stop_interceptor_manager st = (if int_list st \<noteq> NULL then free_klist None (int_list st) st else Some (Some st))"

definition add_interceptor_to_list :: "addr \<Rightarrow> addr \<Rightarrow> fred \<Rightarrow> fred option" where
  "add_interceptor_to_list l i st = (case make_klist_node i st of (n, st) \<Rightarrow> add_klist_node_to_klist l n st)"

definition register_interceptor :: "addr \<Rightarrow> fred \<Rightarrow> (bool \<times> fred) option" where
  "register_interceptor i st =
    (if int_list st \<noteq> NULL then do { st \<leftarrow> add_interceptor_to_list (int_list st) i st; Some (True, mess_proc_entry st) }
     else Some (False, st))"

definition interceptor_name :: "fred \<Rightarrow> addr \<Rightarrow> string option" where
  "interceptor_name st i = map_option i_name (deref (fdescs st) i)"

text \<open>The search loop of \<^verbatim>\<open>unregister_interceptor\<close>: the node variable keeps the last node looked at.\<close>

partial_function (option) find_interceptor ::
  "string \<Rightarrow> fred \<Rightarrow> klist_iterator option \<Rightarrow> addr \<Rightarrow> addr run"
where
  "find_interceptor name st it kn =
    (if \<not> klist_iterator_has_next it then Some (Some kn)
     else case do { (kn, it) \<leftarrow> klist_iterator_next it st; n \<leftarrow> deref (nodes st) kn; s \<leftarrow> interceptor_name st (n_data n);
                    Some (kn, it, s) } of
       None \<Rightarrow> Some None
     | Some (kn, it, s) \<Rightarrow> if name = s then Some (Some kn) else find_interceptor name st it kn)"

definition unregister_interceptor :: "string \<Rightarrow> fred \<Rightarrow> (bool \<times> fred) run" where
  "unregister_interceptor name st =
    (if int_list st = NULL then Some (Some (False, st))
     else case make_klist_iterator (int_list st) st of
       None \<Rightarrow> Some None
     | Some (it, st) \<Rightarrow> run_bind (find_interceptor name st it NULL) (\<lambda>kn.
         if kn = NULL then Some (Some (False, st))
         else run_bind (unregister_rules_for_interceptor name st) (\<lambda>st.
           case remove_klist_node_from_klist (int_list st) kn st of
             None \<Rightarrow> Some None
           | Some st \<Rightarrow> Some (Some (True, mess_proc_entry st)))))"

definition get_interceptor_iterator :: "fred \<Rightarrow> (klist_iterator option \<times> fred) option" where
  "get_interceptor_iterator st = make_klist_iterator (int_list st) st"

definition create_rule ::
  "(addr \<Rightarrow> addr \<Rightarrow> fred \<Rightarrow> addr \<times> fred) \<Rightarrow> string \<Rightarrow> addr \<Rightarrow> fred \<Rightarrow> (bool \<times> fred) run" where
  "create_rule mk name sp st =
    (if int_list st = NULL then Some (Some (False, st))
     else case make_klist_iterator (int_list st) st of
       None \<Rightarrow> Some None
     | Some (it, st) \<Rightarrow> run_bind (klist_scan (\<lambda>i. map_option (\<lambda>s. name = s) (interceptor_name st i)) st it) (\<lambda>it.
         if klist_iterator_has_next it then
           (case do { n \<leftarrow> Option.bind (klist_iterator_peek it) (deref (nodes st)); deref (fdescs st) (n_data n) } of
             None \<Rightarrow> Some None
           | Some d \<Rightarrow> (case mk (create_rule_for_specs_cb d) sp st of (r, st) \<Rightarrow>
               if r = NULL then Some (Some (False, st))
               else run_bind (register_rule r st) (\<lambda>st. Some (Some (True, st)))))
         else Some (Some (False, st))))"

definition remove_rule :: "u32 \<Rightarrow> fred \<Rightarrow> fred run" where
  "remove_rule rule_id st = unregister_rule rule_id st"

section \<open>main.c\<close>

text \<open>Loading the module: the two /proc entries and the hooks are registered with the kernel, so the part of
  the state that changes is the chains and the two managers. The result is 0 or -ENOMEM (False).\<close>

definition fred_init_module :: "fred \<Rightarrow> bool \<times> fred" where
  "fred_init_module st = (case start_interceptor_manager (init_chains st) of (ok, st) \<Rightarrow>
     if \<not> ok then (False, st) else start_rule_manager st)"

definition fred_cleanup_module :: "fred \<Rightarrow> fred run" where
  "fred_cleanup_module st = run_bind (stop_interceptor_manager st) stop_rule_manager"


section \<open>Unregistering the rules of an interceptor\<close>

text \<open>The iterator stands at a rule of another interceptor.\<close>

definition at_foreign_rule :: "string \<Rightarrow> klist_iterator option \<Rightarrow> fred \<Rightarrow> bool" where
  "at_foreign_rule name it st = (klist_iterator_has_next it \<and>
    (\<exists>n s. Option.bind (klist_iterator_peek it) (deref (nodes st)) = Some n \<and> rule_interceptor_name st (n_data n) = Some s \<and> name \<noteq> s))"

lemma foreign_rule_diverges: "at_foreign_rule name it st \<Longrightarrow> unregister_rules_loop name it st = None"
proof (rule ccontr)
  assume foreign: "at_foreign_rule name it st" and "unregister_rules_loop name it st \<noteq> None"
  then obtain y where "unregister_rules_loop name it st = Some y" by blast
  then have "\<not> at_foreign_rule name it st"
  proof (rule unregister_rules_loop.raw_induct [rotated])
    fix f name it st y
    assume IH: "\<And>name it st y. f name it st = Some y \<Longrightarrow> \<not> at_foreign_rule name it st"
      and body: "(if \<not> klist_iterator_has_next it then Some (Some st)
     else case do { n \<leftarrow> Option.bind (klist_iterator_peek it) (deref (nodes st)); rule_interceptor_name st (n_data n) } of
       None \<Rightarrow> Some None
     | Some s \<Rightarrow>
         if name = s then (case klist_iterator_remove_current it st of
             None \<Rightarrow> Some None
           | Some (r, it, st) \<Rightarrow>
               Option.bind (if r \<noteq> NULL then free_rule_and_unregister_filters r st else Some (Some st)) (\<lambda>x. case x of
                 None \<Rightarrow> Some None
               | Some st \<Rightarrow> f name it (mess_proc_entry st)))
         else f name it st) = Some y"
    show "\<not> at_foreign_rule name it st"
    proof
      assume "at_foreign_rule name it st"
      with body have "f name it st = Some y" by (auto simp: at_foreign_rule_def Option.bind_eq_Some_conv)
      with IH \<open>at_foreign_rule name it st\<close> show False by blast
    qed
  qed
  with foreign show False by contradiction
qed

text \<open>C32: unregistering the rules of an interceptor never ends when the first rule of the list
  belongs to another interceptor. The loop advances its iterator only by removing a rule, so it looks at that
  rule for ever; the module unload that called it hangs.\<close>

theorem unregister_rules_diverges:
  assumes "klist_at st (manager_rule_list st) ((q, r) # rs)" and "kmem st = i # ps" and "i \<noteq> NULL"
    and "rule_interceptor_name st r = Some s" and "name \<noteq> s"
  shows "unregister_rules_for_interceptor name st = None"
proof -
  let ?it = "Some \<lparr>it_list = manager_rule_list st, it_cur = q\<rparr>"
  have name: "rule_interceptor_name (st\<lparr>kmem := ps\<rparr>) r = Some s" using assms(4) by (simp add: rule_interceptor_name_def)
  have "at_foreign_rule name ?it (st\<lparr>kmem := ps\<rparr>)"
    using klist_at_dll [OF assms(1)] name assms(5)
    by (simp add: at_foreign_rule_def klist_iterator_has_next_def klist_iterator_peek_def)
  from foreign_rule_diverges [OF this] show ?thesis
    using make_klist_iterator_ok [OF assms(1,2)] assms(3) by (simp add: unregister_rules_for_interceptor_def)
qed

text \<open>A framework with one interceptor, \<^verbatim>\<open>sync\<close>, and one rule of it.\<close>

definition fred1 :: fred where
  "fred1 = fred0\<lparr>nodes := [50 \<mapsto> \<lparr>n_data = 60, n_front = 0, n_back = 0\<rparr>, 51 \<mapsto> \<lparr>n_data = 70, n_front = 0, n_back = 0\<rparr>],
     lists := [40 \<mapsto> \<lparr>k_first = 50, k_last = 50\<rparr>, 41 \<mapsto> \<lparr>k_first = 51, k_last = 51\<rparr>],
     manager_rule_list := 40, int_list := 41,
     frules := [60 \<mapsto> \<lparr>r_id = 7, r_interceptor = 70, number_of_filters = 0, r_filters = []\<rparr>],
     fdescs := [70 \<mapsto> \<lparr>i_name = ''sync'', create_rule_for_specs_cb = 0\<rparr>]\<rparr>"

theorem unregister_rules_diverges_witness: "unregister_rules_for_interceptor ''agg'' fred1 = None"
proof (rule unregister_rules_diverges)
  show "klist_at fred1 (manager_rule_list fred1) ((50, 60) # [])" by (simp add: fred1_def klist_at_def)
  show "kmem fred1 = 1 # [2..<40]" by (simp add: fred1_def fred0_def upt_conv_Cons)
  show "rule_interceptor_name fred1 60 = Some ''sync''" by (simp add: fred1_def rule_interceptor_name_def)
qed simp_all

section \<open>Unregistering an interceptor\<close>

lemma find_interceptor_ok:
  assumes "dll (nodes st) b xs NULL" and "\<forall>x\<in>set xs. interceptor_name st (snd x) \<noteq> None"
  shows "find_interceptor name st (Some \<lparr>it_list = l, it_cur = head_of xs NULL\<rparr>) kn = Some (Some
    (case List.find (\<lambda>x. interceptor_name st (snd x) = Some name) xs of None \<Rightarrow> tail_of kn xs | Some x \<Rightarrow> fst x))"
  using assms
proof (induction xs arbitrary: b kn)
  case Nil
  then show ?case by (simp add: find_interceptor.simps klist_iterator_has_next_def)
next
  case (Cons x xs)
  then obtain s where s: "interceptor_name st (snd x) = Some s" by auto
  show ?case
    using Cons s by (subst find_interceptor.simps)
      (cases "s = name", auto simp: klist_iterator_has_next_def klist_iterator_next_def split: option.split)
qed

lemma no_rules_to_unregister:
  assumes "klist_at st (manager_rule_list st) []" and "kmem st = i # ps"
  shows "unregister_rules_for_interceptor name st = Some (Some (st\<lparr>kmem := ps\<rparr>))"
  using make_klist_iterator_ok [OF assms]
  by (simp add: unregister_rules_for_interceptor_def unregister_rules_loop.simps klist_iterator_has_next_def)

text \<open>unregistering a name nobody registered removes somebody else. With no rules left, the
  call answers 1 and takes the last interceptor of the list out, because the search loop leaves its node
  variable at the last node it saw.\<close>

theorem unregister_unknown_removes_last:
  assumes "klists st L" and "L (int_list st) = Some (xs @ [(p, d)])" and "L (manager_rule_list st) = Some []"
    and "\<forall>x\<in>set (xs @ [(p, d)]). \<exists>s. interceptor_name st (snd x) = Some s \<and> s \<noteq> name"
    and "kmem st = i # j # ps" and "i \<noteq> NULL"
  shows "\<exists>st'. unregister_interceptor name st = Some (Some (True, st')) \<and> klists st' (L(int_list st \<mapsto> xs))"
proof -
  let ?l = "int_list st" and ?xs = "xs @ [(p, d)]"
  let ?st = "st\<lparr>kmem := j # ps\<rparr>" and ?st' = "st\<lparr>kmem := ps\<rparr>"
  have at: "klist_at st ?l ?xs" "klist_at ?st (manager_rule_list ?st) []"
    using klists_at [OF assms(1,2)] klists_at [OF assms(1,3)] by (simp_all add: klist_at_def)
  have names: "interceptor_name ?st = interceptor_name st" by (simp add: interceptor_name_def fun_eq_iff)
  have "List.find (\<lambda>x. interceptor_name ?st (snd x) = Some name) ?xs = None"
    unfolding names find_None_iff using assms(4) by auto
  then have find: "find_interceptor name ?st (Some \<lparr>it_list = ?l, it_cur = head_of ?xs NULL\<rparr>) NULL = Some (Some p)"
    using find_interceptor_ok [of ?st NULL ?xs name ?l NULL] klist_at_dll [OF at(1)] assms(4) by (auto simp: names)
  have "klists ?st' L" using assms(1) by simp
  from remove_klist_node_from_klist_ok [OF this assms(2)]
  obtain st' where st': "remove_klist_node_from_klist ?l p ?st' = Some st'" "klists st' (L(?l \<mapsto> xs))"
    unfolding append_Nil2 by blast
  have "p \<noteq> NULL" "?l \<noteq> NULL" using at(1) klist_at_dll [OF at(1)] by (auto simp: klist_at_def dll_append)
  then have "unregister_interceptor name st = Some (Some (True, mess_proc_entry st'))"
    using make_klist_iterator_ok [OF at(1) assms(5)] assms(6) find st'(1) no_rules_to_unregister [OF at(2), of j ps name]
    by (simp add: unregister_interceptor_def)
  moreover have "klists (mess_proc_entry st') (L(?l \<mapsto> xs))"
    by (rule klists_cong [OF st'(2)]) (simp_all add: mess_proc_entry_def)
  ultimately show ?thesis by blast
qed

theorem unregister_unknown_removes_last_witness:
  "\<exists>st'. unregister_interceptor ''agg'' (fred1\<lparr>lists := (lists fred1)(40 \<mapsto> \<lparr>k_first = 0, k_last = 0\<rparr>)\<rparr>) = Some (Some (True, st'))
    \<and> klists st' [40 \<mapsto> [], 41 \<mapsto> []]"
proof -
  let ?st = "fred1\<lparr>lists := (lists fred1)(40 \<mapsto> \<lparr>k_first = 0, k_last = 0\<rparr>)\<rparr>"
  have "klists ?st [40 \<mapsto> [], 41 \<mapsto> [(51, 70)]]" by (auto simp: klists_def klist_at_def fred1_def split: if_splits)
  moreover have "kmem ?st = 1 # 2 # [3..<40]" by (simp add: fred1_def fred0_def upt_conv_Cons)
  ultimately show ?thesis
    using unregister_unknown_removes_last [of ?st "[40 \<mapsto> [], 41 \<mapsto> [(51, 70)]]" "[]" 51 70 "''agg''"]
    by (simp add: fred1_def interceptor_name_def)
qed

section \<open>Removing a rule\<close>

text \<open>Every filter is in the chain of its point, once.\<close>

definition filters_in_place :: "fred \<Rightarrow> (addr \<rightharpoonup> (addr \<times> addr) list) \<Rightarrow> bool" where
  "filters_in_place st L = (\<forall>c<CHAINS_SIZE. distinct (chain_filters st L c)
     \<and> (\<forall>f\<in>set (chain_filters st L c). \<exists>fl. ffilters st f = Some fl \<and> chain_of (filter_at fl) = Some c))"

definition filter_valid :: "fred \<Rightarrow> addr \<Rightarrow> bool" where
  "filter_valid st f = (f \<noteq> NULL \<and> (\<exists>fl c. ffilters st f = Some fl \<and> chain_of (filter_at fl) = Some c))"

lemma chain_filters_ffilters [simp]: "chain_filters (st\<lparr>ffilters := F\<rparr>) L k = chain_filters st L k"
  "chain_filters (st\<lparr>fspecs := S\<rparr>) L k = chain_filters st L k"
  by (simp_all add: chain_filters_def get_chain_def)

lemma chains_ok_fspecs [simp]: "chains_ok (st\<lparr>fspecs := S\<rparr>) L = chains_ok st L"
  by (simp add: chains_ok_def klists_def klist_at_def kmem_ok_def chain_ok_def filter_list_ok_def prio_def)

text \<open>Freeing a filter that no chain holds.\<close>

lemma chains_ok_free_filter:
  assumes "chains_ok st L" and "\<forall>k<CHAINS_SIZE. f \<notin> set (chain_filters st L k)"
  shows "chains_ok (st\<lparr>ffilters := (ffilters st)(f := None)\<rparr>) L"
proof -
  let ?st = "st\<lparr>ffilters := (ffilters st)(f := None)\<rparr>"
  have each: "chain_ok ?st L ch" if ch: "ch \<in> set (fchains st)" for ch
  proof -
    obtain k where "k < length (fchains st)" "fchains st ! k = ch" using ch unfolding in_set_conv_nth by blast
    then have k: "k < CHAINS_SIZE" "ch = get_chain k st" using assms(1) by (simp_all add: get_chain_def chains_ok_def)
    obtain xs where xs: "L (c_filters (get_chain k st)) = Some xs" "c_len (get_chain k st) = of_nat (length xs)"
        "filter_list_ok st (map snd xs)" "chain_filters st L k = map snd xs"
      by (rule chains_okD [OF assms(1) k(1)])
    have free: "\<forall>g\<in>set (map snd xs). g \<noteq> f" using assms(2) k(1) xs(4) by metis
    then have prios: "\<forall>g\<in>set (map snd xs). prio ?st g = prio st g" by (simp add: prio_def)
    have "sorted_wrt (\<lambda>f g. prio st f \<ge> prio st g) (map snd xs)" using xs(3) by (simp add: filter_list_ok_def)
    then have "sorted_wrt (\<lambda>f g. prio ?st f \<ge> prio ?st g) (map snd xs)"
      by (rule sorted_wrt_mono_rel [rotated]) (use prios in metis)
    then have "filter_list_ok ?st (map snd xs)" using xs(3) free by (simp add: filter_list_ok_def)
    then show ?thesis unfolding chain_ok_def k(2) using xs(1,2) by blast
  qed
  have heap: "klists ?st L" "kmem_ok ?st"
    using assms(1) klists_cong [of st L ?st] by (simp_all add: chains_ok_def kmem_ok_def)
  have arr: "fchains ?st = fchains st" by simp
  show ?thesis
    using heap each assms(1) unfolding chains_ok_def arr by blast
qed

lemma unregister_and_free_ok:
  assumes ok: "chains_ok st L" and place: "filters_in_place st L" and f: "filter_valid st f"
    and mem: "kmem st = i # ps" "i \<noteq> NULL"
  obtains (freed) st1 L' where "unregister_filter f st = Some (Some st1)" and "chains_only st st1" and "kmem st1 = ps"
    and "chains_ok (free_filter f st1) L'" and "filters_in_place (free_filter f st1) L'"
    and "\<forall>k<CHAINS_SIZE. chain_filters (free_filter f st1) L' k = removeAll f (chain_filters st L k)"
    and "\<forall>l. l \<notin> c_filters ` set (fchains st) \<longrightarrow> L' l = L l"
proof -
  obtain fl c where fl: "f \<noteq> NULL" "ffilters st f = Some fl" "chain_of (filter_at fl) = Some c"
    using f by (auto simp: filter_valid_def)
  have c: "c < CHAINS_SIZE" using fl(3) by (rule chain_of_less)
  obtain st1 L' where st1: "unregister_in_chain c f st = Some (Some st1)" "chains_ok st1 L'"
      "\<forall>k<CHAINS_SIZE. chain_filters st1 L' k = (if k = c then remove1 f (chain_filters st L c) else chain_filters st L k)"
      "chains_only st st1" "kmem st1 = ps" "\<forall>l. l \<noteq> c_filters (get_chain c st) \<longrightarrow> L' l = L l"
    by (rule unregister_in_chain_ok [OF ok c mem])
  have run: "unregister_filter f st = Some (Some st1)" using st1(1) fl by (simp add: unregister_filter_def)
  have other: "f \<notin> set (chain_filters st L k)" if "k < CHAINS_SIZE" "k \<noteq> c" for k
    using place that fl unfolding filters_in_place_def by fastforce
  have chains: "chain_filters st1 L' k = removeAll f (chain_filters st L k)" if "k < CHAINS_SIZE" for k
    using st1(3) that other [OF that] place c by (cases "k = c") (auto simp: filters_in_place_def distinct_remove1_removeAll)
  then have ok': "chains_ok (free_filter f st1) L'"
    unfolding free_filter_def by (intro chains_ok_free_filter [OF st1(2)]) simp
  have "filters_in_place (free_filter f st1) L'"
    using place st1(4) chains by (auto simp: filters_in_place_def free_filter_def chains_only_def distinct_removeAll)
  moreover have "\<forall>l. l \<notin> c_filters ` set (fchains st) \<longrightarrow> L' l = L l"
    using st1(6) c ok by (auto simp: get_chain_def chains_ok_def)
  ultimately show thesis
    using freed [OF run st1(4,5) ok'] chains by (simp add: free_filter_def)
qed

text \<open>What a removal of filters leaves alone: the lists that are not chains, the rules and the interceptors.\<close>

definition filters_only :: "fred \<Rightarrow> fred \<Rightarrow> bool" where
  "filters_only st st' = (frules st' = frules st \<and> fdescs st' = fdescs st \<and> manager_rule_list st' = manager_rule_list st
     \<and> int_list st' = int_list st \<and> rule_ids st' = rule_ids st \<and> map c_filters (fchains st') = map c_filters (fchains st))"

lemma filters_only_trans: "filters_only st st' \<Longrightarrow> filters_only st' st'' \<Longrightarrow> filters_only st st''"
  by (simp add: filters_only_def)

lemma filters_only_free:
  "chains_only st st1 \<Longrightarrow> filters_only st (free_filter f st1)"
  "chains_only st st1 \<Longrightarrow> filters_only st (free_filter f (free_filter_specs sp st1))"
  by (simp_all add: filters_only_def chains_only_def free_filter_def free_filter_specs_def)

lemma filter_valid_free:
  "filter_valid st g \<Longrightarrow> g \<noteq> f \<Longrightarrow> chains_only st st1 \<Longrightarrow> filter_valid (free_filter f st1) g"
  by (simp add: filter_valid_def free_filter_def chains_only_def)

lemma filters_in_place_fspecs [simp]: "filters_in_place (st\<lparr>fspecs := S\<rparr>) L = filters_in_place st L"
  by (simp add: filters_in_place_def)

lemma free_filter_specs_commute: "free_filter f (free_filter_specs sp st) = free_filter_specs sp (free_filter f st)"
  by (simp add: free_filter_def free_filter_specs_def)

text \<open>One round of the loop; in round 0 the specification goes too, which no chain depends on.\<close>

lemma free_rule_round:
  assumes "i < length fs" and "unregister_filter (fs ! i) st = Some (Some st1)" and "chains_only st st1"
    and "filter_valid st (fs ! i)"
  obtains S where "free_rule_from (Suc k) i fs st = free_rule_from k (Suc i) fs ((free_filter (fs ! i) st1)\<lparr>fspecs := S\<rparr>)"
proof (cases i)
  case 0
  from assms(3,4) obtain fl where "ffilters st1 (fs ! i) = Some fl" "fs ! i \<noteq> NULL"
    by (auto simp: filter_valid_def chains_only_def)
  with 0 assms that [of "(fspecs st1)(f_specs fl := None)"] show thesis
    by (simp add: free_filter_specs_commute) (simp add: free_filter_specs_def free_filter_def)
next
  case (Suc j)
  with assms that [of "fspecs (free_filter (fs ! i) st1)"] show thesis by simp
qed

lemma free_rule_from_ok:
  assumes "chains_ok st L" and "filters_in_place st L" and "\<forall>f\<in>set (drop i fs). filter_valid st f" and "distinct (drop i fs)"
    and "i + k = length fs" and "kmem st = ms @ ps" and "length ms = k" and "\<forall>p\<in>set ms. p \<noteq> NULL"
  shows "\<exists>st' L'. free_rule_from k i fs st = Some (Some st') \<and> chains_ok st' L' \<and> filters_in_place st' L' \<and> kmem st' = ps
    \<and> (\<forall>c<CHAINS_SIZE. chain_filters st' L' c = filter (\<lambda>g. g \<notin> set (drop i fs)) (chain_filters st L c))
    \<and> filters_only st st' \<and> (\<forall>l. l \<notin> c_filters ` set (fchains st) \<longrightarrow> L' l = L l)"
  using assms
proof (induction k arbitrary: i st L ms)
  case 0
  then show ?case by (auto simp: filters_only_def)
next
  case (Suc k)
  obtain m ms' where ms: "ms = m # ms'" "kmem st = m # (ms' @ ps)" "m \<noteq> NULL" "length ms' = k" "\<forall>p\<in>set ms'. p \<noteq> NULL"
    using Suc.prems(6-8) by (cases ms) auto
  have i: "i < length fs" "drop i fs = fs ! i # drop (Suc i) fs" using Suc.prems(5) by (simp_all add: Cons_nth_drop_Suc)
  have f: "filter_valid st (fs ! i)" using Suc.prems(3) i(2) by simp
  obtain st1 L1 where st1: "unregister_filter (fs ! i) st = Some (Some st1)" "chains_only st st1" "kmem st1 = ms' @ ps"
      "chains_ok (free_filter (fs ! i) st1) L1" "filters_in_place (free_filter (fs ! i) st1) L1"
      "\<forall>k<CHAINS_SIZE. chain_filters (free_filter (fs ! i) st1) L1 k = removeAll (fs ! i) (chain_filters st L k)"
      "\<forall>l. l \<notin> c_filters ` set (fchains st) \<longrightarrow> L1 l = L l"
    by (rule unregister_and_free_ok [OF Suc.prems(1,2) f ms(2,3)])
  obtain S where round: "free_rule_from (Suc k) i fs st = free_rule_from k (Suc i) fs ((free_filter (fs ! i) st1)\<lparr>fspecs := S\<rparr>)"
    by (rule free_rule_round [OF i(1) st1(1,2) f])
  let ?st = "(free_filter (fs ! i) st1)\<lparr>fspecs := S\<rparr>"
  have rest: "\<forall>g\<in>set (drop (Suc i) fs). filter_valid ?st g"
  proof
    fix g assume g: "g \<in> set (drop (Suc i) fs)"
    then have "g \<noteq> fs ! i" "filter_valid st g" using Suc.prems(3,4) i(2) by auto
    then show "filter_valid ?st g" using filter_valid_free [OF _ _ st1(2)] by (simp add: filter_valid_def)
  qed
  have only: "filters_only st ?st" using st1(2) by (simp add: filters_only_def chains_only_def free_filter_def)
  have heads: "c_filters ` set (fchains ?st) = c_filters ` set (fchains st)"
    using only unfolding filters_only_def by (metis list.set_map)
  obtain st' L' where st': "free_rule_from k (Suc i) fs ?st = Some (Some st')" "chains_ok st' L'" "filters_in_place st' L'"
      "kmem st' = ps" "\<forall>c<CHAINS_SIZE. chain_filters st' L' c = filter (\<lambda>g. g \<notin> set (drop (Suc i) fs)) (chain_filters ?st L1 c)"
      "filters_only ?st st'" "\<forall>l. l \<notin> c_filters ` set (fchains ?st) \<longrightarrow> L' l = L1 l"
    using Suc.IH [of ?st L1 "Suc i" ms'] st1(3-5) rest Suc.prems(4,5) i(2) ms(4,5) by (auto simp: free_filter_def)
  show ?case
    by (rule exI [of _ st'], rule exI [of _ L'])
      (use st' round st1(6,7) heads filters_only_trans [OF only st'(6)] in
        \<open>auto simp: i(2) removeAll_filter_not_eq intro!: filter_cong\<close>)
qed

text \<open>A change of lists that are no chains.\<close>

lemma chains_ok_other_list:
  assumes "chains_ok st L" and "klists st' L'" and "kmem_ok st'" and "fchains st' = fchains st" and "ffilters st' = ffilters st"
    and "\<forall>l\<in>c_filters ` set (fchains st). L' l = L l"
  shows "chains_ok st' L'" and "c < CHAINS_SIZE \<Longrightarrow> chain_filters st' L' c = chain_filters st L c"
proof -
  have flo: "filter_list_ok st' = filter_list_ok st" using assms(5) by (rule filter_list_ok_cong)
  have "chain_ok st' L' ch" if "ch \<in> set (fchains st)" for ch
    using assms(1,6) that unfolding chain_ok_def chains_ok_def flo by auto
  then show "chains_ok st' L'" using assms(1-4) unfolding chains_ok_def by auto
  show "chain_filters st' L' c = chain_filters st L c" if "c < CHAINS_SIZE"
    using assms(1,4,6) that by (simp add: chain_filters_def get_chain_def chains_ok_def)
qed

lemma chains_ok_frules [simp]:
  "chains_ok (st\<lparr>frules := R\<rparr>) L = chains_ok st L" "chains_ok (mess_proc_entry st) L = chains_ok st L"
  "filters_in_place (st\<lparr>frules := R\<rparr>) L = filters_in_place st L" "filters_in_place (mess_proc_entry st) L = filters_in_place st L"
  "chain_filters (st\<lparr>frules := R\<rparr>) L c = chain_filters st L c" "chain_filters (mess_proc_entry st) L c = chain_filters st L c"
  by (simp_all add: chains_ok_def klists_def klist_at_def kmem_ok_def chain_ok_def filter_list_ok_def prio_def
      mess_proc_entry_def filters_in_place_def chain_filters_def get_chain_def)

lemma chain_filters_kmem [simp]: "chain_filters (st\<lparr>kmem := ks\<rparr>) L c = chain_filters st L c"
  by (simp add: chain_filters_def)

lemma mess_proc_entry_simps [simp]:
  "proc_dirty (mess_proc_entry st)" "frules (mess_proc_entry st) = frules st"
  "manager_rule_list (mess_proc_entry st) = manager_rule_list st"
  by (simp_all add: mess_proc_entry_def)

definition rule_valid :: "fred \<Rightarrow> srule \<Rightarrow> bool" where
  "rule_valid st rl = (unat (number_of_filters rl) = length (r_filters rl) \<and> distinct (r_filters rl)
     \<and> (\<forall>f\<in>set (r_filters rl). filter_valid st f))"

lemma rule_scan:
  assumes "klist_at st l (xs @ (q, r) # ys)" and "\<forall>x\<in>set (xs @ (q, r) # ys). snd x \<noteq> NULL \<and> frules st (snd x) \<noteq> None"
    and "\<forall>x\<in>set xs. r_id (the (frules st (snd x))) \<noteq> i" and "r_id (the (frules st r)) = i"
  shows "klist_scan (rule_has_id st i) st (Some \<lparr>it_list = l, it_cur = head_of (xs @ (q, r) # ys) NULL\<rparr>)
    = Some (Some (Some \<lparr>it_list = l, it_cur = q\<rparr>))"
proof -
  have test: "rule_has_id st i (snd x) = Some (r_id (the (frules st (snd x))) = i)" if "x \<in> set (xs @ (q, r) # ys)" for x
    using assms(2) that by (force simp: rule_has_id_def)
  have "dropWhile (\<lambda>x. rule_has_id st i (snd x) = Some False) (xs @ (q, r) # ys) = (q, r) # ys"
    using test [of "(q, r)"] test assms(3,4) by (subst dropWhile_append2) auto
  then show ?thesis
    using klist_scan_ok [OF klist_at_dll [OF assms(1)], of "rule_has_id st i" l] test by simp
qed

text \<open>Taking the node of a rule out of the list leaves the chains as they are.\<close>

lemma remove_rule_node_ok:
  assumes ok: "chains_ok st L" "filters_in_place st L" and l: "L l = Some (xs @ (q, r) # ys)"
    and apart: "l \<notin> c_filters ` set (fchains st)"
  obtains st' where "klist_iterator_remove_current (Some \<lparr>it_list = l, it_cur = q\<rparr>) st
      = Some (r, Some \<lparr>it_list = l, it_cur = head_of ys NULL\<rparr>, st')"
    and "chains_ok st' (L(l \<mapsto> xs @ ys))" and "filters_in_place st' (L(l \<mapsto> xs @ ys))"
    and "\<forall>c<CHAINS_SIZE. chain_filters st' (L(l \<mapsto> xs @ ys)) c = chain_filters st L c"
    and "chains_only st st'" and "kmem st' = kmem st" and "fchains st' = fchains st"
proof -
  have kl: "klists st L" "kmem_ok st" using ok(1) by (simp_all add: chains_ok_def)
  obtain st' where st': "klist_iterator_remove_current (Some \<lparr>it_list = l, it_cur = q\<rparr>) st
      = Some (r, Some \<lparr>it_list = l, it_cur = head_of ys NULL\<rparr>, st')" "klists st' (L(l \<mapsto> xs @ ys))" "relink st st'"
    by (rule klist_iterator_remove_current_ok [OF kl(1) l])
  have same: "chains_only st st'" "fchains st' = fchains st" "kmem st' = kmem st" "ffilters st' = ffilters st"
    using more_eq [of st' st] st'(3) by (simp_all add: relink_def chains_only_def)
  have heads: "\<forall>k\<in>c_filters ` set (fchains st). (L(l \<mapsto> xs @ ys)) k = L k" using apart by auto
  note other = chains_ok_other_list [OF ok(1) st'(2) relink_kmem_ok [OF st'(3) kl(2)] same(2,4) heads]
  have "filters_in_place st' (L(l \<mapsto> xs @ ys))"
    unfolding filters_in_place_def same(4)
  proof (intro allI impI)
    fix c assume c: "c < CHAINS_SIZE"
    show "distinct (chain_filters st' (L(l \<mapsto> xs @ ys)) c) \<and> (\<forall>f\<in>set (chain_filters st' (L(l \<mapsto> xs @ ys)) c).
        \<exists>fl. ffilters st f = Some fl \<and> chain_of (filter_at fl) = Some c)"
      using ok(2) c unfolding other(2) [OF c] filters_in_place_def by blast
  qed
  then show thesis using that [OF st'(1) other(1)] other(2) same by blast
qed

text \<open>C17: removing a rule. When a rule with the given id is in the list, its removal ends, takes
  that rule and no other out of the list, takes exactly its filters out of the chains, frees the rule and
  marks the /proc listing as stale; the chains stay sorted and counted.\<close>

theorem unregister_rule_removes:
  assumes "chains_ok st L" and "filters_in_place st L" and "manager_rule_list st \<notin> c_filters ` set (fchains st)"
    and "L (manager_rule_list st) = Some (xs @ (q, r) # ys)"
    and "\<forall>x\<in>set (xs @ (q, r) # ys). snd x \<noteq> NULL \<and> frules st (snd x) \<noteq> None"
    and "\<forall>x\<in>set xs. r_id (the (frules st (snd x))) \<noteq> i" and "frules st r = Some rl" and "r_id rl = i" and "rule_valid st rl"
    and "kmem st = m # ms @ ps" and "m \<noteq> NULL" and "length ms = length (r_filters rl)" and "\<forall>p\<in>set ms. p \<noteq> NULL"
  shows "\<exists>st' L'. unregister_rule i st = Some (Some st') \<and> chains_ok st' L' \<and> filters_in_place st' L'
    \<and> L' (manager_rule_list st') = Some (xs @ ys) \<and> frules st' = (frules st)(r := None) \<and> proc_dirty st'
    \<and> (\<forall>c<CHAINS_SIZE. chain_filters st' L' c = filter (\<lambda>f. f \<notin> set (r_filters rl)) (chain_filters st L c))"
proof -
  let ?l = "manager_rule_list st" and ?st = "st\<lparr>kmem := ms @ ps\<rparr>"
  have at: "klist_at st ?l (xs @ (q, r) # ys)" using assms(1,4) by (auto simp: chains_ok_def)
  have ok: "chains_ok ?st L" "filters_in_place ?st L"
    using chains_ok_other_list(1) [OF assms(1), of ?st L] assms(1,2) kmem_ok_tl [OF _ assms(10)]
    by (simp_all add: chains_ok_def filters_in_place_def chain_filters_def)
  have "klist_at ?st ?l (xs @ (q, r) # ys)" using at by (simp add: klist_at_def)
  from rule_scan [OF this, of i] assms(5-8)
  have scan: "klist_scan (rule_has_id ?st i) ?st (Some \<lparr>it_list = ?l, it_cur = head_of (xs @ (q, r) # ys) NULL\<rparr>)
      = Some (Some (Some \<lparr>it_list = ?l, it_cur = q\<rparr>))" by simp
  obtain st1 where st1: "klist_iterator_remove_current (Some \<lparr>it_list = ?l, it_cur = q\<rparr>) ?st
        = Some (r, Some \<lparr>it_list = ?l, it_cur = head_of ys NULL\<rparr>, st1)"
      "chains_ok st1 (L(?l \<mapsto> xs @ ys))" "filters_in_place st1 (L(?l \<mapsto> xs @ ys))"
      "\<forall>c<CHAINS_SIZE. chain_filters st1 (L(?l \<mapsto> xs @ ys)) c = chain_filters ?st L c"
      "chains_only ?st st1" "kmem st1 = ms @ ps" "fchains st1 = fchains st"
    by (rule remove_rule_node_ok [OF ok assms(4)]) (use assms(3) in simp_all)
  have valid: "\<forall>f\<in>set (drop 0 (r_filters rl)). filter_valid st1 f" "distinct (drop 0 (r_filters rl))"
    and len: "unat (number_of_filters rl) = length (r_filters rl)"
    using assms(9) st1(5) by (simp_all add: rule_valid_def filter_valid_def chains_only_def)
  obtain st2 L2 where st2: "free_rule_from (length (r_filters rl)) 0 (r_filters rl) st1 = Some (Some st2)" "chains_ok st2 L2"
      "filters_in_place st2 L2" "filters_only st1 st2" "L2 ?l = Some (xs @ ys)"
      "\<forall>c<CHAINS_SIZE. chain_filters st2 L2 c = filter (\<lambda>g. g \<notin> set (r_filters rl)) (chain_filters st1 (L(?l \<mapsto> xs @ ys)) c)"
    using free_rule_from_ok [OF st1(2,3) valid _ st1(6) assms(12,13)] assms(3) st1(7) by auto
  have q: "q \<noteq> NULL" "r \<noteq> NULL" using klist_at_dll [OF at] assms(5) by (auto simp: dll_append)
  have "unregister_rule i st = Some (Some (mess_proc_entry (st2\<lparr>frules := (frules st2)(r := None)\<rparr>)))"
    using make_klist_iterator_ok [OF at assms(10)] assms(7,11) scan st1(1,5) st2(1) q len
    by (simp add: unregister_rule_def klist_iterator_has_next_def free_rule_and_unregister_filters_def chains_only_def)
  then show ?thesis
    using st2 st1(4,5) by (intro exI [of _ "mess_proc_entry (st2\<lparr>frules := (frules st2)(r := None)\<rparr>)"] exI [of _ L2])
      (simp add: filters_only_def chains_only_def)
qed

text \<open>A framework with one rule of one filter, in the local-out chain.\<close>

definition fred2 :: fred where
  "fred2 = fred1\<lparr>nodes := (nodes fred1)(52 \<mapsto> \<lparr>n_data = 100, n_front = 0, n_back = 0\<rparr>),
     lists := (lists fred1)(1 \<mapsto> \<lparr>k_first = 52, k_last = 52\<rparr>, 2 \<mapsto> \<lparr>k_first = 0, k_last = 0\<rparr>, 3 \<mapsto> \<lparr>k_first = 0, k_last = 0\<rparr>,
       4 \<mapsto> \<lparr>k_first = 0, k_last = 0\<rparr>, 5 \<mapsto> \<lparr>k_first = 0, k_last = 0\<rparr>),
     fchains := [\<lparr>c_filters = 1, c_len = 1\<rparr>, \<lparr>c_filters = 2, c_len = 0\<rparr>, \<lparr>c_filters = 3, c_len = 0\<rparr>,
       \<lparr>c_filters = 4, c_len = 0\<rparr>, \<lparr>c_filters = 5, c_len = 0\<rparr>],
     kmem := [6, 7, 8, 9],
     frules := [60 \<mapsto> \<lparr>r_id = 7, r_interceptor = 70, number_of_filters = 1, r_filters = [100]\<rparr>]\<rparr>"

definition fred2_lists :: "addr \<rightharpoonup> (addr \<times> addr) list" where
  "fred2_lists = [40 \<mapsto> [(50, 60)], 1 \<mapsto> [(52, 100)], 2 \<mapsto> [], 3 \<mapsto> [], 4 \<mapsto> [], 5 \<mapsto> []]"

lemma fred2_ok: "chains_ok fred2 fred2_lists" "filters_in_place fred2 fred2_lists"
proof -
  have "klists fred2 fred2_lists"
    by (auto simp: klists_def klist_at_def fred2_def fred2_lists_def fred1_def split: if_splits)
  moreover have "kmem_ok fred2" by (auto simp: kmem_ok_def fred2_def fred1_def)
  ultimately show "chains_ok fred2 fred2_lists"
    by (simp add: chains_ok_def chain_ok_def filter_list_ok_def fred2_def fred2_lists_def fred1_def fred0_def CHAINS_SIZE_def)
  show "filters_in_place fred2 fred2_lists"
    unfolding filters_in_place_def
  proof (intro allI impI)
    fix c assume "c < CHAINS_SIZE"
    then consider "c = 0" | "c = 1" | "c = 2" | "c = 3" | "c = 4" by (auto simp: CHAINS_SIZE_def less_Suc_eq numeral_eq_Suc)
    then show "distinct (chain_filters fred2 fred2_lists c) \<and> (\<forall>f\<in>set (chain_filters fred2 fred2_lists c).
        \<exists>fl. ffilters fred2 f = Some fl \<and> chain_of (filter_at fl) = Some c)"
      by cases (simp_all add: chain_filters_def get_chain_def fred2_def fred2_lists_def fred1_def fred0_def chain_of_def filter_consts)
  qed
qed

theorem unregister_rule_removes_witness:
  "\<exists>st' L'. unregister_rule 7 fred2 = Some (Some st') \<and> L' (manager_rule_list st') = Some [] \<and> chain_filters st' L' 0 = []"
proof -
  let ?rl = "\<lparr>r_id = 7, r_interceptor = 70, number_of_filters = 1, r_filters = [100]\<rparr> :: srule"
  have sel: "manager_rule_list fred2 = 40" "fred2_lists 40 = Some ([] @ (50, 60) # [])" "frules fred2 60 = Some ?rl"
    "kmem fred2 = 6 # [7] @ [8, 9]" "40 \<notin> c_filters ` set (fchains fred2)" "chain_filters fred2 fred2_lists 0 = [100]"
    by (simp_all add: fred2_def fred2_lists_def fred1_def chain_filters_def get_chain_def)
  have valid: "rule_valid fred2 ?rl"
    by (simp add: rule_valid_def filter_valid_def fred2_def fred1_def fred0_def chain_of_def)
  have "\<exists>st' L'. unregister_rule 7 fred2 = Some (Some st') \<and> chains_ok st' L' \<and> filters_in_place st' L'
      \<and> L' (manager_rule_list st') = Some ([] @ []) \<and> frules st' = (frules fred2)(60 := None) \<and> proc_dirty st'
      \<and> (\<forall>c<CHAINS_SIZE. chain_filters st' L' c = filter (\<lambda>f. f \<notin> set (r_filters ?rl)) (chain_filters fred2 fred2_lists c))"
    by (rule unregister_rule_removes [OF fred2_ok _ _ _ _ sel(3) _ valid sel(4)]) (use sel in simp_all)
  then obtain st' L' where "unregister_rule 7 fred2 = Some (Some st')" "L' (manager_rule_list st') = Some []"
      "chain_filters st' L' 0 = filter (\<lambda>f. f \<noteq> 100) (chain_filters fred2 fred2_lists 0)"
    by (auto simp: CHAINS_SIZE_def)
  then show ?thesis using sel(6) by auto
qed

end
