(* ===== verification/Registry.thy ===== *)
theory Registry
  imports Rules
begin

text \<open>
  The way of a command from the shell to the framework: the command line of \<^verbatim>\<open>mkrule\<close> and
  \<^verbatim>\<open>rmrule\<close> (src/fred_framework/interceptor_shell/), the text they write to
  /proc/interceptor_registry (operations.c), and the kernel side that parses it and creates or
  removes a rule (proc_registry.c). \<^verbatim>\<open>inet_pton\<close> is a parameter: the return value and the address it
  leaves in the zeroed structure. An overrun of a fixed array is \<^term>\<open>None\<close>; the one byte that
  \<^verbatim>\<open>memset(port_s, 0, 7)\<close> clears beyond the six bytes of \<^verbatim>\<open>port_s\<close> is outside the model.
\<close>

section \<open>The command line (cmd_line_parser.c)\<close>

record parsed_args =
  pa_iname :: "string option"
  pa_daddr :: "string option"
  pa_saddr :: "string option"
  pa_dport :: "string option"
  pa_sport :: "string option"
  pa_proto :: "string option"
  pa_ruleid :: "string option"

definition no_args :: parsed_args where
  "no_args = \<lparr>pa_iname = None, pa_daddr = None, pa_saddr = None, pa_dport = None, pa_sport = None, pa_proto = None,
     pa_ruleid = None\<rparr>"

fun shell_options :: "string list \<Rightarrow> parsed_args \<Rightarrow> parsed_args" where
  "shell_options (o' # v # rest) pa = shell_options rest
    (if o' = ''-n'' then pa\<lparr>pa_iname := Some v\<rparr>
     else if o' = ''-p'' then pa\<lparr>pa_proto := Some v\<rparr>
     else if o' = ''-da'' then pa\<lparr>pa_daddr := Some v\<rparr>
     else if o' = ''-sa'' then pa\<lparr>pa_saddr := Some v\<rparr>
     else if o' = ''-dp'' then pa\<lparr>pa_dport := Some v\<rparr>
     else if o' = ''-sp'' then pa\<lparr>pa_sport := Some v\<rparr>
     else if o' = ''-id'' then pa\<lparr>pa_ruleid := Some v\<rparr>
     else pa)"
| "shell_options _ pa = pa"

text \<open>\<^verbatim>\<open>argv\<close> with the program name; \<^term>\<open>None\<close> is the NULL result.\<close>

definition shell_parse_args :: "bool \<Rightarrow> string list \<Rightarrow> parsed_args option" where
  "shell_parse_args mem argv =
    (if \<not> mem then None
     else if length argv = 1 \<or> even (length argv) then None
     else let pa = shell_options (tl argv) no_args in
       if pa_iname pa = None \<and> pa_ruleid pa = None then None else Some pa)"

section \<open>The text (operations.c)\<close>

definition AGG_NAMES :: "(string \<times> int) list" where
  "AGG_NAMES = [(''UDP'', 17), (''NETAGG'', 144), (''APPAGG'', 143)]"

definition proto_text :: "string option \<Rightarrow> string" where
  "proto_text pr = (case pr of
     Some p \<Rightarrow> (case map_of AGG_NAMES p of Some n \<Rightarrow> print_int n @ '':'' | None \<Rightarrow> [])
   | None \<Rightarrow> '':'')"

definition addr_text :: "(string \<Rightarrow> int \<times> u32) \<Rightarrow> string option \<Rightarrow> string option" where
  "addr_text inet_pton a = (case a of
     Some s \<Rightarrow> (case inet_pton s of (r, w) \<Rightarrow> if r < 0 then None else Some (print_int (sint w) @ '':''))
   | None \<Rightarrow> Some '':'')"

definition htons_atoi :: "string \<Rightarrow> u16" where
  "htons_atoi s = swap_bytes (word_of_int (atoi s))"

definition dport_text :: "string option \<Rightarrow> string" where
  "dport_text p = (case p of Some s \<Rightarrow> print_int (uint (htons_atoi s)) @ '':'' | None \<Rightarrow> '':'')"

definition sport_text :: "string option \<Rightarrow> string" where
  "sport_text p = (case p of Some s \<Rightarrow> print_int (uint (htons_atoi s)) | None \<Rightarrow> [])"

text \<open>\<^verbatim>\<open>opened\<close> and \<^verbatim>\<open>wrote\<close> tell whether \<^verbatim>\<open>open\<close> and \<^verbatim>\<open>write\<close> succeed. The result is the return
  value and the buffer written, if any; \<^term>\<open>None\<close> is a crash: a NULL name, or a text longer than the buffer.\<close>

definition PROC_LINE :: nat where "PROC_LINE = 800"

definition proc_write :: "bool \<Rightarrow> bool \<Rightarrow> string \<Rightarrow> (int \<times> string option) option" where
  "proc_write opened wrote text =
    (if length text > PROC_LINE then None
     else if \<not> opened then Some (0, None)
     else if \<not> wrote then Some (0, None)
     else Some (1, Some (pad PROC_LINE text)))"

definition write_to_proc ::
  "(string \<Rightarrow> int \<times> u32) \<Rightarrow> bool \<Rightarrow> bool \<Rightarrow> char \<Rightarrow> parsed_args \<Rightarrow> (int \<times> string option) option" where
  "write_to_proc inet_pton opened wrote op pa =
    (if op = CHR ''R'' then (case pa_iname pa of
         None \<Rightarrow> None
       | Some name \<Rightarrow> (case addr_text inet_pton (pa_daddr pa) of
           None \<Rightarrow> Some (- 1, None)
         | Some da \<Rightarrow> (case addr_text inet_pton (pa_saddr pa) of
             None \<Rightarrow> Some (- 1, None)
           | Some sa \<Rightarrow> proc_write opened wrote (''R:'' @ name @ '':'' @ proto_text (pa_proto pa) @ da @ sa
               @ dport_text (pa_dport pa) @ sport_text (pa_sport pa)))))
     else if op = CHR ''U'' then (case pa_ruleid pa of
         None \<Rightarrow> Some (0, None)
       | Some s \<Rightarrow> proc_write opened wrote (''U:'' @ print_int (atoi s)))
     else Some (0, None))"

definition mkrule_main :: "(string \<Rightarrow> int \<times> u32) \<Rightarrow> bool \<Rightarrow> bool \<Rightarrow> string list \<Rightarrow> (int \<times> string option) option" where
  "mkrule_main inet_pton opened wrote argv = (case shell_parse_args True argv of
     None \<Rightarrow> Some (- 1, None)
   | Some pa \<Rightarrow> map_option (\<lambda>(r, buf). (if r = 0 then - 1 else 0, buf))
       (write_to_proc inet_pton opened wrote (CHR ''R'') (pa\<lparr>pa_ruleid := None\<rparr>)))"

definition rmrule_main :: "(string \<Rightarrow> int \<times> u32) \<Rightarrow> bool \<Rightarrow> bool \<Rightarrow> string list \<Rightarrow> (int \<times> string option) option" where
  "rmrule_main inet_pton opened wrote argv = (case shell_parse_args True argv of
     None \<Rightarrow> Some (- 1, None)
   | Some pa \<Rightarrow> map_option (\<lambda>(r, buf). (if r = 0 then - 1 else 0, buf))
       (write_to_proc inet_pton opened wrote (CHR ''U'') (no_args\<lparr>pa_ruleid := pa_ruleid pa\<rparr>)))"

section \<open>The kernel side (proc_registry.c)\<close>

definition field_char :: "char \<Rightarrow> bool" where
  "field_char c \<longleftrightarrow> c \<noteq> CHR '':'' \<and> c \<noteq> CHR 0x00"

text \<open>The loop \<^verbatim>\<open>for (start = end; *end != ':' && *end != '\0'; end++)\<close> from a pointer into the buffer, given
  as the rest of the buffer: the field and the rest from \<^verbatim>\<open>end + 1\<close>; \<^term>\<open>None\<close> when it runs off the buffer.\<close>

definition next_field :: "string \<Rightarrow> (string \<times> string) option" where
  "next_field rest = (case dropWhile field_char rest of [] \<Rightarrow> None | _ # r \<Rightarrow> Some (takeWhile field_char rest, r))"

text \<open>A field copied to a zeroed array of \<^verbatim>\<open>cap\<close> characters and read as a number; an empty field is skipped.\<close>

definition num_field :: "nat \<Rightarrow> string \<Rightarrow> int option option" where
  "num_field cap f = (if f = [] then Some None else if length f < cap then Some (Some (simple_strtol f)) else None)"

text \<open>The clearing of the array after a field that was present, \<^verbatim>\<open>memset(a, 0, n)\<close> on an array of \<^verbatim>\<open>cap\<close> characters; a store beyond
  the array is \<^term>\<open>None\<close>.\<close>

definition clear_array :: "nat \<Rightarrow> nat \<Rightarrow> int option \<Rightarrow> unit option" where
  "clear_array cap n v = (if v = None \<or> n \<le> cap then Some () else None)"

definition flag_if :: "u8 \<Rightarrow> int option \<Rightarrow> u8" where
  "flag_if b v = (if v = None then 0 else b)"

definition num_or_0 :: "int option \<Rightarrow> 'a::len word" where
  "num_or_0 v = (case v of None \<Rightarrow> 0 | Some i \<Rightarrow> word_of_int i)"

record rule_request =
  rq_filter_by :: u8
  rq_daddr :: u32
  rq_saddr :: u32
  rq_dport :: u16
  rq_sport :: u16
  rq_proto :: u8

definition parse_fields :: "string \<Rightarrow> rule_request option" where
  "parse_fields r0 = do {
     (f, r1) \<leftarrow> next_field r0;
     pr \<leftarrow> num_field 4 f;
     (f, r2) \<leftarrow> next_field r1;
     da \<leftarrow> num_field 16 f;
     _ \<leftarrow> clear_array 16 16 da;
     (f, r3) \<leftarrow> next_field r2;
     sa \<leftarrow> num_field 16 f;
     (f, r4) \<leftarrow> next_field r3;
     dp \<leftarrow> num_field 6 f;
     _ \<leftarrow> clear_array 6 7 dp;
     (f, r5) \<leftarrow> next_field r4;
     sp \<leftarrow> num_field 6 f;
     Some \<lparr>rq_filter_by = flag_if FILTER_BY_L4_PROTO pr OR flag_if FILTER_BY_DST_ADDR da OR flag_if FILTER_BY_SRC_ADDR sa
         OR flag_if FILTER_BY_DST_PORT dp OR flag_if FILTER_BY_SRC_PORT sp,
       rq_daddr = num_or_0 da, rq_saddr = num_or_0 sa, rq_dport = num_or_0 dp, rq_sport = num_or_0 sp, rq_proto = num_or_0 pr\<rparr> }"

definition submit_rule ::
  "(addr \<Rightarrow> addr \<Rightarrow> fred \<Rightarrow> addr \<times> fred) \<Rightarrow> string \<Rightarrow> rule_request \<Rightarrow> fred \<Rightarrow> fred run" where
  "submit_rule mk name rq st = (case create_filter_specs (rq_filter_by rq) (rq_daddr rq) (rq_saddr rq) (rq_dport rq)
       (rq_sport rq) (ucast (rq_proto rq)) st of
     (sp, st) \<Rightarrow> run_bind (create_rule mk name sp st) (\<lambda>(_, st). Some (Some st)))"

definition parse_request :: "(addr \<Rightarrow> addr \<Rightarrow> fred \<Rightarrow> addr \<times> fred) \<Rightarrow> string \<Rightarrow> fred \<Rightarrow> fred run" where
  "parse_request mk req st =
    (if req ! 0 = CHR ''R'' then (case next_field (drop 2 req) of
         None \<Rightarrow> Some None
       | Some (name, rest) \<Rightarrow>
           if name = [] then Some (Some st)
           else (case kmalloc st of (p, st) \<Rightarrow>
             if p = NULL then Some (Some st)
             else (case parse_fields rest of None \<Rightarrow> Some None | Some rq \<Rightarrow> submit_rule mk name rq st)))
     else if req ! 0 = CHR ''U'' then (case next_field (drop 2 req) of
         None \<Rightarrow> Some None
       | Some (f, _) \<Rightarrow> (case num_field 20 f of
           None \<Rightarrow> Some None
         | Some None \<Rightarrow> Some (Some st)
         | Some (Some i) \<Rightarrow> remove_rule (word_of_int i) st))
     else Some (Some st))"

definition MAX_REGISTRY_LINE :: nat where "MAX_REGISTRY_LINE = 800"

text \<open>The write handler: the error, or the count, with the new state. \<^verbatim>\<open>copied\<close> is whether
  \<^verbatim>\<open>copy_from_user\<close> succeeds.\<close>

datatype proc_result = ENOMEM | EFAULT | Count nat

definition registry_write ::
  "(addr \<Rightarrow> addr \<Rightarrow> fred \<Rightarrow> addr \<times> fred) \<Rightarrow> bool \<Rightarrow> string \<Rightarrow> fred \<Rightarrow> (proc_result \<times> fred) run" where
  "registry_write mk copied buffer st =
    (if length buffer > MAX_REGISTRY_LINE then Some (Some (ENOMEM, st))
     else if \<not> copied then Some (Some (EFAULT, st))
     else run_bind (parse_request mk (pad MAX_REGISTRY_LINE buffer) st) (\<lambda>st. Some (Some (Count (length buffer), st))))"


section \<open>From the command line to the rule\<close>

lemma print_int_field: "\<forall>c\<in>set (print_int i). field_char c"
proof
  fix c assume "c \<in> set (print_int i)"
  then have "c = CHR ''-'' \<or> is_digit c" by (rule print_int_chars)
  then show "field_char c" using digit_not_special [of c] by (auto simp: field_char_def is_digit_def)
qed

lemma next_field_app:
  "\<forall>c\<in>set f. field_char c \<Longrightarrow> \<not> field_char c \<Longrightarrow> next_field (f @ c # r) = Some (f, r)"
  by (simp add: next_field_def dropWhile_append2 takeWhile_append2 dropWhile_append takeWhile_append)

lemma length_print_int: "\<bar>i\<bar> < 10 ^ k \<Longrightarrow> 0 < k \<Longrightarrow> length (print_int i) \<le> Suc k"
proof -
  assume a: "\<bar>i\<bar> < 10 ^ k" "0 < k"
  have "nat \<bar>i\<bar> < 10 ^ k" using a(1) by (simp add: nat_less_iff)
  then have "length (print_nat (nat \<bar>i\<bar>)) \<le> k" using a(2) by (rule length_print_nat)
  then show ?thesis by (simp add: print_int_def abs_if split: if_splits)
qed

lemma length_print_u16: "length (print_int (uint (w :: u16))) \<le> 5"
proof -
  have "unat w < 2 ^ LENGTH(16)" by (rule unsigned_less)
  then have "length (print_nat (unat w)) \<le> 5" by (intro length_print_nat) simp_all
  then show ?thesis by (simp add: print_int_def)
qed

lemma length_print_s32: "length (print_int (sint (w :: u32))) \<le> 11"
  using sint_lt [of w] sint_ge [of w] by (intro length_print_int [of _ 10, simplified]) (simp add: abs_if)

lemma num_field_print: "length (print_int i) < cap \<Longrightarrow> num_field cap (print_int i) = Some (Some i)"
  by (simp add: num_field_def)

text \<open>The text of an optional number.\<close>

definition opt_text :: "int option \<Rightarrow> string" where
  "opt_text v = (case v of None \<Rightarrow> [] | Some i \<Rightarrow> print_int i)"

lemma opt_text_field: "\<forall>c\<in>set (opt_text v). field_char c"
  using print_int_field by (cases v) (simp_all add: opt_text_def)

lemma num_field_opt: "length (opt_text v) < cap \<Longrightarrow> num_field cap (opt_text v) = Some v"
  by (cases v) (simp_all add: opt_text_def num_field_print num_field_def)

lemma parse_fields_text:
  assumes "length (opt_text pr) < 4" "length (opt_text da) < 16" "length (opt_text sa) < 16" "length (opt_text dp) < 6"
    "length (opt_text sp) < 6"
  shows "parse_fields (opt_text pr @ '':'' @ opt_text da @ '':'' @ opt_text sa @ '':'' @ opt_text dp @ '':'' @ opt_text sp @ CHR 0x00 # zs)
    = (if dp \<noteq> None then None
       else Some \<lparr>rq_filter_by = flag_if FILTER_BY_L4_PROTO pr OR flag_if FILTER_BY_DST_ADDR da OR flag_if FILTER_BY_SRC_ADDR sa
         OR flag_if FILTER_BY_DST_PORT dp OR flag_if FILTER_BY_SRC_PORT sp,
       rq_daddr = num_or_0 da, rq_saddr = num_or_0 sa, rq_dport = num_or_0 dp, rq_sport = num_or_0 sp, rq_proto = num_or_0 pr\<rparr>)"
  using assms
  by (simp add: parse_fields_def next_field_app [OF opt_text_field] field_char_def num_field_opt clear_array_def)

text \<open>The request the options stand for.\<close>

definition proto_number :: "string option \<Rightarrow> int option" where
  "proto_number p = Option.bind p (map_of AGG_NAMES)"

definition options_request :: "(string \<Rightarrow> int \<times> u32) \<Rightarrow> parsed_args \<Rightarrow> rule_request" where
  "options_request inet_pton pa =
    \<lparr>rq_filter_by = (if pa_proto pa = None then 0 else FILTER_BY_L4_PROTO) OR (if pa_daddr pa = None then 0 else FILTER_BY_DST_ADDR)
       OR (if pa_saddr pa = None then 0 else FILTER_BY_SRC_ADDR) OR (if pa_dport pa = None then 0 else FILTER_BY_DST_PORT)
       OR (if pa_sport pa = None then 0 else FILTER_BY_SRC_PORT),
     rq_daddr = (case pa_daddr pa of None \<Rightarrow> 0 | Some s \<Rightarrow> snd (inet_pton s)),
     rq_saddr = (case pa_saddr pa of None \<Rightarrow> 0 | Some s \<Rightarrow> snd (inet_pton s)),
     rq_dport = (case pa_dport pa of None \<Rightarrow> 0 | Some s \<Rightarrow> htons_atoi s),
     rq_sport = (case pa_sport pa of None \<Rightarrow> 0 | Some s \<Rightarrow> htons_atoi s),
     rq_proto = num_or_0 (proto_number (pa_proto pa))\<rparr>"

lemma proto_number_cases:
  assumes "\<forall>p. pa_proto pa = Some p \<longrightarrow> map_of AGG_NAMES p \<noteq> None"
  shows "proto_text (pa_proto pa) = opt_text (proto_number (pa_proto pa)) @ '':''"
    and "length (opt_text (proto_number (pa_proto pa))) < 4"
    and "flag_if b (proto_number (pa_proto pa)) = (if pa_proto pa = None then 0 else b)"
proof -
  consider "pa_proto pa = None" | p n where "pa_proto pa = Some p" "map_of AGG_NAMES p = Some n" using assms by fastforce
  then show "proto_text (pa_proto pa) = opt_text (proto_number (pa_proto pa)) @ '':''"
    "flag_if b (proto_number (pa_proto pa)) = (if pa_proto pa = None then 0 else b)"
    by (cases, simp_all add: proto_text_def proto_number_def opt_text_def flag_if_def)+
  have "length (print_int n) < 4" if "map_of AGG_NAMES p = Some n" for p n
    using that by (auto simp: AGG_NAMES_def print_int_def print_nat.simps split: if_splits)
  then show "length (opt_text (proto_number (pa_proto pa))) < 4"
    by (cases "pa_proto pa") (auto simp: proto_number_def opt_text_def split: option.split)
qed

definition addr_number :: "(string \<Rightarrow> int \<times> u32) \<Rightarrow> string option \<Rightarrow> int option" where
  "addr_number inet_pton a = map_option (\<lambda>s. sint (snd (inet_pton s))) a"

definition port_number :: "string option \<Rightarrow> int option" where
  "port_number p = map_option (\<lambda>s. uint (htons_atoi s)) p"

lemma addr_number_facts:
  "\<forall>s. a = Some s \<longrightarrow> fst (inet_pton s) \<ge> 0 \<Longrightarrow> addr_text inet_pton a = Some (opt_text (addr_number inet_pton a) @ '':'')"
  "length (opt_text (addr_number inet_pton a)) \<le> 11"
  "flag_if b (addr_number inet_pton a) = (if a = None then 0 else b)"
  "num_or_0 (addr_number inet_pton a) = (case a of None \<Rightarrow> 0 | Some s \<Rightarrow> snd (inet_pton s))"
  using length_print_s32
  by (cases a; simp add: addr_text_def addr_number_def opt_text_def flag_if_def num_or_0_def case_prod_unfold)+

lemma port_number_facts:
  "dport_text p = opt_text (port_number p) @ '':''" "sport_text p = opt_text (port_number p)"
  "length (opt_text (port_number p)) \<le> 5"
  "flag_if b (port_number p) = (if p = None then 0 else b)"
  "num_or_0 (port_number p) = (case p of None \<Rightarrow> 0 | Some s \<Rightarrow> htons_atoi s)"
  using length_print_u16
  by (cases p; simp add: dport_text_def sport_text_def port_number_def opt_text_def flag_if_def num_or_0_def)+

definition fields_text :: "(string \<Rightarrow> int \<times> u32) \<Rightarrow> parsed_args \<Rightarrow> string" where
  "fields_text inet_pton pa = opt_text (proto_number (pa_proto pa)) @ '':'' @ opt_text (addr_number inet_pton (pa_daddr pa))
      @ '':'' @ opt_text (addr_number inet_pton (pa_saddr pa)) @ '':'' @ opt_text (port_number (pa_dport pa)) @ '':''
      @ opt_text (port_number (pa_sport pa))"

lemma fields_text_length:
  assumes "\<forall>p. pa_proto pa = Some p \<longrightarrow> map_of AGG_NAMES p \<noteq> None"
  shows "length (fields_text inet_pton pa) \<le> 50"
  using proto_number_cases(2) [OF assms] addr_number_facts(2) [of inet_pton "pa_daddr pa"] addr_number_facts(2) [of inet_pton "pa_saddr pa"]
    port_number_facts(3) [of "pa_dport pa"] port_number_facts(3) [of "pa_sport pa"] by (simp add: fields_text_def)

lemma write_to_proc_text:
  assumes "pa_iname pa = Some name" "\<forall>p. pa_proto pa = Some p \<longrightarrow> map_of AGG_NAMES p \<noteq> None"
    and "\<forall>s. pa_daddr pa = Some s \<longrightarrow> fst (inet_pton s) \<ge> 0" "\<forall>s. pa_saddr pa = Some s \<longrightarrow> fst (inet_pton s) \<ge> 0"
  shows "write_to_proc inet_pton True True (CHR ''R'') pa = proc_write True True (''R:'' @ name @ '':'' @ fields_text inet_pton pa)"
  using assms(1) by (simp add: write_to_proc_def addr_number_facts(1) [OF assms(3)] addr_number_facts(1) [OF assms(4)]
      proto_number_cases(1) [OF assms(2)] port_number_facts(1,2) fields_text_def)

lemma parse_fields_options:
  assumes "\<forall>p. pa_proto pa = Some p \<longrightarrow> map_of AGG_NAMES p \<noteq> None"
  shows "parse_fields (fields_text inet_pton pa @ CHR 0x00 # zs) = (if pa_dport pa \<noteq> None then None else Some (options_request inet_pton pa))"
proof -
  have none: "port_number (pa_dport pa) \<noteq> None \<longleftrightarrow> pa_dport pa \<noteq> None" by (simp add: port_number_def)
  have "length (opt_text (addr_number inet_pton a)) < 16" "length (opt_text (port_number p)) < 6" for a p
    using addr_number_facts(2) [of inet_pton a] port_number_facts(3) [of p] by simp_all
  note parsed = parse_fields_text [OF proto_number_cases(2) [OF assms] this(1) this(1) this(2) this(2)]
  show ?thesis
    unfolding fields_text_def append_assoc options_request_def parsed none
    by (simp only: proto_number_cases(3) [OF assms] addr_number_facts(3,4) port_number_facts(4,5))
qed

lemma parse_submitted:
  assumes "name \<noteq> []" "\<forall>c\<in>set name. field_char c" and "parse_fields (fs @ replicate n (CHR 0x00)) = rqo"
    and "req = ''R:'' @ name @ '':'' @ fs @ replicate n (CHR 0x00)"
  shows "parse_request mk req st = (case kmalloc st of (p, st) \<Rightarrow> if p = NULL then Some (Some st)
    else case rqo of None \<Rightarrow> Some None | Some rq \<Rightarrow> submit_rule mk name rq st)"
  using assms next_field_app [OF assms(2), of "CHR '':''" "fs @ replicate n (CHR 0x00)"]
  by (simp add: parse_request_def field_char_def del: kmalloc.simps split: prod.split)

text \<open>C27: a rule made on the command line without a destination port is the rule the framework creates, and one with a destination
  port overruns an array of the kernel. For a name without colons of at most 700 characters, a protocol, if given, among UDP, NETAGG
  and APPAGG, and addresses that \<^verbatim>\<open>inet_pton\<close> does not refuse with an error, \<^verbatim>\<open>mkrule\<close> exits with 0. If no destination port is given, the
  buffer it writes makes the kernel side ask for a rule of exactly that interceptor with the given addresses and source port in
  network byte order and exactly the bits of the given options. If one is given, the kernel, once it has memory for the name, clears seven bytes
  of the six of \<^verbatim>\<open>port_s\<close>.\<close>

theorem mkrule_request_arrives:
  assumes "shell_parse_args True argv = Some pa" and "pa_iname pa = Some name" and "name \<noteq> []" and "\<forall>c\<in>set name. field_char c"
    and "length name \<le> 700" and "\<forall>p. pa_proto pa = Some p \<longrightarrow> map_of AGG_NAMES p \<noteq> None"
    and "\<forall>s. pa_daddr pa = Some s \<longrightarrow> fst (inet_pton s) \<ge> 0" and "\<forall>s. pa_saddr pa = Some s \<longrightarrow> fst (inet_pton s) \<ge> 0"
  shows "\<exists>buf. mkrule_main inet_pton True True argv = Some (0, Some buf) \<and>
    registry_write mk True buf st = run_bind
      (case kmalloc st of (p, st) \<Rightarrow> if p = NULL then Some (Some st)
        else if pa_dport pa \<noteq> None then Some None
        else submit_rule mk name (options_request inet_pton pa) st)
      (\<lambda>st. Some (Some (Count 800, st)))"
proof -
  let ?text = "''R:'' @ name @ '':'' @ fields_text inet_pton pa"
  let ?rq = "if pa_dport pa \<noteq> None then None else Some (options_request inet_pton pa)"
  have len: "length ?text < 800" using fields_text_length [OF assms(6), of inet_pton] assms(5) by simp
  then obtain n where n: "800 - length ?text = Suc n" by (metis Suc_diff_Suc)
  have "fields_text inet_pton (pa\<lparr>pa_ruleid := None\<rparr>) = fields_text inet_pton pa" by (simp add: fields_text_def)
  then have "write_to_proc inet_pton True True (CHR ''R'') (pa\<lparr>pa_ruleid := None\<rparr>) = Some (1, Some (pad 800 ?text))"
    using write_to_proc_text [of "pa\<lparr>pa_ruleid := None\<rparr>" name inet_pton] assms(2,6-8) len
    by (simp add: proc_write_def PROC_LINE_def)
  then have run: "mkrule_main inet_pton True True argv = Some (0, Some (pad 800 ?text))"
    using assms(1) by (simp add: mkrule_main_def)
  have "parse_fields (fields_text inet_pton pa @ replicate (Suc n) (CHR 0x00)) = ?rq"
    using parse_fields_options [OF assms(6)] by simp
  from parse_submitted [OF assms(3,4) this, of "pad 800 ?text" mk st]
  have parse: "parse_request mk (pad 800 ?text) st = (case kmalloc st of (p, st) \<Rightarrow>
      if p = NULL then Some (Some st) else case ?rq of None \<Rightarrow> Some None | Some rq \<Rightarrow> submit_rule mk name rq st)"
    by (simp only: pad_def n append_assoc)
  have "length (pad 800 ?text) = 800" using len by (simp add: max_def)
  then have "pad 800 (pad 800 ?text) = pad 800 ?text" by (simp only: pad_def [of 800 "pad 800 ?text"]) simp
  with parse \<open>length (pad 800 ?text) = 800\<close> have "registry_write mk True (pad 800 ?text) st = run_bind
      (case kmalloc st of (p, st) \<Rightarrow> if p = NULL then Some (Some st) else if pa_dport pa \<noteq> None then Some None
        else submit_rule mk name (options_request inet_pton pa) st)
      (\<lambda>st. Some (Some (Count 800, st)))"
    unfolding registry_write_def MAX_REGISTRY_LINE_def by (simp del: kmalloc.simps split: prod.split)
  with run show ?thesis by blast
qed

theorem mkrule_request_arrives_witness:
  "(\<exists>buf. mkrule_main (\<lambda>s. (1, 0x0100000A)) True True [''mkrule'', ''-n'', ''agg'', ''-p'', ''UDP'', ''-da'', ''10.0.0.1'', ''-sp'', ''53'']
      = Some (0, Some buf)
    \<and> registry_write (\<lambda>f sp st. (0, st)) True buf fred2 = run_bind
      (case kmalloc fred2 of (p, st) \<Rightarrow> if p = NULL then Some (Some st) else submit_rule (\<lambda>f sp st. (0, st)) ''agg''
        \<lparr>rq_filter_by = FILTER_BY_L4_PROTO OR FILTER_BY_DST_ADDR OR FILTER_BY_SRC_PORT, rq_daddr = 0x0100000A, rq_saddr = 0, rq_dport = 0,
          rq_sport = 0x3500, rq_proto = 17\<rparr> st)
      (\<lambda>st. Some (Some (Count 800, st)))) \<and>
   (\<exists>buf. mkrule_main (\<lambda>s. (1, 0)) True True [''mkrule'', ''-n'', ''agg'', ''-dp'', ''53''] = Some (0, Some buf)
    \<and> registry_write (\<lambda>f sp st. (0, st)) True buf fred2 = run_bind
      (case kmalloc fred2 of (p, st) \<Rightarrow> if p = NULL then Some (Some st) else Some None) (\<lambda>st. Some (Some (Count 800, st))))"
proof -
  let ?argv = "[''mkrule'', ''-n'', ''agg'', ''-p'', ''UDP'', ''-da'', ''10.0.0.1'', ''-sp'', ''53'']"
  let ?pa = "no_args\<lparr>pa_iname := Some ''agg'', pa_proto := Some ''UDP'', pa_daddr := Some ''10.0.0.1'', pa_sport := Some ''53''\<rparr>"
  let ?qa = "no_args\<lparr>pa_iname := Some ''agg'', pa_dport := Some ''53''\<rparr>"
  have parsed: "shell_parse_args True ?argv = Some ?pa" "shell_parse_args True [''mkrule'', ''-n'', ''agg'', ''-dp'', ''53''] = Some ?qa"
    by (simp_all add: shell_parse_args_def no_args_def)
  have "htons_atoi ''53'' = 0x3500" by code_simp
  then have request: "options_request (\<lambda>s. (1, 0x0100000A)) ?pa
      = \<lparr>rq_filter_by = FILTER_BY_L4_PROTO OR FILTER_BY_DST_ADDR OR FILTER_BY_SRC_PORT, rq_daddr = 0x0100000A, rq_saddr = 0, rq_dport = 0,
          rq_sport = 0x3500, rq_proto = 17\<rparr>"
    by (simp add: options_request_def no_args_def proto_number_def AGG_NAMES_def num_or_0_def)
  have opts: "pa_iname ?pa = Some ''agg''" "pa_iname ?qa = Some ''agg''" "\<forall>p. pa_proto ?pa = Some p \<longrightarrow> map_of AGG_NAMES p \<noteq> None" "\<forall>p. pa_proto ?qa = Some p \<longrightarrow> map_of AGG_NAMES p \<noteq> None"
    "\<forall>c\<in>set ''agg''. field_char c" by (simp_all add: no_args_def AGG_NAMES_def field_char_def)
  have given: "(pa_dport ?pa \<noteq> None) = False" "(pa_dport ?qa \<noteq> None) = True" by (simp_all add: no_args_def)
  have "''agg'' \<noteq> []" "length ''agg'' \<le> 700" "\<forall>s. pa_daddr pa = Some s \<longrightarrow> fst (1 :: int, x :: u32) \<ge> 0" "\<forall>s. pa_saddr pa = Some s \<longrightarrow> fst (1 :: int, x :: u32) \<ge> 0" for pa x
    by simp_all
  note opts = opts this
  show ?thesis
    using mkrule_request_arrives [OF parsed(1) opts(1) opts(6,5,7) opts(3) opts(8,9) [of _ "0x0100000A"], of "\<lambda>f sp st. (0, st)" fred2]
      mkrule_request_arrives [OF parsed(2) opts(2) opts(6,5,7) opts(4) opts(8,9) [of _ "0"], of "\<lambda>f sp st. (0, st)" fred2]
    unfolding given request if_True if_False by (rule conjI)
qed

text \<open>A protocol name that is not one of the three writes nothing at all for its field, not even the colon,
  so that every later field is read as the one before it.\<close>

lemma unknown_protocol_shifts:
  "mkrule_main (\<lambda>s. (1, 0)) True True [''mkrule'', ''-n'', ''agg'', ''-p'', ''TCP'', ''-sp'', ''53'']
    = Some (0, Some (pad 800 (''R:agg::::'' @ print_int 13568)))"
proof -
  have "htons_atoi ''53'' = 0x3500" by code_simp
  moreover have "length (print_int 13568) \<le> 6" by (rule length_print_int [of _ 5, simplified]) simp
  ultimately show ?thesis
    by (simp add: mkrule_main_def shell_parse_args_def no_args_def write_to_proc_def addr_text_def proto_text_def AGG_NAMES_def
        dport_text_def sport_text_def proc_write_def PROC_LINE_def)
qed

end
