(* ===== verification/Byte_Buffer.thy ===== *)
theory Byte_Buffer
  imports Hooks Packet
begin

text \<open>
  The aggregation buffers of src/fred_framework/interceptors/aggregation/byte_buffer.c, the Internet checksum of
  src/fred_framework/interceptors/utils.h, and the operations on socket buffers the two interceptors use.

  A buffer is filled from its end towards its start, so that its data begins with the packet pushed last. Its lock is
  part of the model: \<^verbatim>\<open>smp\<close> tells whether the kernel is built for several processors; then taking a lock that
  is held never returns, otherwise taking and releasing it do nothing to it. \<^term>\<open>None\<close> stands for a call that does not return: a
  deadlock, a panic, or an access outside an allocation.
\<close>

section \<open>Bytes in memory\<close>

definition bytes_at :: "u8 list \<Rightarrow> nat \<Rightarrow> nat \<Rightarrow> u8 list option" where
  "bytes_at m i n = (if i + n \<le> length m then Some (take n (drop i m)) else None)"

definition put_bytes :: "nat \<Rightarrow> u8 list \<Rightarrow> u8 list \<Rightarrow> u8 list option" where
  "put_bytes i bs m = (if i + length bs \<le> length m then Some (take i m @ bs @ drop (i + length bs) m) else None)"

definition be64_at :: "u8 list \<Rightarrow> nat \<Rightarrow> u64 option" where
  "be64_at m i = map_option (\<lambda>bs. swap_bytes (bytes_word bs)) (bytes_at m i 8)"

text \<open>The field \<^verbatim>\<open>tot_len\<close> of the IP header at an offset, in host order.\<close>

definition tot_len :: "u8 list \<Rightarrow> nat \<Rightarrow> u16 option" where
  "tot_len m i = map_option swap_bytes (be16_at m (i + 2))"

section \<open>utils.h\<close>

definition csum :: "u16 list \<Rightarrow> u16" where
  "csum ws = (let sum = fold (\<lambda>w s. s + ucast w) ws (0 :: u32);
                  sum = drop_bit 16 sum + (sum AND 0xffff);
                  sum = sum + drop_bit 16 sum in ucast (NOT sum))"

fun u16s :: "u8 list \<Rightarrow> u16 list" where
  "u16s (a # b # bs) = bytes_word [a, b] # u16s bs"
| "u16s _ = []"

section \<open>byte_buffer.c\<close>

record aggregate_buffer =
  buffer_lock :: bool
  ab_ip :: u32
  ab_mem :: "u8 list"
  ab_head :: nat

definition lock_buffer :: "bool \<Rightarrow> aggregate_buffer \<Rightarrow> aggregate_buffer option" where
  "lock_buffer smp b = (if \<not> smp then Some b else if buffer_lock b then None else Some (b\<lparr>buffer_lock := True\<rparr>))"

definition unlock_buffer :: "bool \<Rightarrow> aggregate_buffer \<Rightarrow> aggregate_buffer" where
  "unlock_buffer smp b = (if smp then b\<lparr>buffer_lock := False\<rparr> else b)"

text \<open>\<^verbatim>\<open>mem\<close> is what the second kmalloc returns: memory of \<^verbatim>\<open>len\<close> bytes with any contents, or NULL.\<close>

definition create_aggregate_buffer :: "bool \<Rightarrow> u8 list option \<Rightarrow> u32 \<Rightarrow> aggregate_buffer option" where
  "create_aggregate_buffer obj mem ip = (if \<not> obj then None else case mem of
     None \<Rightarrow> None
   | Some m \<Rightarrow> Some \<lparr>buffer_lock = False, ab_ip = ip, ab_mem = m, ab_head = length m\<rparr>)"

definition buffer_len :: "bool \<Rightarrow> aggregate_buffer \<Rightarrow> (nat \<times> aggregate_buffer) option" where
  "buffer_len smp b = do { b \<leftarrow> lock_buffer smp b; let i = length (ab_mem b); Some (i, unlock_buffer smp b) }"

definition buffer_data_len :: "bool \<Rightarrow> aggregate_buffer \<Rightarrow> (nat \<times> aggregate_buffer) option" where
  "buffer_data_len smp b = do { b \<leftarrow> lock_buffer smp b; let i = length (ab_mem b) - ab_head b; Some (i, unlock_buffer smp b) }"

text \<open>The result is the offset of the data in the buffer, if there is any.\<close>

definition peek_packet :: "bool \<Rightarrow> aggregate_buffer \<Rightarrow> (nat option \<times> aggregate_buffer) option" where
  "peek_packet smp b = do {
     b \<leftarrow> lock_buffer smp b;
     (n, b) \<leftarrow> buffer_data_len smp b;
     if n = 0 then Some (None, unlock_buffer smp b)
     else do { let b = unlock_buffer smp b; Some (Some (ab_head b), b) } }"

text \<open>\<^verbatim>\<open>bytes\<close> is the offset \<^verbatim>\<open>i\<close> of the memory \<^verbatim>\<open>src\<close>; the result is 0 or \<^verbatim>\<open>- ENOMEM\<close>.\<close>

definition push_bytes :: "bool \<Rightarrow> aggregate_buffer \<Rightarrow> u8 list \<Rightarrow> nat \<Rightarrow> nat \<Rightarrow> (int \<times> aggregate_buffer) option" where
  "push_bytes smp b src i len = do {
     b \<leftarrow> lock_buffer smp b;
     (d, b) \<leftarrow> buffer_data_len smp b;
     (n, b) \<leftarrow> buffer_len smp b;
     if d + len \<le> n then do {
       bs \<leftarrow> bytes_at src i len;
       m \<leftarrow> put_bytes (ab_head b - len) bs (ab_mem b);
       Some (0, unlock_buffer smp (b\<lparr>ab_head := ab_head b - len, ab_mem := m\<rparr>)) }
     else Some (- 12, unlock_buffer smp b) }"

definition reset_buffer :: "bool \<Rightarrow> aggregate_buffer \<Rightarrow> aggregate_buffer option" where
  "reset_buffer smp b = do { b \<leftarrow> lock_buffer smp b; Some (unlock_buffer smp (b\<lparr>ab_head := length (ab_mem b)\<rparr>)) }"

text \<open>\<^verbatim>\<open>mem\<close> is whether the allocation succeeds; the result is the copy that \<^verbatim>\<open>*dst\<close> points to, if it was set.\<close>

definition mv_data :: "bool \<Rightarrow> bool \<Rightarrow> aggregate_buffer \<Rightarrow> (u8 list option \<times> nat \<times> aggregate_buffer) option" where
  "mv_data smp mem b = do {
     b \<leftarrow> lock_buffer smp b;
     let len = length (ab_mem b) - ab_head b;
     if len > 0 then
       if \<not> mem then Some (None, 0, unlock_buffer smp b)
       else do { buff \<leftarrow> bytes_at (ab_mem b) (ab_head b) len;
                 Some (Some buff, len, unlock_buffer smp (b\<lparr>ab_head := length (ab_mem b)\<rparr>)) }
     else Some (None, 0, unlock_buffer smp b) }"

section \<open>Socket buffers\<close>

text \<open>The bytes from the network header on, and the free room around them.\<close>

record sk_buff =
  sk_headroom :: nat
  sk_data :: "u8 list"
  sk_tailroom :: nat
  sk_has_net :: bool

definition skb_pull :: "nat \<Rightarrow> sk_buff \<Rightarrow> sk_buff" where
  "skb_pull n skb = (if n > length (sk_data skb) then skb
     else skb\<lparr>sk_headroom := sk_headroom skb + n, sk_data := drop n (sk_data skb)\<rparr>)"

text \<open>\<^verbatim>\<open>skb_put\<close> followed by the copy of \<^verbatim>\<open>bs\<close> to the place it gives, and \<^verbatim>\<open>skb_push\<close> followed by filling the
  header; both panic without room.\<close>

definition skb_put :: "u8 list \<Rightarrow> sk_buff \<Rightarrow> sk_buff option" where
  "skb_put bs skb = (if sk_tailroom skb < length bs then None
     else Some (skb\<lparr>sk_data := sk_data skb @ bs, sk_tailroom := sk_tailroom skb - length bs\<rparr>))"

definition skb_push :: "u8 list \<Rightarrow> sk_buff \<Rightarrow> sk_buff option" where
  "skb_push hdr skb = (if sk_headroom skb < length hdr then None
     else Some (skb\<lparr>sk_data := hdr @ sk_data skb, sk_headroom := sk_headroom skb - length hdr\<rparr>))"

definition pskb_expand_head :: "nat \<Rightarrow> nat \<Rightarrow> sk_buff \<Rightarrow> sk_buff" where
  "pskb_expand_head nhead ntail skb = skb\<lparr>sk_headroom := sk_headroom skb + nhead, sk_tailroom := sk_tailroom skb + ntail\<rparr>"

section \<open>Buffers on one processor\<close>

definition buffer_ok :: "aggregate_buffer \<Rightarrow> bool" where
  "buffer_ok b \<longleftrightarrow> ab_head b \<le> length (ab_mem b)"

definition buffer_data :: "aggregate_buffer \<Rightarrow> u8 list" where
  "buffer_data b = drop (ab_head b) (ab_mem b)"

abbreviation buffer_size :: "aggregate_buffer \<Rightarrow> nat" where
  "buffer_size b \<equiv> length (ab_mem b)"

lemma up_lock [simp]: "lock_buffer False b = Some b" "unlock_buffer False b = b"
  by (simp_all add: lock_buffer_def unlock_buffer_def)

lemma up_lens [simp]:
  "buffer_len False b = Some (buffer_size b, b)" "buffer_data_len False b = Some (length (buffer_data b), b)"
  by (simp_all add: buffer_len_def buffer_data_len_def buffer_data_def)

lemma up_peek [simp]: "peek_packet False b = Some (if buffer_data b = [] then None else Some (ab_head b), b)"
  by (simp add: peek_packet_def)

lemma up_reset [simp]: "reset_buffer False b = Some (b\<lparr>ab_head := buffer_size b\<rparr>)"
  by (simp add: reset_buffer_def)

lemma length_buffer_data: "buffer_ok b \<Longrightarrow> length (buffer_data b) + ab_head b = buffer_size b"
  by (simp add: buffer_ok_def buffer_data_def)

lemma put_bytes_ok: "i + length bs \<le> length m \<Longrightarrow> put_bytes i bs m = Some (take i m @ bs @ drop (i + length bs) m)"
  by (simp add: put_bytes_def)

lemma push_bytes_fits:
  assumes "buffer_ok b" "length (buffer_data b) + len \<le> buffer_size b" "i + len \<le> length src"
  obtains b' where "push_bytes False b src i len = Some (0, b')" "buffer_data b' = take len (drop i src) @ buffer_data b"
    "buffer_ok b'" "buffer_size b' = buffer_size b" "ab_ip b' = ab_ip b"
proof -
  have "len \<le> ab_head b" using assms length_buffer_data [OF assms(1)] by linarith
  then show thesis
    using assms that by (auto simp: push_bytes_def bytes_at_def put_bytes_def buffer_ok_def buffer_data_def)
qed

lemma push_bytes_full: "buffer_size b < length (buffer_data b) + len \<Longrightarrow> push_bytes False b src i len = Some (- 12, b)"
  by (simp add: push_bytes_def)

lemma mv_data_up:
  assumes "buffer_ok b"
  shows "mv_data False mem b = Some (if buffer_data b = [] \<or> \<not> mem then (None, 0, b)
    else (Some (buffer_data b), length (buffer_data b), b\<lparr>ab_head := buffer_size b\<rparr>))"
  using assms by (auto simp: mv_data_def buffer_data_def bytes_at_def buffer_ok_def Let_def)

lemma smp_nested_lock: "peek_packet True b = None" "push_bytes True b src i len = None"
  by (simp_all add: peek_packet_def push_bytes_def buffer_data_len_def lock_buffer_def)

section \<open>The checksum\<close>

text \<open>Adding the halves of a sum twice keeps it modulo 65535, so a header that carries its checksum sums to zero.\<close>

definition ones_fold :: "nat \<Rightarrow> nat" where
  "ones_fold s = (let a = s div 65536 + s mod 65536 in (a + a div 65536) mod 65536)"

lemma ones_fold_eq:
  assumes "s < 2 ^ 32"
  obtains q r where "s = 65535 * q + (q + r)" "ones_fold s = (if q + r < 65536 then q + r else q + r - 65535)" "q + r < 131071"
proof -
  define q r where "q = s div 65536" and "r = s mod 65536"
  have qr: "s = 65536 * q + r" "q < 65536" "r < 65536" using assms by (auto simp: q_def r_def)
  have fold: "ones_fold s = (q + r + (q + r) div 65536) mod 65536" by (simp add: ones_fold_def q_def r_def Let_def)
  have "ones_fold s = (if q + r < 65536 then q + r else q + r - 65535)"
  proof (cases "q + r < 65536")
    case False
    then have "(q + r) div 65536 = 1" using qr by (simp add: div_nat_eqI)
    moreover have "(q + r + 1) mod 65536 = q + r + 1 - 65536" using False qr by (simp add: mod_if)
    ultimately show ?thesis using False fold by simp
  qed (simp add: fold)
  then show thesis using qr by (intro that [of q r]) auto
qed

lemma ones_fold_mod:
  assumes "s < 2 ^ 32"
  shows "ones_fold s mod 65535 = s mod 65535"
proof -
  obtain q r where qr: "s = 65535 * q + (q + r)" "ones_fold s = (if q + r < 65536 then q + r else q + r - 65535)"
    using ones_fold_eq [OF assms] by metis
  have "s mod 65535 = (q + r) mod 65535" unfolding qr(1) by (rule mod_mult_self4)
  with qr(2) show ?thesis by (simp add: le_mod_geq)
qed

lemma ones_fold_pos: "0 < s \<Longrightarrow> s < 2 ^ 32 \<Longrightarrow> 0 < ones_fold s \<and> ones_fold s < 65536"
  by (erule ones_fold_eq) auto

lemma fold_sum: "sum_list (map unat ws) + unat s < 2 ^ 32 \<Longrightarrow>
  unat (fold (\<lambda>w s. s + ucast w) ws (s :: u32)) = unat s + sum_list (map unat (ws :: u16 list))"
proof (induction ws arbitrary: s)
  case (Cons w ws)
  have "unat w < 2 ^ LENGTH(16)" by (rule unsigned_less)
  then have "unat (ucast w :: u32) = unat w" by (simp add: unsigned_ucast_eq take_bit_nat_eq_self)
  then have "unat (s + ucast w) = unat s + unat w" using Cons.prems by (subst unat_plus_if') simp
  with Cons show ?case by simp
qed simp

lemma sum_u16: "sum_list (map unat (ws :: u16 list)) \<le> length ws * 65535"
proof (induction ws)
  case (Cons w ws)
  have "unat w < 2 ^ LENGTH(16)" by (rule unsigned_less)
  with Cons show ?case by simp
qed simp

lemma unat_not_u16: "unat (NOT w) = 65535 - unat (w :: u16)"
proof -
  have "NOT w = 0xFFFF - w" by (simp add: not_eq_complement)
  moreover have "unat w < 2 ^ LENGTH(16)" by (rule unsigned_less)
  then have "w \<le> 0xFFFF" by (simp add: word_le_nat_alt)
  then have "unat (0xFFFF - w) = unat (0xFFFF :: u16) - unat w" by (rule unat_sub)
  ultimately show ?thesis by simp
qed

lemma unat_csum:
  assumes "length ws \<le> 65535"
  shows "unat (csum ws) = 65535 - ones_fold (sum_list (map unat ws))"
proof -
  let ?S = "sum_list (map unat ws)"
  let ?s = "fold (\<lambda>w s. s + ucast w) ws (0 :: u32)"
  have small: "?S < 2 ^ 32" using sum_u16 [of ws] assms by simp
  then have s: "unat ?s = ?S" using fold_sum [of ws 0] by simp
  define a where "a = drop_bit 16 ?s + (?s AND 0xffff)"
  have m: "(?s AND 0xffff) = take_bit 16 ?s" by (simp add: take_bit_eq_mask mask_eq_decr_exp)
  have q: "unat (drop_bit 16 ?s) = ?S div 65536" "unat (take_bit 16 ?s) = ?S mod 65536"
    using s small by (simp_all only: unsigned_drop_bit_eq unsigned_take_bit_eq) (simp_all add: drop_bit_eq_div take_bit_eq_mod)
  have ua: "unat a = ?S div 65536 + ?S mod 65536"
    unfolding a_def m using q small by (subst unat_plus_if') simp
  have "unat a < 2 ^ LENGTH(32)" by (rule unsigned_less)
  then have "unat (drop_bit 16 a) = unat a div 65536"
    by (simp only: unsigned_drop_bit_eq) (simp add: drop_bit_eq_div take_bit_nat_eq_self)
  moreover have a_less: "unat a < 131072"
    using ua small mod_less_divisor [of 65536 ?S] less_mult_imp_div_less [of ?S 65536 65536] by simp
  moreover have "unat a + unat a div 65536 < 4294967296" using a_less div_le_dividend [of "unat a" 65536] by linarith
  ultimately have ub: "unat (a + drop_bit 16 a) = unat a + unat a div 65536" by (subst unat_plus_if') simp
  have "unat (ucast (a + drop_bit 16 a) :: u16) = ones_fold ?S"
    using ub ua by (simp add: unsigned_ucast_eq take_bit_eq_mod ones_fold_def Let_def)
  moreover have "csum ws = NOT (ucast (a + drop_bit 16 a))"
    by (rule bit_word_eqI) (auto simp: csum_def Let_def a_def bit_unsigned_iff bit_not_iff)
  ultimately show ?thesis using unat_not_u16 [of "ucast (a + drop_bit 16 a)"] by simp
qed

lemma csum_verifies:
  assumes "length ws \<le> 65535" "i < length ws" "ws ! i = 0" "\<exists>w\<in>set ws. w \<noteq> 0"
  shows "csum (ws[i := csum ws]) = 0"
proof -
  let ?S = "sum_list (map unat ws)"
  have small: "?S < 2 ^ 32" using sum_u16 [of ws] assms(1) by simp
  have "?S \<noteq> 0" using assms(4) by (auto simp: unsigned_eq_0_iff)
  then have pos: "0 < ?S" by (rule neq0_conv [THEN iffD1])
  let ?c = "65535 - ones_fold ?S"
  have "map unat (ws[i := csum ws]) = (map unat ws)[i := ?c]" by (simp add: map_update unat_csum [OF assms(1)])
  then have S': "sum_list (map unat (ws[i := csum ws])) = ?S + ?c"
    using assms(2,3) by (simp add: sum_list_update)
  have small': "?S + ?c < 2 ^ 32" using sum_u16 [of "ws[i := csum ws]"] S' assms(1) by simp
  have "(?S + ?c) mod 65535 = 0" 
  proof -
    have "(?S + ?c) mod 65535 = (ones_fold ?S + ?c) mod 65535" using ones_fold_mod [OF small] by (metis mod_add_left_eq)
    also have "ones_fold ?S + ?c = 65535" using ones_fold_pos [OF pos small] by simp
    finally show ?thesis by simp
  qed
  then have "ones_fold (?S + ?c) mod 65535 = 0" using ones_fold_mod [OF small'] by simp
  moreover have "0 < ones_fold (?S + ?c)" "ones_fold (?S + ?c) < 65536" using ones_fold_pos [OF _ small'] pos by simp_all
  ultimately have "ones_fold (?S + ?c) = 65535" by (auto simp: mod_if split: if_splits)
  then have "unat (csum (ws[i := csum ws])) = 0" using unat_csum [of "ws[i := csum ws]"] S' assms(1) by simp
  then show ?thesis by (simp add: unsigned_eq_0_iff)
qed
end
