(* ===== verification/Aggregation.thy ===== *)
theory Aggregation
  imports Byte_Buffer Rules
begin

text \<open>
  The aggregation interceptor (src/fred_framework/interceptors/aggregation/aggregation.c) and the thread that flushes
  its buffers (consuela.c). Outgoing packets are kept in one buffer per destination; the packet that would fill a
  buffer carries the buffered ones in an encapsulating IP packet, newest first.

  Parameters: \<^verbatim>\<open>smp\<close> (see \<^verbatim>\<open>Byte_Buffer\<close>), \<^verbatim>\<open>expand\<close> (whether \<^verbatim>\<open>pskb_expand_head\<close> succeeds for a head and a tail room),
  \<^verbatim>\<open>ifa\<close> (the address of the outgoing interface), \<^verbatim>\<open>uninit\<close> (the contents of fresh memory). The layout of
  \<^verbatim>\<open>packet_t\<close> is that of src/kernel_sender/miavita_packet.h; only the place of its timestamp, the first field, matters here.
\<close>

section \<open>Encapsulation\<close>

definition NF_DROP :: u32 where "NF_DROP = 0"
definition NF_STOLEN :: u32 where "NF_STOLEN = 2"

definition ip_header :: "u16 \<Rightarrow> u8 \<Rightarrow> u16 \<Rightarrow> u32 \<Rightarrow> u32 \<Rightarrow> u8 list" where
  "ip_header tot proto check saddr daddr = [0x45, 0] @ word_bytes 2 (swap_bytes tot) @ [0, 0, 0, 0, 60, proto]
     @ word_bytes 2 check @ word_bytes 4 saddr @ word_bytes 4 daddr"

definition encap_header :: "u16 \<Rightarrow> u8 \<Rightarrow> u32 \<Rightarrow> u32 \<Rightarrow> u8 list" where
  "encap_header tot proto saddr daddr =
     ip_header tot proto (csum (u16s (ip_header tot proto 0 saddr daddr))) saddr daddr"

text \<open>What the two flush functions share: put the buffered data behind the packet and a new header before it.\<close>

definition flush_into ::
  "u8 \<Rightarrow> bool \<Rightarrow> (nat \<Rightarrow> nat \<Rightarrow> bool) \<Rightarrow> u32 \<Rightarrow> u16 \<Rightarrow> sk_buff \<Rightarrow> aggregate_buffer \<Rightarrow> (sk_buff \<times> aggregate_buffer) option"
where
  "flush_into proto smp expand ifa len skb b = do {
     (d, b) \<leftarrow> buffer_data_len smp b;
     if sk_tailroom skb < d \<and> \<not> expand 0 (d - sk_tailroom skb) then do { b \<leftarrow> reset_buffer smp b; Some (skb, b) }
     else do {
       let skb = (if sk_tailroom skb < d then pskb_expand_head 0 (d - sk_tailroom skb) skb else skb);
       bs \<leftarrow> bytes_at (ab_mem b) (ab_head b) d;
       skb \<leftarrow> skb_put bs skb;
       if sk_headroom skb < 20 \<and> \<not> expand (20 - sk_headroom skb) 0 then do { b \<leftarrow> reset_buffer smp b; Some (skb, b) }
       else do {
         let skb = (if sk_headroom skb < 20 then pskb_expand_head (20 - sk_headroom skb) 0 skb else skb);
         skb \<leftarrow> skb_push (encap_header (of_nat (20 + d) + len) proto ifa (ab_ip b)) skb;
         b \<leftarrow> reset_buffer smp b;
         Some (skb, b) } } }"

definition flush_buffer_app ::
  "bool \<Rightarrow> (nat \<Rightarrow> nat \<Rightarrow> bool) \<Rightarrow> u32 \<Rightarrow> sk_buff \<Rightarrow> aggregate_buffer \<Rightarrow> (sk_buff \<times> aggregate_buffer) option" where
  "flush_buffer_app smp expand ifa skb b = do {
     n \<leftarrow> ip_header_bytes (sk_data skb) 0;
     t \<leftarrow> tot_len (sk_data skb) 0;
     flush_into AGREGATED_APPLICATION_ENCAP_UDP_PROTO smp expand ifa (t - of_nat n) (skb_pull n skb) b }"

definition flush_buffer_ip ::
  "bool \<Rightarrow> (nat \<Rightarrow> nat \<Rightarrow> bool) \<Rightarrow> u32 \<Rightarrow> sk_buff \<Rightarrow> aggregate_buffer \<Rightarrow> (sk_buff \<times> aggregate_buffer) option" where
  "flush_buffer_ip smp expand ifa skb b = do {
     t \<leftarrow> tot_len (sk_data skb) 0;
     flush_into AGREGATED_IP_ENCAP_IP_PROTO smp expand ifa t skb b }"

section \<open>Pushing a packet\<close>

text \<open>The timestamp at \<^verbatim>\<open>j\<close> in the buffer becomes relative to the one at \<^verbatim>\<open>i\<close> in the new packet.\<close>

definition relative_timestamp :: "u8 list \<Rightarrow> nat \<Rightarrow> nat \<Rightarrow> aggregate_buffer \<Rightarrow> aggregate_buffer option" where
  "relative_timestamp m i j b = do {
     new \<leftarrow> be64_at m i;
     old \<leftarrow> be64_at (ab_mem b) j;
     mem \<leftarrow> put_bytes j (word_bytes 8 (swap_bytes (new - old))) (ab_mem b);
     Some (b\<lparr>ab_mem := mem\<rparr>) }"

definition aggregable :: "u8 \<Rightarrow> bool" where
  "aggregable pr \<longleftrightarrow> pr = AGREGATED_APPLICATION_ENCAP_UDP_PROTO \<or> pr = IPPROTO_UDP"

text \<open>The verdict, the packet unless it was freed, and the buffer.\<close>

definition push_app_packet ::
  "bool \<Rightarrow> (nat \<Rightarrow> nat \<Rightarrow> bool) \<Rightarrow> u32 \<Rightarrow> aggregate_buffer \<Rightarrow> sk_buff \<Rightarrow> (u32 \<times> sk_buff option \<times> aggregate_buffer) option"
where
  "push_app_packet smp expand ifa b skb = do {
     let m = sk_data skb;
     pr \<leftarrow> ip_protocol m 0;
     if pr \<noteq> IPPROTO_UDP then Some (NF_ACCEPT, Some skb, b)
     else do {
       n \<leftarrow> ip_header_bytes m 0;
       t \<leftarrow> tot_len m 0;
       let len = unat (t - of_nat n);
       (udp_helper, b) \<leftarrow> peek_packet smp b;
       b \<leftarrow> (case udp_helper of None \<Rightarrow> Some b | Some h \<Rightarrow> relative_timestamp m (n + 8) (h + 8) b);
       (d, b) \<leftarrow> buffer_data_len smp b;
       (cap, b) \<leftarrow> buffer_len smp b;
       if d + len \<ge> cap then do { (skb, b) \<leftarrow> flush_buffer_app smp expand ifa skb b; Some (NF_ACCEPT, Some skb, b) }
       else do {
         (r, b) \<leftarrow> push_bytes smp b m n len;
         if r \<noteq> 0 then None else Some (NF_STOLEN, None, b) } } }"

definition push_ip_packet ::
  "bool \<Rightarrow> (nat \<Rightarrow> nat \<Rightarrow> bool) \<Rightarrow> u32 \<Rightarrow> aggregate_buffer \<Rightarrow> sk_buff \<Rightarrow> (u32 \<times> sk_buff option \<times> aggregate_buffer) option"
where
  "push_ip_packet smp expand ifa b skb = do {
     let m = sk_data skb;
     t \<leftarrow> tot_len m 0;
     (seeker, b) \<leftarrow> peek_packet smp b;
     (supported, pdu) \<leftarrow> (case seeker of
         None \<Rightarrow> Some (True, None)
       | Some h \<Rightarrow> do {
           pr \<leftarrow> ip_protocol (ab_mem b) h;
           if aggregable pr then do { n \<leftarrow> ip_header_bytes (ab_mem b) h; Some (True, Some (h + n + 8)) } else Some (False, None) });
     if \<not> supported then Some (NF_ACCEPT, Some skb, b)
     else do {
       pr \<leftarrow> ip_protocol m 0;
       if \<not> aggregable pr then Some (NF_ACCEPT, Some skb, b)
       else do {
         n \<leftarrow> ip_header_bytes m 0;
         b \<leftarrow> (case pdu of None \<Rightarrow> Some b | Some j \<Rightarrow> relative_timestamp m (n + 8) j b);
         (d, b) \<leftarrow> buffer_data_len smp b;
         (cap, b) \<leftarrow> buffer_len smp b;
         if d + unat t \<ge> cap then do { (skb, b) \<leftarrow> flush_buffer_ip smp expand ifa skb b; Some (NF_ACCEPT, Some skb, b) }
         else do {
           (r, b) \<leftarrow> push_bytes smp b m 0 (unat t);
           if r \<noteq> 0 then None else Some (NF_STOLEN, None, b) } } } }"

section \<open>The buffers of the module\<close>

record agg = kheap +
  abuffers :: "addr \<rightharpoonup> aggregate_buffer"
  app_buffers :: addr
  ip_buffers :: addr

record agg_params =
  aggregate_app_packets :: bool
  aggregate_ip_packets :: bool
  app_buffer_size :: u16
  ip_buffer_size :: u16

definition init_buffers :: "agg_params \<Rightarrow> agg \<Rightarrow> agg" where
  "init_buffers ps st = (
     let st = (if aggregate_app_packets ps then case make_klist st of (l, st) \<Rightarrow> st\<lparr>app_buffers := l\<rparr> else st) in
     if aggregate_ip_packets ps then case make_klist st of (l, st) \<Rightarrow> st\<lparr>ip_buffers := l\<rparr> else st)"

definition free_buffer :: "addr \<Rightarrow> agg \<Rightarrow> agg run" where
  "free_buffer p st = (case deref (abuffers st) p of
     None \<Rightarrow> Some None
   | Some b \<Rightarrow> Some (Some (st\<lparr>abuffers := (abuffers st)(p := None)\<rparr>)))"

definition free_buffers :: "agg_params \<Rightarrow> agg \<Rightarrow> agg run" where
  "free_buffers ps st =
     run_bind (if aggregate_app_packets ps then free_klist (Some free_buffer) (app_buffers st) st else Some (Some st)) (\<lambda>st.
     if aggregate_ip_packets ps then free_klist (Some free_buffer) (ip_buffers st) st else Some (Some st))"

text \<open>\<^verbatim>\<open>create_aggregate_buffer\<close> with its two allocations: the address, NULL when one of them fails.\<close>

definition new_buffer :: "(addr \<Rightarrow> nat \<Rightarrow> u8) \<Rightarrow> u16 \<Rightarrow> u32 \<Rightarrow> agg \<Rightarrow> addr \<times> agg" where
  "new_buffer uninit len ip st = (case kmalloc st of (p, st) \<Rightarrow>
     if p = NULL then (NULL, st)
     else case kmalloc st of (q, st) \<Rightarrow>
       (case create_aggregate_buffer True (if q = NULL then None else Some (map (uninit q) [0..<unat len])) ip of
          None \<Rightarrow> (NULL, st)
        | Some b \<Rightarrow> (p, st\<lparr>abuffers := (abuffers st)(p \<mapsto> b)\<rparr>)))"

definition get_buffer_for :: "(addr \<Rightarrow> nat \<Rightarrow> u8) \<Rightarrow> u16 \<Rightarrow> addr \<Rightarrow> u32 \<Rightarrow> agg \<Rightarrow> (addr \<times> agg) run" where
  "get_buffer_for uninit cap l ip st = (case make_klist_iterator l st of
     None \<Rightarrow> Some None
   | Some (it, st) \<Rightarrow> run_bind (klist_scan (\<lambda>p. map_option (\<lambda>b. ab_ip b = ip) (deref (abuffers st) p)) st it) (\<lambda>it.
       if klist_iterator_has_next it then
         (case Option.bind (klist_iterator_peek it) (deref (nodes st)) of None \<Rightarrow> Some None | Some n \<Rightarrow> Some (Some (n_data n, st)))
       else (case new_buffer uninit cap ip st of (ab, st) \<Rightarrow>
         (case make_klist_node ab st of (kn, st) \<Rightarrow>
           (case add_klist_node_to_klist l kn st of None \<Rightarrow> Some None | Some st \<Rightarrow> Some (Some (ab, st)))))))"

definition get_app_buffer_for :: "(addr \<Rightarrow> nat \<Rightarrow> u8) \<Rightarrow> agg_params \<Rightarrow> u32 \<Rightarrow> agg \<Rightarrow> (addr \<times> agg) run" where
  "get_app_buffer_for uninit ps ip st = get_buffer_for uninit (app_buffer_size ps) (app_buffers st) ip st"

definition get_ip_buffer_for :: "(addr \<Rightarrow> nat \<Rightarrow> u8) \<Rightarrow> agg_params \<Rightarrow> u32 \<Rightarrow> agg \<Rightarrow> (addr \<times> agg) run" where
  "get_ip_buffer_for uninit ps ip st = get_buffer_for uninit (ip_buffer_size ps) (ip_buffers st) ip st"

section \<open>The hooks\<close>

text \<open>A packet pushed to the buffer at an address.\<close>

definition push_at ::
  "(aggregate_buffer \<Rightarrow> sk_buff \<Rightarrow> (u32 \<times> sk_buff option \<times> aggregate_buffer) option) \<Rightarrow> addr \<Rightarrow> sk_buff \<Rightarrow> agg
    \<Rightarrow> (u32 \<times> sk_buff option \<times> agg) run" where
  "push_at push ab skb st = (if ab = NULL then Some (Some (NF_ACCEPT, Some skb, st))
     else case do { b \<leftarrow> deref (abuffers st) ab; push b skb } of
       None \<Rightarrow> Some None
     | Some (v, skb, b) \<Rightarrow> Some (Some (v, skb, st\<lparr>abuffers := (abuffers st)(ab \<mapsto> b)\<rparr>)))"

text \<open>The two statements of \<^verbatim>\<open>switch (iph->protocol != ...) { ... }\<close> stand before any case label and are never
  executed.\<close>

definition aggregation_post_routing_hook ::
  "bool \<Rightarrow> (nat \<Rightarrow> nat \<Rightarrow> bool) \<Rightarrow> (addr \<Rightarrow> nat \<Rightarrow> u8) \<Rightarrow> agg_params \<Rightarrow> u32 \<Rightarrow> sk_buff option \<Rightarrow> agg \<Rightarrow> (u32 \<times> sk_buff option \<times> agg) run"
where
  "aggregation_post_routing_hook smp expand uninit ps ifa skb st = (case skb of
     None \<Rightarrow> Some (Some (NF_ACCEPT, None, st))
   | Some s \<Rightarrow> if \<not> sk_has_net s then Some (Some (NF_ACCEPT, Some s, st))
       else case be32_at (sk_data s) 16 of
         None \<Rightarrow> Some None
       | Some daddr \<Rightarrow> run_bind (get_ip_buffer_for uninit ps daddr st) (\<lambda>(ab, st). push_at (push_ip_packet smp expand ifa) ab s st))"

definition aggregation_local_out_hook ::
  "bool \<Rightarrow> (nat \<Rightarrow> nat \<Rightarrow> bool) \<Rightarrow> (addr \<Rightarrow> nat \<Rightarrow> u8) \<Rightarrow> agg_params \<Rightarrow> u32 \<Rightarrow> sk_buff option \<Rightarrow> agg \<Rightarrow> (u32 \<times> sk_buff option \<times> agg) run"
where
  "aggregation_local_out_hook smp expand uninit ps ifa skb st = (case skb of
     None \<Rightarrow> Some (Some (NF_ACCEPT, None, st))
   | Some s \<Rightarrow> if \<not> sk_has_net s then Some (Some (NF_ACCEPT, Some s, st))
       else case do { pr \<leftarrow> ip_protocol (sk_data s) 0; daddr \<leftarrow> be32_at (sk_data s) 16; Some (pr, daddr) } of
         None \<Rightarrow> Some None
       | Some (pr, daddr) \<Rightarrow>
           if pr \<noteq> IPPROTO_UDP then Some (Some (NF_ACCEPT, Some s, st))
           else run_bind (get_app_buffer_for uninit ps daddr st) (\<lambda>(ab, st). push_at (push_app_packet smp expand ifa) ab s st))"

section \<open>Rules and the module\<close>

text \<open>The addresses of the two hook functions and of the descriptor are parameters.\<close>

definition aggregation_create_rule :: "agg_params \<Rightarrow> addr \<Rightarrow> addr \<Rightarrow> addr \<Rightarrow> addr \<Rightarrow> fred \<Rightarrow> addr \<times> fred" where
  "aggregation_create_rule ps post_rt local_out agg_desc sp st = (
     let app = aggregate_app_packets ps; ip = aggregate_ip_packets ps in
     if \<not> app \<and> \<not> ip then (NULL, st)
     else case make_rule (if app \<and> ip then 2 else 1) st of (r, st) \<Rightarrow>
       if r = NULL then (NULL, st)
       else case (if app then create_filter FILTER_PRIO_FIRST sp r FILTER_AT_LOCAL_OUT local_out st else (NULL, st)) of
         (local_out_filter, st) \<Rightarrow> case (if ip then create_filter FILTER_PRIO_FIRST sp r FILTER_AT_POST_RT post_rt st else (NULL, st)) of
           (post_routing_filter, st) \<Rightarrow>
             (r, st\<lparr>frules := (frules st)(r := map_option (\<lambda>rl. rl\<lparr>
                r_filters := (if app \<and> ip then (r_filters rl)[0 := post_routing_filter, 1 := local_out_filter]
                              else if app then (r_filters rl)[0 := local_out_filter]
                              else (r_filters rl)[0 := post_routing_filter]),
                r_interceptor := agg_desc\<rparr>) (frules st r))\<rparr>))"

definition AGG_INTERCEPTOR_NAME :: string where "AGG_INTERCEPTOR_NAME = ''aggregation''"

text \<open>The result of \<^verbatim>\<open>register_interceptor\<close> is not looked at. \<^verbatim>\<open>start_consuela\<close> only hands the two lists to the thread.\<close>

definition aggregation_init_module :: "agg_params \<Rightarrow> addr \<Rightarrow> addr \<Rightarrow> agg \<Rightarrow> fred \<Rightarrow> (int \<times> agg \<times> fred) option" where
  "aggregation_init_module ps agg_desc cb ag st = do {
     let ag = init_buffers ps ag;
     (_, st) \<leftarrow> register_interceptor agg_desc
       (st\<lparr>fdescs := (fdescs st)(agg_desc \<mapsto> \<lparr>i_name = AGG_INTERCEPTOR_NAME, create_rule_for_specs_cb = cb\<rparr>)\<rparr>);
     Some (0, ag, st) }"

definition aggregation_cleanup_module :: "agg_params \<Rightarrow> agg \<Rightarrow> fred \<Rightarrow> (agg \<times> fred) run" where
  "aggregation_cleanup_module ps ag st = run_bind (free_buffers ps ag) (\<lambda>ag.
     run_bind (unregister_interceptor AGG_INTERCEPTOR_NAME st) (\<lambda>(_, st). Some (Some (ag, st))))"

section \<open>consuela.c\<close>

text \<open>The local variable \<^verbatim>\<open>buffered\<close>: NULL, a live allocation, or a pointer to memory already freed.\<close>

datatype buffered = BNull | BLive "u8 list" | BFreed

definition send_it :: "u8 list \<Rightarrow> u8 list option" where
  "send_it packet = do { t \<leftarrow> tot_len packet 0; bytes_at packet 0 (unat t) }"

text \<open>The packet made from the buffered data; \<^term>\<open>None\<close> when it does not fit the allocation of \<^verbatim>\<open>tot_len\<close> bytes.\<close>

definition build_packet :: "u8 \<Rightarrow> u32 \<Rightarrow> u32 \<Rightarrow> u8 list \<Rightarrow> u8 list option" where
  "build_packet proto source_ip daddr buff = (let len = length buff; tot = (of_nat (20 + len) :: u16) in
     if unat tot < 20 + len then None else Some (encap_header tot proto source_ip daddr @ buff))"

text \<open>One round of the loop: the new value of \<^verbatim>\<open>buffered\<close>, the packet sent if any, and the state.\<close>

definition flush_one :: "bool \<Rightarrow> u8 \<Rightarrow> u32 \<Rightarrow> addr \<Rightarrow> buffered \<Rightarrow> agg \<Rightarrow> (buffered \<times> u8 list list \<times> agg) option" where
  "flush_one smp proto source_ip p buffered st = do {
     b \<leftarrow> deref (abuffers st) p;
     let (q, st') = kmalloc st;
     (copy, len, b') \<leftarrow> mv_data smp (q \<noteq> NULL) b;
     let st = (if buffer_data b = [] then st else st')\<lparr>abuffers := (abuffers st)(p \<mapsto> b')\<rparr>;
     case (case copy of Some c \<Rightarrow> BLive c | None \<Rightarrow> buffered) of
       BNull \<Rightarrow> Some (BNull, [], st)
     | BFreed \<Rightarrow> None
     | BLive buff \<Rightarrow> (case kmalloc st of (packet, st) \<Rightarrow>
         if packet = NULL then Some (BFreed, [], st)
         else do {
           pkt \<leftarrow> build_packet proto source_ip (ab_ip b') buff;
           sent \<leftarrow> send_it pkt;
           Some (BNull, [sent], st) }) }"

partial_function (option) build_loop ::
  "bool \<Rightarrow> u8 \<Rightarrow> u32 \<Rightarrow> klist_iterator option \<Rightarrow> buffered \<Rightarrow> u8 list list \<Rightarrow> agg \<Rightarrow> (u8 list list \<times> agg) run"
where
  "build_loop smp proto source_ip it buffered out st =
    (if \<not> klist_iterator_has_next it then Some (Some (out, st))
     else case do { (kn, it) \<leftarrow> klist_iterator_next it st; n \<leftarrow> deref (nodes st) kn;
                    (buffered, sent, st) \<leftarrow> flush_one smp proto source_ip (n_data n) buffered st; Some (it, buffered, sent, st) } of
       None \<Rightarrow> Some None
     | Some (it, buffered, sent, st) \<Rightarrow> build_loop smp proto source_ip it buffered (out @ sent) st)"

definition build_and_send_packets :: "bool \<Rightarrow> addr \<Rightarrow> u8 \<Rightarrow> u32 \<Rightarrow> agg \<Rightarrow> (u8 list list \<times> agg) run" where
  "build_and_send_packets smp buffs proto source_ip st = (case make_klist_iterator buffs st of
     None \<Rightarrow> Some None
   | Some (it, st) \<Rightarrow> build_loop smp proto source_ip it BNull [] st)"

text \<open>One round of the thread's loop, between two sleeps.\<close>

definition consuela_round :: "bool \<Rightarrow> u32 \<Rightarrow> agg \<Rightarrow> (u8 list list \<times> agg) run" where
  "consuela_round smp source_ip st =
     run_bind (build_and_send_packets smp (app_buffers st) AGREGATED_APPLICATION_ENCAP_UDP_PROTO source_ip st) (\<lambda>(out1, st).
     run_bind (build_and_send_packets smp (ip_buffers st) AGREGATED_IP_ENCAP_IP_PROTO source_ip st) (\<lambda>(out2, st).
       Some (Some (out1 @ out2, st))))"

section \<open>Packets in a buffer\<close>

lemma byte_at_app: "byte_at (xs @ ys) (length xs + i) = byte_at ys i"
  by (simp add: byte_at_def)

lemma byte_at_prefix: "i < length xs \<Longrightarrow> byte_at (xs @ ys) i = byte_at xs i"
  by (simp add: byte_at_def nth_append)

lemma be16_at_app: "be16_at (xs @ ys) (length xs + i) = be16_at ys i"
  by (simp add: be16_at_def)

lemma be16_at_prefix: "i + 2 \<le> length xs \<Longrightarrow> be16_at (xs @ ys) i = be16_at xs i"
  by (simp add: be16_at_def)

lemma bytes_at_app: "bytes_at (xs @ ys) (length xs + i) n = bytes_at ys i n"
  by (simp add: bytes_at_def)

lemma bytes_at_prefix: "i + n \<le> length xs \<Longrightarrow> bytes_at (xs @ ys) i n = bytes_at xs i n"
  by (simp add: bytes_at_def)

lemma put_bytes_app: "put_bytes (length xs + i) bs (xs @ ys) = map_option ((@) xs) (put_bytes i bs ys)"
  by (simp add: put_bytes_def)

lemma put_bytes_prefix: "i + length bs \<le> length xs \<Longrightarrow> put_bytes i bs (xs @ ys) = map_option (\<lambda>zs. zs @ ys) (put_bytes i bs xs)"
  by (simp add: put_bytes_def)

text \<open>A packet the interceptors can handle: its header says how long it is, its protocol is one of the two supported ones, and it
  holds a UDP header and a timestamp.\<close>

definition pdu_at :: "u8 list \<Rightarrow> nat" where
  "pdu_at p = 4 * unat (p ! 0 AND 0x0F) + 8"

definition agg_packet :: "u8 list \<Rightarrow> bool" where
  "agg_packet p \<longleftrightarrow> 28 \<le> pdu_at p \<and> pdu_at p + 8 \<le> length p \<and> length p < 2 ^ 16 \<and>
     tot_len p 0 = Some (of_nat (length p)) \<and> aggregable (p ! 9)"

definition pkt_ts :: "u8 list \<Rightarrow> u64" where
  "pkt_ts p = swap_bytes (bytes_word (take 8 (drop (pdu_at p) p)))"

definition with_ts :: "u64 \<Rightarrow> u8 list \<Rightarrow> u8 list" where
  "with_ts t p = take (pdu_at p) p @ word_bytes 8 (swap_bytes t) @ drop (pdu_at p + 8) p"

lemma agg_packet_at:
  assumes "agg_packet p"
  shows "ip_header_bytes (xs @ p @ ys) (length xs) = Some (pdu_at p - 8)"
    and "ip_protocol (xs @ p @ ys) (length xs) = Some (p ! 9)"
    and "tot_len (xs @ p @ ys) (length xs) = Some (of_nat (length p))"
    and "be64_at (xs @ p @ ys) (length xs + pdu_at p) = Some (pkt_ts p)"
    and "put_bytes (length xs + pdu_at p) (word_bytes 8 (swap_bytes t)) (xs @ p @ ys) = Some (xs @ with_ts t p @ ys)"
proof -
  have len: "28 \<le> pdu_at p" "pdu_at p + 8 \<le> length p" and tl: "tot_len p 0 = Some (of_nat (length p))"
    using assms by (simp_all add: agg_packet_def)
  have "p \<noteq> []" using len by auto
  then have "byte_at (xs @ p @ ys) (length xs) = Some (p ! 0)" by (simp add: byte_at_def nth_append)
  then show "ip_header_bytes (xs @ p @ ys) (length xs) = Some (pdu_at p - 8)" by (simp add: ip_header_bytes_def pdu_at_def)
  show "ip_protocol (xs @ p @ ys) (length xs) = Some (p ! 9)"
    using byte_at_app [of xs "p @ ys" 9] len by (simp add: ip_protocol_def byte_at_def nth_append)
  show "tot_len (xs @ p @ ys) (length xs) = Some (of_nat (length p))"
    using be16_at_app [of xs "p @ ys" 2] be16_at_prefix [of 2 p ys] len tl by (simp add: tot_len_def del: add_2_eq_Suc add_2_eq_Suc')
  show "be64_at (xs @ p @ ys) (length xs + pdu_at p) = Some (pkt_ts p)"
    using len by (simp add: be64_at_def bytes_at_def pkt_ts_def)
  show "put_bytes (length xs + pdu_at p) (word_bytes 8 (swap_bytes t)) (xs @ p @ ys) = Some (xs @ with_ts t p @ ys)"
    using len by (simp add: put_bytes_def with_ts_def del: word_bytes_numeral)
qed

lemmas agg_packet_read = agg_packet_at [where xs = "[]" and ys = "[]", simplified]

lemma nth_with_ts: "i < pdu_at p \<Longrightarrow> pdu_at p \<le> length p \<Longrightarrow> with_ts t p ! i = p ! i"
  by (simp add: with_ts_def nth_append)

lemma agg_packet_with_ts:
  assumes "agg_packet p"
  shows "agg_packet (with_ts t p)" "length (with_ts t p) = length p" "pdu_at (with_ts t p) = pdu_at p" "pkt_ts (with_ts t p) = t"
    "with_ts u (with_ts t p) = with_ts u p"
proof -
  have len: "28 \<le> pdu_at p" "pdu_at p + 8 \<le> length p" using assms by (simp_all add: agg_packet_def)
  show l: "length (with_ts t p) = length p" using len by (simp add: with_ts_def)
  show a: "pdu_at (with_ts t p) = pdu_at p" using nth_with_ts [of 0 p t] len by (simp add: pdu_at_def)
  have "be16_at (take (pdu_at p) p @ zs) 2 = be16_at (take (pdu_at p) p) 2" for zs using len by (intro be16_at_prefix) simp
  from this [of "drop (pdu_at p) p"] this [of "word_bytes 8 (swap_bytes t) @ drop (pdu_at p + 8) p"]
  have "be16_at (with_ts t p) 2 = be16_at p 2" by (simp add: with_ts_def del: word_bytes_numeral)
  then have "tot_len (with_ts t p) 0 = tot_len p 0" by (simp add: tot_len_def del: add_2_eq_Suc add_2_eq_Suc')
  moreover have "with_ts t p ! 9 = p ! 9" using nth_with_ts [of 9 p t] len by simp
  ultimately show "agg_packet (with_ts t p)" using assms a l by (simp add: agg_packet_def)
  show "pkt_ts (with_ts t p) = t"
    using len unfolding pkt_ts_def a by (simp add: with_ts_def bytes_word_word_bytes swap_bytes_swap_bytes del: word_bytes_numeral)
  show "with_ts u (with_ts t p) = with_ts u p"
    using len unfolding with_ts_def [of u "with_ts t p"] a by (simp add: with_ts_def del: word_bytes_numeral)
qed

text \<open>The packets of a buffer, oldest first, with every timestamp but the last replaced by its distance to the next.\<close>

fun deltas :: "u8 list list \<Rightarrow> u8 list list" where
  "deltas (p # q # ps) = with_ts (pkt_ts q - pkt_ts p) p # deltas (q # ps)"
| "deltas ps = ps"

definition buffer_holds :: "aggregate_buffer \<Rightarrow> u8 list list \<Rightarrow> bool" where
  "buffer_holds b ps \<longleftrightarrow> buffer_ok b \<and> (\<forall>p\<in>set ps. agg_packet p) \<and> buffer_data b = concat (rev (deltas ps))"

lemma deltas_last: "deltas (ps @ [p]) = butlast (deltas (ps @ [p])) @ [p]"
  by (induction ps rule: deltas.induct) auto

lemma deltas_snoc: "deltas (ps @ [p, q]) = butlast (deltas (ps @ [p])) @ [with_ts (pkt_ts q - pkt_ts p) p, q]"
proof (induction ps rule: deltas.induct)
  case (1 a b ps)
  have "deltas ((b # ps) @ [p]) \<noteq> []" using deltas_last [of "b # ps" p] by (metis append_is_Nil_conv list.distinct(1))
  with 1 show ?case by simp
qed simp_all

lemma deltas_length: "\<forall>p\<in>set ps. agg_packet p \<Longrightarrow> map length (deltas ps) = map length ps"
  by (induction ps rule: deltas.induct) (simp_all add: agg_packet_with_ts)

lemma deltas_packets: "\<forall>p\<in>set ps. agg_packet p \<Longrightarrow> \<forall>p\<in>set (deltas ps). agg_packet p"
  by (induction ps rule: deltas.induct) (simp_all add: agg_packet_with_ts)

lemma agg_packet_nonempty: "agg_packet p \<Longrightarrow> p \<noteq> []"
  by (auto simp: agg_packet_def)

text \<open>The timestamping step on a buffer that holds packets.\<close>

lemma timestamp_last:
  assumes "buffer_holds b (ps @ [p])" "agg_packet q"
  obtains b' where "relative_timestamp q (pdu_at q) (ab_head b + pdu_at p) b = Some b'"
    "buffer_ok b'" "concat (rev (deltas (ps @ [p, q]))) = q @ buffer_data b'"
    "length (buffer_data b') = length (buffer_data b)" "buffer_size b' = buffer_size b" "ab_ip b' = ab_ip b" "ab_head b' = ab_head b"
proof -
  let ?pre = "take (ab_head b) (ab_mem b)" let ?rest = "concat (rev (butlast (deltas (ps @ [p]))))"
  have "concat (rev (deltas (ps @ [p]))) = p @ ?rest" by (subst deltas_last) simp
  then have p: "agg_packet p" and ok: "ab_head b \<le> buffer_size b" and dt: "buffer_data b = p @ ?rest"
    using assms(1) by (simp_all add: buffer_holds_def buffer_ok_def)
  have mem: "ab_mem b = ?pre @ p @ ?rest" using dt by (metis append_take_drop_id buffer_data_def)
  have pre: "length ?pre = ab_head b" using ok by simp
  let ?t = "pkt_ts q - pkt_ts p"
  have rd: "be64_at (ab_mem b) (ab_head b + pdu_at p) = Some (pkt_ts p)"
    using agg_packet_at(4) [OF p, of ?pre ?rest] mem pre by metis
  have wr: "put_bytes (ab_head b + pdu_at p) (word_bytes 8 (swap_bytes ?t)) (ab_mem b) = Some (?pre @ with_ts ?t p @ ?rest)"
    using agg_packet_at(5) [OF p, of ?pre ?t ?rest] mem pre by metis
  define b' where "b' = b\<lparr>ab_mem := ?pre @ with_ts ?t p @ ?rest\<rparr>"
  have "relative_timestamp q (pdu_at q) (ab_head b + pdu_at p) b = Some b'"
    using rd wr agg_packet_read(4) [OF assms(2)] by (simp add: relative_timestamp_def b'_def del: word_bytes_numeral)
  moreover have d': "buffer_data b' = with_ts ?t p @ ?rest" using ok by (simp add: buffer_data_def b'_def)
  moreover have "buffer_size b' = buffer_size b" using arg_cong [OF mem, of length] agg_packet_with_ts(2) [OF p] by (simp add: b'_def)
  ultimately show thesis
    using that [of b'] dt ok agg_packet_with_ts(2) [OF p] deltas_snoc [of ps p q] by (simp add: b'_def buffer_ok_def)
qed

section \<open>The header\<close>

lemma length_ip_header [simp]: "length (ip_header tot proto c s d) = 20" "length (encap_header tot proto s d) = 20"
  by (simp_all add: ip_header_def encap_header_def)

lemma bytes_word_pair: "bytes_word [ucast c, ucast (drop_bit 8 c)] = (c :: u16)"
proof -
  have "word_bytes 2 c = [ucast c, ucast (drop_bit 8 c)]" by simp
  moreover have "bytes_word (word_bytes 2 c) = c" by (rule bytes_word_word_bytes) simp
  ultimately show ?thesis by (simp only:)
qed

lemma ip_header_words:
  "u16s (ip_header tot proto c s d) = (u16s (ip_header tot proto 0 s d))[5 := c]"
  "u16s (ip_header tot proto 0 s d) ! 5 = 0" "length (u16s (ip_header tot proto 0 s d)) = 10"
  by (simp_all add: ip_header_def bytes_word_pair list_update_code del: bytes_word.simps) simp

lemma ip_header_word0: "u16s (ip_header tot proto c s d) ! 0 = 0x45"
  by (simp add: ip_header_def)

text \<open>The header the flush functions and consuela write: its checksum is right, and its fields read back.\<close>

lemma encap_header_checksum: "csum (u16s (encap_header tot proto s d)) = 0"
proof -
  let ?ws = "u16s (ip_header tot proto 0 s d)"
  have "?ws ! 0 \<in> set ?ws" by (rule nth_mem) (simp add: ip_header_words(3))
  then have "\<exists>w\<in>set ?ws. w \<noteq> 0" using ip_header_word0 [of tot proto 0 s d] by (intro bexI [of _ "?ws ! 0"]) simp_all
  then have "csum (?ws[5 := csum ?ws]) = 0" by (intro csum_verifies) (simp_all add: ip_header_words(2,3))
  then show ?thesis unfolding encap_header_def by (subst ip_header_words(1))
qed

lemma encap_header_fields:
  "ip_header_bytes (encap_header tot proto s d @ xs) 0 = Some 20"
  "ip_protocol (encap_header tot proto s d @ xs) 0 = Some proto"
  "tot_len (encap_header tot proto s d @ xs) 0 = Some tot"
  "be32_at (encap_header tot proto s d @ xs) 12 = Some s"
  "be32_at (encap_header tot proto s d @ xs) 16 = Some d"
proof -
  let ?h = "encap_header tot proto s d"
  have h: "?h ! 0 = 0x45" "?h ! 9 = proto" by (simp_all add: encap_header_def ip_header_def)
  show "ip_header_bytes (?h @ xs) 0 = Some 20" "ip_protocol (?h @ xs) 0 = Some proto"
    using h by (simp_all add: ip_header_bytes_def ip_protocol_def byte_at_def nth_append)
  have "take 2 (drop 2 ?h) = word_bytes 2 (swap_bytes tot)" "take 4 (drop 12 ?h) = word_bytes 4 s" "take 4 (drop 16 ?h) = word_bytes 4 d"
    by (simp_all add: encap_header_def ip_header_def)
  then show "tot_len (?h @ xs) 0 = Some tot" "be32_at (?h @ xs) 12 = Some s" "be32_at (?h @ xs) 16 = Some d"
    by (simp_all add: tot_len_def be16_at_def be32_at_def bytes_word_word_bytes swap_bytes_swap_bytes
        del: word_bytes_numeral add_2_eq_Suc add_2_eq_Suc')
qed

lemma flush_into_up:
  assumes "buffer_ok b" "\<forall>i j. expand i j"
  shows "\<exists>skb'. flush_into proto False expand ifa len skb b = Some (skb', b\<lparr>ab_head := buffer_size b\<rparr>) \<and>
    sk_data skb' = encap_header (of_nat (20 + length (buffer_data b)) + len) proto ifa (ab_ip b) @ sk_data skb @ buffer_data b"
proof -
  have "bytes_at (ab_mem b) (ab_head b) (length (buffer_data b)) = Some (buffer_data b)"
    using assms(1) by (simp add: bytes_at_def buffer_data_def buffer_ok_def)
  then show ?thesis
    using assms(2) by (cases "sk_tailroom skb < length (buffer_data b)"; cases "sk_headroom skb < 20")
      (simp_all add: flush_into_def skb_put_def skb_push_def pskb_expand_head_def Let_def)
qed

section \<open>What a push does\<close>

lemma unat_length: "agg_packet p \<Longrightarrow> unat (of_nat (length p) :: u16) = length p"
  by (simp add: agg_packet_def unat_of_nat take_bit_nat_eq_self)

lemma buffer_holds_cases:
  assumes "buffer_holds b ps" "agg_packet q"
  obtains b' where "buffer_ok b'" "q @ buffer_data b' = concat (rev (deltas (ps @ [q])))" "buffer_size b' = buffer_size b" "ab_ip b' = ab_ip b"
    and "length (buffer_data b') = length (buffer_data b)"
    and "sk_data skb = q \<Longrightarrow> push_ip_packet False expand ifa b skb =
      (if length (buffer_data b') + length q \<ge> buffer_size b'
       then do { (skb, b) \<leftarrow> flush_buffer_ip False expand ifa skb b'; Some (NF_ACCEPT, Some skb, b) }
       else do { (r, b) \<leftarrow> push_bytes False b' q 0 (length q); if r \<noteq> 0 then None else Some (NF_STOLEN, None, b) })"
proof (cases ps rule: rev_cases)
  case Nil
  then show thesis
    using assms that [of b] agg_packet_read [OF assms(2)] unat_length [OF assms(2)]
    by (simp add: buffer_holds_def push_ip_packet_def Let_def agg_packet_def)
next
  case (snoc rs p)
  have p: "agg_packet p" and ok: "ab_head b \<le> buffer_size b" using assms snoc by (auto simp: buffer_holds_def buffer_ok_def)
  have "concat (rev (deltas (rs @ [p]))) = p @ concat (rev (butlast (deltas (rs @ [p]))))" by (subst deltas_last) simp
  then have d: "buffer_data b = p @ concat (rev (butlast (deltas (rs @ [p]))))" using assms(1) snoc by (simp add: buffer_holds_def)
  then have mem: "ab_mem b = take (ab_head b) (ab_mem b) @ p @ concat (rev (butlast (deltas (rs @ [p]))))"
    by (metis append_take_drop_id buffer_data_def)
  have rd: "ip_protocol (ab_mem b) (ab_head b) = Some (p ! 9)" "ip_header_bytes (ab_mem b) (ab_head b) = Some (pdu_at p - 8)"
    using agg_packet_at(1,2) [OF p] mem ok by (metis length_take min.absorb2)+
  obtain b' where b': "relative_timestamp q (pdu_at q) (ab_head b + pdu_at p) b = Some b'" "buffer_ok b'"
    "concat (rev (deltas (rs @ [p, q]))) = q @ buffer_data b'" "length (buffer_data b') = length (buffer_data b)"
    "buffer_size b' = buffer_size b" "ab_ip b' = ab_ip b" "ab_head b' = ab_head b"
    using timestamp_last [OF assms(1) [unfolded snoc] assms(2)] by metis
  have ge: "28 \<le> pdu_at p" "28 \<le> pdu_at q" "aggregable (p ! 9)" "aggregable (q ! 9)" using p assms(2) by (simp_all add: agg_packet_def)
  show thesis
    using snoc b' that [of b'] agg_packet_read [OF assms(2)] unat_length [OF assms(2)] rd ge agg_packet_nonempty [OF p] d
    by (simp add: push_ip_packet_def Let_def)
qed

lemma push_ip_packet_step:
  assumes "buffer_holds b ps" "agg_packet q" "sk_data skb = q" "\<forall>i j. expand i j"
    and "length (concat ps) + length q + 20 < 2 ^ 16"
  shows "if length (concat ps) + length q < buffer_size b
    then \<exists>b'. push_ip_packet False expand ifa b skb = Some (NF_STOLEN, None, b') \<and> buffer_holds b' (ps @ [q])
      \<and> buffer_size b' = buffer_size b \<and> ab_ip b' = ab_ip b
    else \<exists>skb' b'. push_ip_packet False expand ifa b skb = Some (NF_ACCEPT, Some skb', b') \<and> buffer_holds b' []
      \<and> sk_data skb' = encap_header (of_nat (20 + length (concat (ps @ [q])))) AGREGATED_IP_ENCAP_IP_PROTO ifa (ab_ip b) @ concat (rev (deltas (ps @ [q])))"
proof -
  have ps: "\<forall>p\<in>set ps. agg_packet p" and lb: "length (buffer_data b) = length (concat ps)"
    using assms(1) deltas_length [of ps] by (simp_all add: buffer_holds_def length_concat sum_list_rev flip: rev_map)
  obtain b' where b': "buffer_ok b'" "q @ buffer_data b' = concat (rev (deltas (ps @ [q])))" "buffer_size b' = buffer_size b"
      "ab_ip b' = ab_ip b" "length (buffer_data b') = length (concat ps)"
    and push: "push_ip_packet False expand ifa b skb = (if length (buffer_data b') + length q \<ge> buffer_size b'
       then do { (skb, b) \<leftarrow> flush_buffer_ip False expand ifa skb b'; Some (NF_ACCEPT, Some skb, b) }
       else do { (r, b) \<leftarrow> push_bytes False b' q 0 (length q); if r \<noteq> 0 then None else Some (NF_STOLEN, None, b) })"
    using buffer_holds_cases [OF assms(1,2), where skb = skb and expand = expand and ifa = ifa] assms(3) lb by metis
  show ?thesis
  proof (cases "length (concat ps) + length q < buffer_size b")
    case True
    obtain b'' where "push_bytes False b' q 0 (length q) = Some (0, b'')" "buffer_data b'' = take (length q) (drop 0 q) @ buffer_data b'"
      "buffer_ok b''" "buffer_size b'' = buffer_size b'" "ab_ip b'' = ab_ip b'"
      using push_bytes_fits [OF b'(1), of "length q" 0 q] True b' by auto
    then show ?thesis using True push b' ps assms(2) by (auto simp: buffer_holds_def)
  next
    case False
    obtain skb' where f: "flush_into AGREGATED_IP_ENCAP_IP_PROTO False expand ifa (of_nat (length q)) skb b' = Some (skb', b'\<lparr>ab_head := buffer_size b'\<rparr>)"
      "sk_data skb' = encap_header (of_nat (20 + length (buffer_data b')) + of_nat (length q)) AGREGATED_IP_ENCAP_IP_PROTO ifa (ab_ip b') @ q @ buffer_data b'"
      using flush_into_up [OF b'(1) assms(4)] assms(3) by metis
    then have "push_ip_packet False expand ifa b skb = Some (NF_ACCEPT, Some skb', b'\<lparr>ab_head := buffer_size b'\<rparr>)"
      using False push b' agg_packet_read(3) [OF assms(2)] assms(3) by (simp add: flush_buffer_ip_def)
    moreover have "(of_nat (20 + length (buffer_data b')) + of_nat (length q) :: u16) = of_nat (20 + length (concat (ps @ [q])))"
      using b'(5) by simp
    ultimately show ?thesis
      using False f(2) b'(2,4) by (auto simp: buffer_holds_def buffer_ok_def buffer_data_def simp del: of_nat_add of_nat_numeral)
  qed
qed

text \<open>C18: What a packet meets at the post-routing hook of the aggregation interceptor, on one processor. If the buffer
  of its destination has room, the packet is taken: the buffer then holds it besides the packets it held, with the
  timestamp of the packet before it replaced by the distance between the two. Otherwise the packet goes on as an
  encapsulating IP packet with a correct checksum and total length, to the buffer's destination, that carries all the packets, newest first, and the buffer is
  empty.\<close>

theorem push_ip_packet_aggregates:
  assumes "buffer_holds b ps" "agg_packet q" "sk_data skb = q" "\<forall>i j. expand i j" "length (concat ps) + length q + 20 < 2 ^ 16"
  shows "if length (concat ps) + length q < buffer_size b
    then \<exists>b'. push_ip_packet False expand ifa b skb = Some (NF_STOLEN, None, b') \<and> buffer_holds b' (ps @ [q])
      \<and> buffer_size b' = buffer_size b \<and> ab_ip b' = ab_ip b
    else \<exists>skb' b' hdr. push_ip_packet False expand ifa b skb = Some (NF_ACCEPT, Some skb', b') \<and> buffer_holds b' []
      \<and> sk_data skb' = hdr @ concat (rev (deltas (ps @ [q]))) \<and> length hdr = 20 \<and> csum (u16s hdr) = 0
      \<and> map_option unat (tot_len (sk_data skb') 0) = Some (length (sk_data skb')) \<and> ip_protocol (sk_data skb') 0 = Some AGREGATED_IP_ENCAP_IP_PROTO
      \<and> be32_at (sk_data skb') 16 = Some (ab_ip b)"
proof (cases "length (concat ps) + length q < buffer_size b")
  case True
  then show ?thesis using push_ip_packet_step [OF assms] by auto
next
  case False
  let ?h = "encap_header (of_nat (20 + length (concat (ps @ [q])))) AGREGATED_IP_ENCAP_IP_PROTO ifa (ab_ip b)" let ?d = "concat (rev (deltas (ps @ [q])))"
  obtain skb' b' where f: "push_ip_packet False expand ifa b skb = Some (NF_ACCEPT, Some skb', b')" "buffer_holds b' []" "sk_data skb' = ?h @ ?d"
    using push_ip_packet_step [OF assms] False by (metis (no_types, lifting))
  have "\<forall>p\<in>set (ps @ [q]). agg_packet p" using assms(1,2) by (simp add: buffer_holds_def)
  then have "length ?d = length (concat (ps @ [q]))" using deltas_length by (simp add: length_concat sum_list_rev flip: rev_map)
  moreover have "unat (of_nat (20 + length (concat (ps @ [q]))) :: u16) = 20 + length (concat (ps @ [q]))"
  proof -
    have "20 + length (concat (ps @ [q])) < 2 ^ LENGTH(16)" using assms(5) by simp
    then show ?thesis by (simp only: unat_of_nat mod_less)
  qed
  ultimately have "map_option unat (tot_len (sk_data skb') 0) = Some (length (sk_data skb'))"
    by (simp only: f(3) encap_header_fields option.map length_append length_ip_header)
  with False f show ?thesis
    by (simp only: if_False) (intro exI [of _ skb'] exI [of _ b'] exI [of _ ?h], simp only: encap_header_fields encap_header_checksum length_ip_header simp_thms)
qed

text \<open>A UDP packet from 10.0.0.1 to 10.0.0.2 whose payload is a timestamp.\<close>

definition demo_packet :: "u64 \<Rightarrow> u8 list" where
  "demo_packet t = [0x45, 0, 0, 36, 0, 0, 0, 0, 64, 17, 0, 0, 10, 0, 0, 1, 10, 0, 0, 2, 0, 1, 0, 2, 0, 16, 0, 0]
     @ word_bytes 8 (swap_bytes t)"

definition demo_buffer :: "nat \<Rightarrow> u8 list \<Rightarrow> aggregate_buffer" where
  "demo_buffer n d = \<lparr>buffer_lock = False, ab_ip = 0x0200000A, ab_mem = replicate (n - length d) 0 @ d, ab_head = n - length d\<rparr>"

definition demo_skb :: "u8 list \<Rightarrow> sk_buff" where
  "demo_skb p = \<lparr>sk_headroom = 64, sk_data = p, sk_tailroom = 0, sk_has_net = True\<rparr>"

lemma length_demo [simp]: "length (demo_packet t) = 36"
  by (simp add: demo_packet_def)

lemma demo_packet_ok: "agg_packet (demo_packet t)"
proof -
  have "demo_packet t ! 0 = 0x45" "demo_packet t ! 9 = 17" "take 2 (drop 2 (demo_packet t)) = [0, 36]" by (simp_all add: demo_packet_def)
  then show ?thesis
    by (simp add: agg_packet_def pdu_at_def tot_len_def be16_at_def aggregable_def IPPROTO_UDP_def swap_bytes_def
        del: add_2_eq_Suc add_2_eq_Suc')
qed

lemma demo_buffer_holds: "length (concat ps) \<le> n \<Longrightarrow> \<forall>p\<in>set ps. agg_packet p \<Longrightarrow> length (concat (rev (deltas ps))) = length (concat ps) \<Longrightarrow>
  buffer_holds (demo_buffer n (concat (rev (deltas ps)))) ps \<and> buffer_size (demo_buffer n (concat (rev (deltas ps)))) = n"
  by (simp add: buffer_holds_def demo_buffer_def buffer_ok_def buffer_data_def)

theorem push_ip_packet_aggregates_witness:
  "(\<exists>b'. push_ip_packet False (\<lambda>_ _. True) 7 (demo_buffer 512 (demo_packet 5)) (demo_skb (demo_packet 9)) = Some (NF_STOLEN, None, b')
      \<and> buffer_holds b' [demo_packet 5, demo_packet 9]) \<and>
   (\<exists>skb' b' hdr. push_ip_packet False (\<lambda>_ _. True) 7 (demo_buffer 60 (demo_packet 5)) (demo_skb (demo_packet 9)) = Some (NF_ACCEPT, Some skb', b')
      \<and> sk_data skb' = hdr @ demo_packet 9 @ with_ts 4 (demo_packet 5))"
proof -
  have ts: "pkt_ts (demo_packet t) = t" for t
    by (simp add: pkt_ts_def pdu_at_def demo_packet_def bytes_word_word_bytes swap_bytes_swap_bytes del: word_bytes_numeral)
  have b: "buffer_holds (demo_buffer 512 (demo_packet 5)) [demo_packet 5] \<and> buffer_size (demo_buffer 512 (demo_packet 5)) = 512"
    "buffer_holds (demo_buffer 60 (demo_packet 5)) [demo_packet 5] \<and> buffer_size (demo_buffer 60 (demo_packet 5)) = 60"
    using demo_buffer_holds [of "[demo_packet 5]" 512] demo_buffer_holds [of "[demo_packet 5]" 60] demo_packet_ok by simp_all
  note step = push_ip_packet_aggregates [where skb = "demo_skb (demo_packet 9)" and ps = "[demo_packet 5]" and expand = "\<lambda>_ _. True"
      and ifa = 7, OF _ demo_packet_ok [of 9]]
  have pre: "length (concat [demo_packet 5]) + length (demo_packet 9) + 20 < 2 ^ 16" "sk_data (demo_skb (demo_packet 9)) = demo_packet 9"
    "concat (rev (deltas ([demo_packet 5] @ [demo_packet 9]))) = demo_packet 9 @ with_ts 4 (demo_packet 5)"
    by (simp_all add: demo_skb_def ts)
  have "length (concat [demo_packet 5]) + length (demo_packet 9) < 512" "\<not> length (concat [demo_packet 5]) + length (demo_packet 9) < 60" by simp_all
  then show ?thesis
    using step [OF conjunct1 [OF b(1)] pre(2) _ pre(1)] step [OF conjunct1 [OF b(2)] pre(2) _ pre(1)] b pre(3) by fastforce
qed

text \<open>C34: On a kernel built for several processors the aggregation hook never returns from the first packet it should
  aggregate: \<^verbatim>\<open>peek_packet\<close> calls \<^verbatim>\<open>buffer_data_len\<close>, which takes the lock its caller holds. On one processor the same
  call returns.\<close>

theorem aggregation_hook_hangs_on_smp:
  assumes "sk_has_net skb" "agg_packet (sk_data skb)" "be32_at (sk_data skb) 16 = Some daddr"
    and "get_ip_buffer_for uninit pars daddr st = Some (Some (ab, st'))" "ab \<noteq> NULL" "abuffers st' ab = Some b"
    and "buffer_holds b ps" "\<forall>i j. expand i j" "length (concat ps) + length (sk_data skb) + 20 < 2 ^ 16"
  shows "aggregation_post_routing_hook True expand uninit pars ifa (Some skb) st = Some None \<and>
    (\<exists>r. aggregation_post_routing_hook False expand uninit pars ifa (Some skb) st = Some (Some r))"
proof
  have "push_ip_packet True expand ifa b skb = None"
    using agg_packet_read(3) [OF assms(2)] by (simp add: push_ip_packet_def Let_def smp_nested_lock)
  then show "aggregation_post_routing_hook True expand uninit pars ifa (Some skb) st = Some None"
    using assms(1,3-6) by (simp add: aggregation_post_routing_hook_def push_at_def)
  obtain r where "push_ip_packet False expand ifa b skb = Some r"
    using push_ip_packet_step [OF assms(7,2) refl assms(8,9), where ifa = ifa] by (auto split: if_splits)
  then show "\<exists>r. aggregation_post_routing_hook False expand uninit pars ifa (Some skb) st = Some (Some r)"
    using assms(1,3-6) by (cases r) (simp add: aggregation_post_routing_hook_def push_at_def)
qed

definition demo_agg :: agg where
  "demo_agg = \<lparr>nodes = Map.empty, lists = [1 \<mapsto> \<lparr>k_first = NULL, k_last = NULL\<rparr>], kmem = [10, 11, 12, 13], abuffers = Map.empty,
     app_buffers = NULL, ip_buffers = 1\<rparr>"

definition demo_params :: agg_params where
  "demo_params = \<lparr>aggregate_app_packets = False, aggregate_ip_packets = True, app_buffer_size = 256, ip_buffer_size = 512\<rparr>"

theorem aggregation_hook_hangs_on_smp_witness:
  "aggregation_post_routing_hook True (\<lambda>_ _. True) (\<lambda>_ _. 0) demo_params 7 (Some (demo_skb (demo_packet 9))) demo_agg = Some None \<and>
    (\<exists>r. aggregation_post_routing_hook False (\<lambda>_ _. True) (\<lambda>_ _. 0) demo_params 7 (Some (demo_skb (demo_packet 9))) demo_agg = Some (Some r))"
proof -
  have d: "be32_at (sk_data (demo_skb (demo_packet 9))) 16 = Some 0x0200000A"
    by (simp add: demo_skb_def demo_packet_def be32_at_def)
  obtain st' b where get: "get_ip_buffer_for (\<lambda>_ _. 0) demo_params 0x0200000A demo_agg = Some (Some (11, st'))" "abuffers st' 11 = Some b"
    "buffer_holds b []"
    by (simp add: get_ip_buffer_for_def get_buffer_for_def demo_agg_def demo_params_def make_klist_iterator_def klist_scan.simps
        klist_iterator_has_next_def new_buffer_def create_aggregate_buffer_def make_klist_node_def add_klist_node_to_klist_def set_last_def
        set_first_def buffer_holds_def buffer_ok_def buffer_data_def)
  show ?thesis
    using aggregation_hook_hangs_on_smp [OF _ _ d get(1) _ get(2,3), of "\<lambda>_ _. True" 7] demo_packet_ok [of 9] by (simp add: demo_skb_def)
qed

end
