(* ===== verification/Sl_Queue.thy ===== *)
theory Sl_Queue
  imports Fifo Klist
begin

text \<open>
  The queue between the deaggregation hook and the injection thread
  (src/fred_framework/interceptors/deaggregation/spin_lock_queue.c). Nodes are found by address in a heap, the
  queue object is \<^term>\<open>None\<close> once it is freed, and kmalloc takes addresses from a supply in which a freed
  address may come back. Every operation runs between taking and releasing the queue's lock, so operations of
  different threads do not interleave; a dereference of NULL or of freed memory is \<^term>\<open>None\<close>.

  The queue is shown to be an instance of the locale \<^verbatim>\<open>fifo\<close>. Freeing a queue is correct only before the first
  dequeue that left an element behind: dequeue does not clear the link to the node it frees.
\<close>

section \<open>The operations\<close>

record sl_queue_node =
  sq_data :: addr
  sq_next :: addr
  sq_before :: addr

record sl_queue =
  q_first :: addr
  q_last :: addr

record sl_heap =
  sl_nodes :: "addr \<rightharpoonup> sl_queue_node"
  sl_q :: "sl_queue option"
  sl_mem :: "addr list"

definition sl_kmalloc :: "'a sl_heap_scheme \<Rightarrow> addr \<times> 'a sl_heap_scheme" where
  "sl_kmalloc h = (case sl_mem h of [] \<Rightarrow> (NULL, h) | p # ps \<Rightarrow> (p, h\<lparr>sl_mem := ps\<rparr>))"

definition make_spin_lock_queue_node :: "addr \<Rightarrow> 'a sl_heap_scheme \<Rightarrow> addr \<times> 'a sl_heap_scheme" where
  "make_spin_lock_queue_node d h = (case sl_kmalloc h of (p, h) \<Rightarrow>
     if p = NULL then (NULL, h)
     else (p, h\<lparr>sl_nodes := (sl_nodes h)(p \<mapsto> \<lparr>sq_data = d, sq_next = NULL, sq_before = NULL\<rparr>)\<rparr>))"

text \<open>The result tells whether the allocation succeeded.\<close>

definition make_spin_lock_queue :: "'a sl_heap_scheme \<Rightarrow> bool \<times> 'a sl_heap_scheme" where
  "make_spin_lock_queue h = (case sl_kmalloc h of (p, h) \<Rightarrow>
     if p = NULL then (False, h\<lparr>sl_q := None\<rparr>) else (True, h\<lparr>sl_q := Some \<lparr>q_first = NULL, q_last = NULL\<rparr>\<rparr>))"

definition free_spin_lock_queue_node :: "addr \<Rightarrow> 'a sl_heap_scheme \<Rightarrow> (addr \<times> 'a sl_heap_scheme) option" where
  "free_spin_lock_queue_node p h = do {
     n \<leftarrow> deref (sl_nodes h) p;
     Some (sq_data n, h\<lparr>sl_nodes := (sl_nodes h)(p := None)\<rparr>) }"

text \<open>\<^verbatim>\<open>free_data\<close> stands for the callback, or for kfree when the caller passes NULL.\<close>

partial_function (option) free_queue_loop ::
  "(addr \<Rightarrow> 'a sl_heap_scheme \<Rightarrow> 'a sl_heap_scheme) \<Rightarrow> addr \<Rightarrow> 'a sl_heap_scheme \<Rightarrow> 'a sl_heap_scheme run"
where
  "free_queue_loop free_data it h =
    (if it = NULL then Some (Some h)
     else case do { n \<leftarrow> deref (sl_nodes h) it; q \<leftarrow> sl_q h;
                    (d, h) \<leftarrow> free_spin_lock_queue_node it (h\<lparr>sl_q := Some (q\<lparr>q_first := sq_next n\<rparr>)\<rparr>);
                    Some (sq_next n, if d \<noteq> NULL then free_data d h else h) } of
       None \<Rightarrow> Some None
     | Some (it, h) \<Rightarrow> free_queue_loop free_data it h)"

definition free_spin_lock_queue ::
  "(addr \<Rightarrow> 'a sl_heap_scheme \<Rightarrow> 'a sl_heap_scheme) \<Rightarrow> 'a sl_heap_scheme \<Rightarrow> 'a sl_heap_scheme run" where
  "free_spin_lock_queue free_data h = (case sl_q h of
     None \<Rightarrow> Some None
   | Some q \<Rightarrow> run_bind (free_queue_loop free_data (q_first q) h) (\<lambda>h. Some (Some (h\<lparr>sl_q := None\<rparr>))))"

definition spin_lock_queue_enqueue :: "addr \<Rightarrow> 'a sl_heap_scheme \<Rightarrow> 'a sl_heap_scheme option" where
  "spin_lock_queue_enqueue d h = (case make_spin_lock_queue_node d h of (p, h) \<Rightarrow>
     if p = NULL then Some h
     else do {
       q \<leftarrow> sl_q h;
       if q_first q = NULL then Some (h\<lparr>sl_q := Some \<lparr>q_first = p, q_last = p\<rparr>\<rparr>)
       else do {
         f \<leftarrow> deref (sl_nodes h) (q_first q);
         let ns = (sl_nodes h)(q_first q \<mapsto> f\<lparr>sq_before := p\<rparr>);
         n \<leftarrow> deref ns p;
         Some (h\<lparr>sl_nodes := ns(p \<mapsto> n\<lparr>sq_next := q_first q\<rparr>), sl_q := Some (q\<lparr>q_first := p\<rparr>)\<rparr>) } })"

definition spin_lock_queue_dequeue :: "'a sl_heap_scheme \<Rightarrow> (addr \<times> 'a sl_heap_scheme) option" where
  "spin_lock_queue_dequeue h = do {
     q \<leftarrow> sl_q h;
     if q_first q = NULL then Some (NULL, h)
     else if q_first q = q_last q then do {
       (d, h) \<leftarrow> free_spin_lock_queue_node (q_last q) (h\<lparr>sl_q := Some \<lparr>q_first = NULL, q_last = NULL\<rparr>\<rparr>);
       Some (d, h) }
     else do {
       n \<leftarrow> deref (sl_nodes h) (q_last q);
       (d, h) \<leftarrow> free_spin_lock_queue_node (q_last q) (h\<lparr>sl_q := Some (q\<lparr>q_last := sq_before n\<rparr>)\<rparr>);
       Some (d, h) } }"

section \<open>What a queue stands for\<close>

text \<open>The nodes from the oldest to the newest, with their data: \<^verbatim>\<open>before\<close> leads to the next newer node and
  \<^verbatim>\<open>next\<close> to the next older one; the \<^verbatim>\<open>next\<close> of the oldest is \<^verbatim>\<open>e\<close>.\<close>

fun sl_seg :: "(addr \<rightharpoonup> sl_queue_node) \<Rightarrow> addr \<Rightarrow> addr \<Rightarrow> (addr \<times> addr) list \<Rightarrow> bool" where
  "sl_seg m e p [] \<longleftrightarrow> p = NULL"
| "sl_seg m e p ((a, d) # xs) \<longleftrightarrow> p = a \<and> a \<noteq> NULL \<and>
     (case m a of None \<Rightarrow> False | Some n \<Rightarrow> sq_data n = d \<and> sq_next n = e \<and> sl_seg m a (sq_before n) xs)"

definition newest :: "(addr \<times> addr) list \<Rightarrow> addr" where
  "newest xs = (if xs = [] then NULL else fst (last xs))"

definition oldest :: "(addr \<times> addr) list \<Rightarrow> addr" where
  "oldest xs = (if xs = [] then NULL else fst (hd xs))"

definition sl_rep :: "'a sl_heap_scheme \<Rightarrow> addr \<Rightarrow> (addr \<times> addr) list \<Rightarrow> bool" where
  "sl_rep h e xs \<longleftrightarrow> distinct (map fst xs) \<and> sl_q h = Some \<lparr>q_first = newest xs, q_last = oldest xs\<rparr> \<and>
     sl_seg (sl_nodes h) e (oldest xs) xs"

lemma newest_simps [simp]: "newest [] = NULL" "newest (xs @ [x]) = fst x"
  by (simp_all add: newest_def)

lemma oldest_simps [simp]: "oldest [] = NULL" "oldest (x # xs) = fst x"
  by (simp_all add: oldest_def)

lemma oldest_app: "oldest (xs @ ys) = (if xs = [] then oldest ys else oldest xs)"
  by (simp add: oldest_def)

lemma sl_seg_last:
  "sl_seg m e p (xs @ [(a, d)]) \<Longrightarrow> \<exists>n. m a = Some n \<and> sq_before n = NULL \<and> a \<noteq> NULL"
  by (induction xs arbitrary: e p) (auto split: option.splits)

lemma sl_seg_node: "sl_seg m e p xs \<Longrightarrow> a \<in> fst ` set xs \<Longrightarrow> m a \<noteq> None \<and> a \<noteq> NULL"
  by (induction xs arbitrary: e p) (force split: option.splits)+

lemma sl_seg_cong:
  "\<forall>a\<in>fst ` set xs. m' a = m a \<Longrightarrow> sl_seg m' e p xs = sl_seg m e p xs"
  by (induction xs arbitrary: e p) (auto split: option.splits)

lemma sl_seg_drop: "a \<notin> fst ` set xs \<Longrightarrow> sl_seg (m(a := v)) e p xs = sl_seg m e p xs"
  by (rule sl_seg_cong) auto

lemma sl_seg_extend:
  assumes "sl_seg m e p (xs @ [(a, d)])" "distinct (map fst (xs @ [(a, d)]))" "b \<notin> fst ` set (xs @ [(a, d)])" "b \<noteq> NULL"
    and "m' b = Some \<lparr>sq_data = v, sq_next = a, sq_before = NULL\<rparr>" "m' a = Some ((the (m a))\<lparr>sq_before := b\<rparr>)"
    and "\<forall>c. c \<noteq> a \<longrightarrow> c \<noteq> b \<longrightarrow> m' c = m c"
  shows "sl_seg m' e p (xs @ [(a, d), (b, v)])"
  using assms
proof (induction xs arbitrary: e p)
  case Nil
  then show ?case by (auto split: option.splits)
next
  case (Cons x xs)
  then show ?case by (cases x) (auto split: option.splits)
qed

lemma newest_NULL: "sl_seg m e p xs \<Longrightarrow> newest xs = NULL \<longleftrightarrow> xs = []"
  by (cases xs rule: rev_cases) (auto dest: sl_seg_last)

lemma sl_seg_rest: "sl_seg m e p ((a, d) # xs) \<Longrightarrow> sl_seg m a (oldest xs) xs \<and> sq_before (the (m a)) = oldest xs"
  by (cases xs) (auto split: option.splits)

section \<open>The operations on the sequence\<close>

lemma make_spin_lock_queue_ok:
  assumes "sl_mem h = p # ps" "p \<noteq> NULL"
  shows "make_spin_lock_queue h = (True, h\<lparr>sl_mem := ps, sl_q := Some \<lparr>q_first = NULL, q_last = NULL\<rparr>\<rparr>)"
    and "sl_rep (h\<lparr>sl_mem := ps, sl_q := Some \<lparr>q_first = NULL, q_last = NULL\<rparr>\<rparr>) e []"
  using assms by (simp_all add: make_spin_lock_queue_def sl_kmalloc_def sl_rep_def)

definition sl_room :: "'a sl_heap_scheme \<Rightarrow> bool" where
  "sl_room h = (case sl_mem h of [] \<Rightarrow> False | p # _ \<Rightarrow> p \<noteq> NULL \<and> sl_nodes h p = None)"

lemma enqueue_ok:
  assumes "sl_rep h e xs" "sl_mem h = p # ps" "p \<noteq> NULL" "sl_nodes h p = None"
  obtains ns q where "spin_lock_queue_enqueue d h = Some (h\<lparr>sl_nodes := ns, sl_q := Some q, sl_mem := ps\<rparr>)"
    and "sl_rep (h\<lparr>sl_nodes := ns, sl_q := Some q, sl_mem := ps\<rparr>) (if xs = [] then NULL else e) (xs @ [(p, d)])"
    and "dom ns = insert p (dom (sl_nodes h))"
proof (cases xs rule: rev_cases)
  case Nil
  then show thesis
    using assms that [where ns = "(sl_nodes h)(p \<mapsto> \<lparr>sq_data = d, sq_next = NULL, sq_before = NULL\<rparr>)" and q = "\<lparr>q_first = p, q_last = p\<rparr>"]
    by (simp add: spin_lock_queue_enqueue_def make_spin_lock_queue_node_def sl_kmalloc_def sl_rep_def newest_def)
next
  case (snoc ys y)
  obtain a v where y: "y = (a, v)" by (cases y)
  let ?m = "sl_nodes h"
  have seg: "sl_seg ?m e (oldest xs) (ys @ [(a, v)])" using assms(1) snoc y by (simp add: sl_rep_def)
  obtain n where n: "?m a = Some n" "sq_before n = NULL" "a \<noteq> NULL" using sl_seg_last [OF seg] by blast
  have fresh: "p \<notin> fst ` set (ys @ [(a, v)])" using sl_seg_node [OF seg] assms(4) by blast
  then have pa: "p \<noteq> a" by auto
  define ns where "ns = ?m(a \<mapsto> n\<lparr>sq_before := p\<rparr>, p \<mapsto> \<lparr>sq_data = d, sq_next = a, sq_before = NULL\<rparr>)"
  have "sl_seg ns e (oldest xs) (ys @ [(a, v), (p, d)])"
    using assms(1,3) snoc y n pa fresh by (intro sl_seg_extend [OF seg]) (auto simp: ns_def sl_rep_def)
  moreover have "spin_lock_queue_enqueue d h = Some (h\<lparr>sl_nodes := ns, sl_q := Some \<lparr>q_first = p, q_last = oldest xs\<rparr>, sl_mem := ps\<rparr>)"
    using assms snoc y n pa
    by (simp add: spin_lock_queue_enqueue_def make_spin_lock_queue_node_def sl_kmalloc_def sl_rep_def Let_def ns_def fun_upd_twist)
  moreover have "dom ns = insert p (dom ?m)" using n by (auto simp: ns_def)
  ultimately show thesis
    using that [where ns = ns and q = "\<lparr>q_first = p, q_last = oldest xs\<rparr>"] assms(1) snoc y fresh
    by (cases "ys = []") (auto simp: sl_rep_def oldest_app newest_def)
qed

lemma enqueue_ex:
  assumes "sl_rep h e xs" "sl_mem h = p # ps" "p \<noteq> NULL" "sl_nodes h p = None"
  shows "\<exists>ns q. spin_lock_queue_enqueue d h = Some (h\<lparr>sl_nodes := ns, sl_q := Some q, sl_mem := ps\<rparr>) \<and>
    sl_rep (h\<lparr>sl_nodes := ns, sl_q := Some q, sl_mem := ps\<rparr>) (if xs = [] then NULL else e) (xs @ [(p, d)]) \<and>
    dom ns = insert p (dom (sl_nodes h))"
  by (rule enqueue_ok [OF assms]) blast

lemma dequeue_empty: "sl_rep h e [] \<Longrightarrow> spin_lock_queue_dequeue h = Some (NULL, h)"
  by (simp add: sl_rep_def spin_lock_queue_dequeue_def)

lemma dequeue_ok:
  assumes "sl_rep h e ((a, d) # xs)"
  shows "spin_lock_queue_dequeue h = Some (d, h\<lparr>sl_nodes := (sl_nodes h)(a := None), sl_q := Some \<lparr>q_first = newest xs, q_last = oldest xs\<rparr>\<rparr>)"
    and "sl_rep (h\<lparr>sl_nodes := (sl_nodes h)(a := None), sl_q := Some \<lparr>q_first = newest xs, q_last = oldest xs\<rparr>\<rparr>) a xs"
proof -
  have seg: "sl_seg (sl_nodes h) e a ((a, d) # xs)" and q: "sl_q h = Some \<lparr>q_first = newest ((a, d) # xs), q_last = a\<rparr>"
    and dis: "a \<notin> fst ` set xs" "distinct (map fst xs)" using assms by (auto simp: sl_rep_def)
  obtain n where n: "sl_nodes h a = Some n" "sq_data n = d" "a \<noteq> NULL" using seg by (auto split: option.splits)
  have rest: "sl_seg (sl_nodes h) a (oldest xs) xs" "sq_before n = oldest xs" using sl_seg_rest [OF seg] n by simp_all
  have nz: "newest ((a, d) # xs) \<noteq> NULL" using newest_NULL [OF seg] by simp
  have one: "newest ((a, d) # xs) = a \<longleftrightarrow> xs = []"
    using dis by (cases xs rule: rev_cases) (auto simp: newest_def)
  have two: "xs \<noteq> [] \<Longrightarrow> newest ((a, d) # xs) = newest xs" by (simp add: newest_def)
  show "spin_lock_queue_dequeue h = Some (d, h\<lparr>sl_nodes := (sl_nodes h)(a := None), sl_q := Some \<lparr>q_first = newest xs, q_last = oldest xs\<rparr>\<rparr>)"
    using q n rest(2) nz one two
    by (cases "xs = []") (simp_all add: spin_lock_queue_dequeue_def free_spin_lock_queue_node_def)
  show "sl_rep (h\<lparr>sl_nodes := (sl_nodes h)(a := None), sl_q := Some \<lparr>q_first = newest xs, q_last = oldest xs\<rparr>\<rparr>) a xs"
    using dis rest(1) by (auto simp: sl_rep_def sl_seg_drop)
qed

section \<open>The queue is a fifo\<close>

text \<open>The events of the locale on a queue that may have crashed; a take of an empty queue hands out nothing.\<close>

definition sl_put :: "addr \<Rightarrow> sl_heap option \<Rightarrow> sl_heap option" where
  "sl_put d so = Option.bind so (spin_lock_queue_enqueue d)"

definition sl_take :: "unit \<Rightarrow> sl_heap option \<Rightarrow> addr list \<times> sl_heap option" where
  "sl_take _ so = (case so of None \<Rightarrow> ([], None) | Some h \<Rightarrow> (case spin_lock_queue_dequeue h of
     None \<Rightarrow> ([], None)
   | Some (d, h') \<Rightarrow> (if map_option q_first (sl_q h) = Some NULL then [] else [d], Some h')))"

definition sl_ready :: "sl_heap option \<Rightarrow> bool" where
  "sl_ready so = (case so of None \<Rightarrow> False | Some h \<Rightarrow> sl_room h)"

definition sl_ok :: "sl_heap option \<Rightarrow> bool" where
  "sl_ok so \<longleftrightarrow> (\<exists>h e xs. so = Some h \<and> sl_rep h e xs)"

definition sl_content :: "sl_heap option \<Rightarrow> addr list" where
  "sl_content so = (THE ds. \<exists>e xs. sl_rep (the so) e xs \<and> ds = map snd xs)"

lemma sl_seg_unique: "sl_seg m e p xs \<Longrightarrow> sl_seg m e' p ys \<Longrightarrow> xs = ys"
proof (induction xs arbitrary: e e' p ys)
  case Nil
  then show ?case by (cases ys) auto
next
  case (Cons x xs)
  then show ?case by (cases x; cases ys) (auto split: option.splits)
qed

lemma sl_content_rep: "sl_rep h e xs \<Longrightarrow> sl_content (Some h) = map snd xs"
  unfolding sl_content_def by (rule the_equality) (auto simp: sl_rep_def dest: sl_seg_unique)

lemma sl_put_rep:
  assumes "sl_rep h e xs" "sl_room h"
  obtains h' e' p where "sl_put d (Some h) = Some h'" "sl_rep h' e' (xs @ [(p, d)])"
proof -
  obtain p ps where "sl_mem h = p # ps" "p \<noteq> NULL" "sl_nodes h p = None"
    using assms(2) by (auto simp: sl_room_def split: list.splits)
  then show thesis using enqueue_ok [OF assms(1), where d = d] that by (metis Option.bind.bind_lunit sl_put_def)
qed

lemma sl_take_rep:
  assumes "sl_rep h e xs"
  obtains h' e' where "sl_take u (Some h) = (map snd (take 1 xs), Some h')" "sl_rep h' e' (tl xs)"
proof (cases xs)
  case Nil
  then show thesis using assms dequeue_empty [of h e] that [of h e] by (simp add: sl_take_def sl_rep_def)
next
  case (Cons x ys)
  then have "newest xs \<noteq> NULL" using assms newest_NULL unfolding sl_rep_def by blast
  then show thesis
    using assms Cons dequeue_ok [of h e "fst x" "snd x" ys] that unfolding sl_rep_def [of h e] by (auto simp: sl_take_def)
qed

interpretation slq: fifo sl_content sl_ok sl_ready id sl_put sl_take
proof
  fix s x assume "sl_ok s" "sl_ready s"
  then obtain h e xs where h: "s = Some h" "sl_rep h e xs" "sl_room h" by (auto simp: sl_ok_def sl_ready_def)
  obtain h' e' p where "sl_put x s = Some h'" "sl_rep h' e' (xs @ [(p, x)])" using sl_put_rep [OF h(2,3)] h(1) by metis
  then show "sl_ok (sl_put x s)" "sl_content (sl_put x s) = sl_content s @ [id x]"
    using h by (auto simp: sl_ok_def sl_content_rep)
next
  fix s u assume "sl_ok s"
  then obtain h e xs where h: "s = Some h" "sl_rep h e xs" by (auto simp: sl_ok_def)
  obtain h' e' where "sl_take u s = (map snd (take 1 xs), Some h')" "sl_rep h' e' (tl xs)"
    using sl_take_rep [OF h(2)] h(1) by metis
  then show "sl_ok (snd (sl_take u s))" "fst (sl_take u s) @ sl_content (snd (sl_take u s)) = sl_content s"
    using h by (cases xs; auto simp: sl_ok_def sl_content_rep)+
qed

lemma sl_drain:
  "sl_rep h e xs \<Longrightarrow> length xs \<le> n \<Longrightarrow> fst (fifo_run sl_put sl_take (replicate n (Take ())) (Some h)) = map snd xs"
proof (induction n arbitrary: h e xs)
  case (Suc n)
  obtain h' e' where h': "sl_take () (Some h) = (map snd (take 1 xs), Some h')" "sl_rep h' e' (tl xs)"
    using sl_take_rep [OF Suc.prems(1)] by metis
  then have "fst (fifo_run sl_put sl_take (replicate n (Take ())) (Some h')) = map snd (tl xs)"
    using Suc.IH [OF h'(2)] Suc.prems(2) by simp
  with h' show ?case by (cases xs) (simp_all add: case_prod_unfold)
qed simp

text \<open>C20: The queue between the deaggregation hook and the injection thread is first in, first out. From a queue
  just made, any sequence of enqueues and dequeues whose allocations succeed runs without touching freed memory, and
  as many further dequeues as there were enqueues complete the hand-out: what came out is then exactly
  the sequence of the enqueued pointers, in order, nothing lost and nothing twice.\<close>

theorem spin_lock_queue_fifo:
  assumes "make_spin_lock_queue h = (True, q)" "has_room sl_ready sl_put sl_take evs (Some q)"
  shows "fst (fifo_run sl_put sl_take (evs @ replicate (length (written evs)) (Take ())) (Some q)) = written evs"
proof -
  have q: "sl_rep q NULL []"
    using assms(1) make_spin_lock_queue_ok by (auto simp: make_spin_lock_queue_def sl_kmalloc_def sl_rep_def split: list.splits if_splits)
  then have ok: "sl_ok (Some q)" by (auto simp: sl_ok_def)
  let ?r = "fifo_run sl_put sl_take evs (Some q)"
  obtain h' e xs where h': "snd ?r = Some h'" "sl_rep h' e xs" using slq.run_invar [OF ok assms(2)] by (auto simp: sl_ok_def)
  have order: "fst ?r @ map snd xs = written evs"
    using slq.run_order [OF ok assms(2)] h' sl_content_rep [OF q] sl_content_rep [OF h'(2)] by simp
  then have "length xs \<le> length (written evs)" by (metis length_append length_map le_add2)
  then show ?thesis using order h' sl_drain [OF h'(2)] by (simp add: fifo_run_append case_prod_unfold Let_def)
qed

definition sl_demo :: sl_heap where
  "sl_demo = \<lparr>sl_nodes = Map.empty, sl_q = None, sl_mem = [100, 101, 102, 101]\<rparr>"

theorem spin_lock_queue_fifo_witness:
  "fst (fifo_run sl_put sl_take ([Put 7, Put 8, Take (), Put 9] @ replicate 3 (Take ())) (Some (snd (make_spin_lock_queue sl_demo)))) = [7, 8, 9]"
proof -
  have mk: "make_spin_lock_queue sl_demo = (True, snd (make_spin_lock_queue sl_demo))"
    by (simp add: sl_demo_def make_spin_lock_queue_def sl_kmalloc_def)
  have "has_room sl_ready sl_put sl_take [Put 7, Put 8, Take (), Put 9] (Some (snd (make_spin_lock_queue sl_demo)))"
    by (simp add: sl_demo_def make_spin_lock_queue_def sl_kmalloc_def sl_ready_def sl_room_def sl_put_def sl_take_def
      spin_lock_queue_enqueue_def make_spin_lock_queue_node_def spin_lock_queue_dequeue_def free_spin_lock_queue_node_def Let_def)
  from spin_lock_queue_fifo [OF mk this] show ?thesis by (simp add: numeral_eq_Suc)
qed

section \<open>Freeing a queue\<close>

text \<open>The chain of \<^verbatim>\<open>next\<close> links, newest first, and where it leads.\<close>

fun next_chain :: "(addr \<rightharpoonup> sl_queue_node) \<Rightarrow> addr \<Rightarrow> addr \<Rightarrow> addr list \<Rightarrow> bool" where
  "next_chain m e p [] \<longleftrightarrow> p = e"
| "next_chain m e p (a # as) \<longleftrightarrow> p = a \<and> a \<noteq> NULL \<and> (case m a of None \<Rightarrow> False | Some n \<Rightarrow> next_chain m e (sq_next n) as)"

lemma next_chain_append: "next_chain m e p (as @ bs) \<longleftrightarrow> (\<exists>c. next_chain m c p as \<and> next_chain m e c bs)"
  by (induction as arbitrary: p) (auto split: option.splits)

lemma sl_seg_next_chain: "sl_seg m e p xs \<Longrightarrow> next_chain m e (if xs = [] then e else newest xs) (rev (map fst xs))"
proof (induction xs arbitrary: e p)
  case (Cons x xs)
  obtain a d where x: "x = (a, d)" by (cases x)
  with Cons.prems obtain n where n: "m a = Some n" "sq_next n = e" "a \<noteq> NULL" "sl_seg m a (sq_before n) xs" by (auto split: option.splits)
  have "next_chain m a (if xs = [] then a else newest xs) (rev (map fst xs))" by (rule Cons.IH [OF n(4)])
  with n x show ?case by (auto simp: next_chain_append newest_def)
qed simp

lemma next_chain_drop: "a \<notin> set as \<Longrightarrow> next_chain (m(a := v)) e p as = next_chain m e p as"
  by (induction as arbitrary: p) (auto split: option.splits)

definition keeps_queue :: "(addr \<Rightarrow> 'a sl_heap_scheme \<Rightarrow> 'a sl_heap_scheme) \<Rightarrow> bool" where
  "keeps_queue f \<longleftrightarrow> (\<forall>d h. sl_nodes (f d h) = sl_nodes h \<and> sl_q (f d h) = sl_q h)"

lemma free_queue_loop_step:
  assumes "keeps_queue f" "sl_nodes h p = Some n" "p \<noteq> NULL" "sl_q h = Some q"
  obtains h' where "free_queue_loop f p h = free_queue_loop f (sq_next n) h'" "sl_nodes h' = (sl_nodes h)(p := None)"
    "sl_q h' = Some (q\<lparr>q_first := sq_next n\<rparr>)"
  using assms by (subst (asm) free_queue_loop.simps)
    (auto simp: free_spin_lock_queue_node_def keeps_queue_def intro: that split: if_splits)

lemma free_queue_loop_ends:
  assumes "keeps_queue f" "next_chain (sl_nodes h) e p as" "distinct as" "sl_q h \<noteq> None"
    and "e = NULL \<or> e \<in> - dom (sl_nodes h)"
  shows "\<exists>r. free_queue_loop f p h = Some r \<and> (r = None \<longleftrightarrow> e \<noteq> NULL) \<and>
    (\<forall>h'. r = Some h' \<longrightarrow> dom (sl_nodes h') = dom (sl_nodes h) - set as)"
  using assms
proof (induction as arbitrary: p h)
  case Nil
  then show ?case by (cases "e = NULL") (auto simp: free_queue_loop.simps [of f] domIff)
next
  case (Cons a as)
  then obtain n where n: "p = a" "a \<noteq> NULL" "sl_nodes h a = Some n" "next_chain (sl_nodes h) e (sq_next n) as" by (auto split: option.splits)
  obtain q where q: "sl_q h = Some q" using Cons.prems by auto
  obtain h' where h': "free_queue_loop f p h = free_queue_loop f (sq_next n) h'" "sl_nodes h' = (sl_nodes h)(a := None)" "sl_q h' \<noteq> None"
    using free_queue_loop_step [OF Cons.prems(1) n(3,2) q] n(1) by (metis option.distinct(1))
  have "next_chain (sl_nodes h') e (sq_next n) as" using n h' Cons.prems(3) by (simp add: next_chain_drop)
  moreover have dom: "dom (sl_nodes h') = dom (sl_nodes h) - {a}" using h'(2) by simp
  then have "e = NULL \<or> e \<in> - dom (sl_nodes h')" using Cons.prems(5) by blast
  ultimately obtain r where "free_queue_loop f (sq_next n) h' = Some r" "r = None \<longleftrightarrow> e \<noteq> NULL"
    "\<forall>h''. r = Some h'' \<longrightarrow> dom (sl_nodes h'') = dom (sl_nodes h') - set as"
    using Cons.IH [OF Cons.prems(1) _ _ h'(3), of "sq_next n"] Cons.prems(3) by (metis distinct.simps(2))
  then show ?case unfolding h'(1) dom by (auto simp del: dom_fun_upd)
qed

lemma free_spin_lock_queue_ends:
  assumes "keeps_queue f" "sl_rep h e xs" "xs \<noteq> []" "e = NULL \<or> e \<in> - dom (sl_nodes h)"
  shows "\<exists>r. free_spin_lock_queue f h = Some r \<and> (r = None \<longleftrightarrow> e \<noteq> NULL) \<and>
    (\<forall>h'. r = Some h' \<longrightarrow> dom (sl_nodes h') = dom (sl_nodes h) - fst ` set xs)"
proof -
  have "next_chain (sl_nodes h) e (newest xs) (rev (map fst xs))" "sl_q h = Some \<lparr>q_first = newest xs, q_last = oldest xs\<rparr>" "distinct (rev (map fst xs))"
    using assms sl_seg_next_chain [of "sl_nodes h" e "oldest xs" xs] by (auto simp: sl_rep_def)
  then obtain r where "free_queue_loop f (newest xs) h = Some r" "r = None \<longleftrightarrow> e \<noteq> NULL"
    "\<forall>h'. r = Some h' \<longrightarrow> dom (sl_nodes h') = dom (sl_nodes h) - set (rev (map fst xs))"
    using free_queue_loop_ends [OF assms(1) _ _ _ assms(4)] by (metis option.distinct(1))
  then show ?thesis
    using \<open>sl_q h = _\<close> by (cases r) (auto simp: free_spin_lock_queue_def)
qed

text \<open>Freeing a queue from which something was dequeued walks into freed memory. A dequeue that leaves an
  element behind does not clear the \<^verbatim>\<open>next\<close> link of the new oldest node, and \<^verbatim>\<open>free_spin_lock_queue\<close> follows the \<^verbatim>\<open>next\<close>
  links until NULL; without the dequeue it ends and frees exactly the nodes of the queue.\<close>

theorem free_after_dequeue_oops:
  assumes "sl_rep h NULL xs" "2 \<le> length xs" "keeps_queue f"
  shows "(\<exists>h'. free_spin_lock_queue f h = Some (Some h') \<and> dom (sl_nodes h') = dom (sl_nodes h) - fst ` set xs) \<and>
    (\<exists>d h'. spin_lock_queue_dequeue h = Some (d, h') \<and> free_spin_lock_queue f h' = Some None)"
proof
  show "\<exists>h'. free_spin_lock_queue f h = Some (Some h') \<and> dom (sl_nodes h') = dom (sl_nodes h) - fst ` set xs"
    using free_spin_lock_queue_ends [OF assms(3,1)] assms(2) by force
  obtain a d ys where xs: "xs = (a, d) # ys" "ys \<noteq> []" using assms(2) by (cases xs) (auto simp: Suc_le_eq)
  have "a \<noteq> NULL" using assms(1) xs by (simp add: sl_rep_def)
  then show "\<exists>d h'. spin_lock_queue_dequeue h = Some (d, h') \<and> free_spin_lock_queue f h' = Some None"
    using dequeue_ok [OF assms(1) [unfolded xs(1)]] free_spin_lock_queue_ends [OF assms(3) dequeue_ok(2) [OF assms(1) [unfolded xs(1)]] xs(2)]
    by auto
qed

definition sl_two :: sl_heap where
  "sl_two = \<lparr>sl_nodes = [1 \<mapsto> \<lparr>sq_data = 7, sq_next = 0, sq_before = 2\<rparr>, 2 \<mapsto> \<lparr>sq_data = 8, sq_next = 1, sq_before = 0\<rparr>],
     sl_q = Some \<lparr>q_first = 2, q_last = 1\<rparr>, sl_mem = []\<rparr>"

theorem free_after_dequeue_oops_witness:
  "(\<exists>h'. free_spin_lock_queue (\<lambda>d h. h) sl_two = Some (Some h') \<and> dom (sl_nodes h') = {}) \<and>
    (\<exists>d h'. spin_lock_queue_dequeue sl_two = Some (d, h') \<and> free_spin_lock_queue (\<lambda>d h. h) h' = Some None)"
proof -
  have "sl_rep sl_two NULL [(1, 7), (2, 8)]" by (simp add: sl_rep_def sl_two_def newest_def)
  moreover have "keeps_queue (\<lambda>d h :: sl_heap. h)" by (simp add: keeps_queue_def)
  moreover have "dom (sl_nodes sl_two) - fst ` set [(1, 7 :: addr), (2, 8)] = {}" by (auto simp: sl_two_def split: if_splits)
  ultimately show ?thesis using free_after_dequeue_oops [of sl_two "[(1, 7), (2, 8)]" "\<lambda>d h. h"] by (simp only: list.size)
qed

end
