(* ===== verification/Deaggregation.thy ===== *)
theory Deaggregation
  imports Aggregation Sl_Queue
begin

text \<open>
  The deaggregation interceptor (src/fred_framework/interceptors/deaggregation/deaggregation.c) and the thread that
  sends what it takes apart (injection_thread.c). An encapsulating packet is walked in place, from the newest packet it
  carries to the oldest; the places found are kept in the array \<^verbatim>\<open>scatters\<close>, filled from its end, and then injected in
  ascending order, that is oldest first. \<^term>\<open>None\<close> is an oops: an access outside the packet or outside \<^verbatim>\<open>scatters\<close>, or
  through a bad pointer.
\<close>

section \<open>injection_thread.c\<close>

record inj = sl_heap +
  inj_packets :: "addr \<rightharpoonup> u8 list"
  inj_sent :: "u8 list list"

definition inject_packet :: "u8 list \<Rightarrow> nat \<Rightarrow> inj \<Rightarrow> inj option" where
  "inject_packet mem ip st = do {
     t \<leftarrow> tot_len mem ip;
     case sl_kmalloc st of (new, st) \<Rightarrow>
       if new = NULL then Some st
       else do {
         bs \<leftarrow> bytes_at mem ip (unat t);
         spin_lock_queue_enqueue new (st\<lparr>inj_packets := (inj_packets st)(new \<mapsto> bs)\<rparr>) } }"

text \<open>One round of the thread's loop.\<close>

definition injector_step :: "inj \<Rightarrow> inj option" where
  "injector_step st = do {
     (packet, st) \<leftarrow> spin_lock_queue_dequeue st;
     if packet \<noteq> NULL then do {
       bs \<leftarrow> deref (inj_packets st) packet;
       sent \<leftarrow> send_it bs;
       Some (st\<lparr>inj_sent := inj_sent st @ [sent], inj_packets := (inj_packets st)(packet := None)\<rparr>) }
     else Some st }"

text \<open>\<^verbatim>\<open>thread\<close> is whether \<^verbatim>\<open>kthread_run\<close> succeeds.\<close>

definition start_injection_thread :: "bool \<Rightarrow> inj \<Rightarrow> bool \<times> inj" where
  "start_injection_thread thread st = (case make_spin_lock_queue st of (ok, st) \<Rightarrow> (ok \<and> thread, st))"

definition kfree_packet :: "addr \<Rightarrow> inj \<Rightarrow> inj" where
  "kfree_packet d st = st\<lparr>inj_packets := (inj_packets st)(d := None)\<rparr>"

definition stop_injection_thread :: "bool \<Rightarrow> inj \<Rightarrow> inj run" where
  "stop_injection_thread injector st = (if injector then free_spin_lock_queue kfree_packet st else Some (Some st))"

section \<open>deaggregation.c\<close>

definition MAX_SCATTERS :: nat where "MAX_SCATTERS = 27"

text \<open>The places left below an index, which counts down and wraps from 0 to 255.\<close>

definition scatter_places :: "u8 \<Rightarrow> nat" where
  "scatter_places i = (if unat i < MAX_SCATTERS then unat i + 1 else 0)"

lemma scatter_places_less: "unat i < MAX_SCATTERS \<Longrightarrow> scatter_places (i - 1) < scatter_places i"
  by (cases "i = 0") (simp_all add: scatter_places_def MAX_SCATTERS_def unat_minus_one unat_gt_0 unsigned_minus_1_eq_mask mask_eq_exp_minus_1)

text \<open>The first loop of \<^verbatim>\<open>l3_deaggregate\<close>. The result is the verdict of an early return, or the index, the packet and the array after the loop.\<close>

function l3_loop ::
  "u16 \<Rightarrow> u64 \<Rightarrow> u8 \<Rightarrow> u16 \<Rightarrow> nat \<Rightarrow> u64 \<Rightarrow> bool \<Rightarrow> u8 list \<Rightarrow> nat option list \<Rightarrow> (u32 + u8 \<times> u8 list \<times> nat option list) option"
where
  "l3_loop agg_len ts scatter_index acc_len first ts_acc first_time mem scatters =
    (if acc_len \<ge> agg_len then Some (Inr (scatter_index, mem, scatters))
     else if unat scatter_index \<ge> MAX_SCATTERS then None
     else do {
       t \<leftarrow> tot_len mem first;
       pr \<leftarrow> ip_protocol mem first;
       if \<not> aggregable pr then Some (Inl NF_DROP)
       else do {
         n \<leftarrow> ip_header_bytes mem first;
         mem \<leftarrow> put_bytes (first + n + 6) [0, 0] mem;
         mem \<leftarrow> put_bytes (first + n + 8) (word_bytes 8 (swap_bytes (ts - ts_acc))) mem;
         t' \<leftarrow> tot_len mem first;
         l3_loop agg_len ts (scatter_index - 1) (acc_len + t) (first + unat t') (if first_time then ts_acc else ts_acc + (ts - ts_acc)) False
           mem (scatters[unat scatter_index := Some first]) } })"
  by pat_completeness auto

termination
  by (relation "measure (\<lambda>(_, _, i, _). scatter_places i)") (simp_all add: scatter_places_less)

declare l3_loop.simps [simp del]

fun inject_all :: "u8 list \<Rightarrow> nat option list \<Rightarrow> inj \<Rightarrow> inj option" where
  "inject_all mem [] st = Some st"
| "inject_all mem (s # ss) st = do { ip \<leftarrow> s; st \<leftarrow> inject_packet mem ip st; inject_all mem ss st }"

text \<open>The verdict, the packet unless it was freed, and the state of the injection thread.\<close>

definition l3_deaggregate :: "sk_buff \<Rightarrow> inj \<Rightarrow> (u32 \<times> sk_buff option \<times> inj) option" where
  "l3_deaggregate skb st = do {
     let m = sk_data skb;
     t \<leftarrow> tot_len m 0;
     n \<leftarrow> ip_header_bytes m 0;
     pr \<leftarrow> ip_protocol m n;
     if \<not> aggregable pr then Some (NF_ACCEPT, Some skb, st)
     else do {
       n' \<leftarrow> ip_header_bytes m n;
       first_ts \<leftarrow> be64_at m (n + n' + 8);
       r \<leftarrow> l3_loop (t - of_nat n) first_ts (of_nat (MAX_SCATTERS - 1)) 0 n 0 True m (replicate MAX_SCATTERS None);
       case r of
         Inl verdict \<Rightarrow> Some (verdict, Some skb, st)
       | Inr (scatter_index, mem, scatters) \<Rightarrow> do {
           st \<leftarrow> inject_all mem (drop (unat (scatter_index + 1)) scatters) st;
           Some (NF_STOLEN, None, st) } } }"

text \<open>The packet \<^verbatim>\<open>new\<close> of \<^verbatim>\<open>app_deagregate\<close>: the outer header before one UDP datagram.\<close>

definition app_packet :: "u8 list \<Rightarrow> nat \<Rightarrow> nat \<Rightarrow> u8 list option" where
  "app_packet mem n udph = do {
     len \<leftarrow> map_option swap_bytes (be16_at mem (udph + 4));
     hdr \<leftarrow> bytes_at mem 0 n;
     dgram \<leftarrow> bytes_at mem udph (unat (len :: u16));
     p \<leftarrow> put_bytes 2 (word_bytes 2 (swap_bytes (of_nat n + len))) (hdr @ dgram);
     p \<leftarrow> put_bytes 9 [IPPROTO_UDP] p;
     p \<leftarrow> put_bytes 10 [0, 0] p;
     put_bytes 10 (word_bytes 2 (csum (u16s (take n p)))) p }"

text \<open>The loop of \<^verbatim>\<open>app_deagregate\<close>, by the number of packets left. In its second round it adds \<^verbatim>\<open>pdu->timestamp\<close>, where \<^verbatim>\<open>pdu\<close> was never
  assigned. \<^verbatim>\<open>first\<close> is never advanced, and \<^verbatim>\<open>ts_acc\<close> is 0 in the first round.\<close>

fun app_loop ::
  "nat \<Rightarrow> nat \<Rightarrow> nat \<Rightarrow> u64 \<Rightarrow> u8 \<Rightarrow> nat \<Rightarrow> bool \<Rightarrow> u8 list \<Rightarrow> u8 list option list \<Rightarrow> inj \<Rightarrow> (u8 \<times> u8 list option list \<times> inj) option"
where
  "app_loop 0 n first ts scatter_index udph first_time mem scatters st = Some (scatter_index, scatters, st)"
| "app_loop (Suc number_of_packets) n first ts scatter_index udph first_time mem scatters st = do {
     mem \<leftarrow> put_bytes (udph + 6) [0, 0] mem;
     if \<not> first_time then None
     else do {
       mem \<leftarrow> put_bytes first (word_bytes 8 (swap_bytes ts)) mem;
       case sl_kmalloc st of (p, st) \<Rightarrow>
         if p = NULL then None
         else do {
           new \<leftarrow> app_packet mem n udph;
           if unat scatter_index \<ge> MAX_SCATTERS then None
           else do {
             len \<leftarrow> map_option swap_bytes (be16_at mem (udph + 4));
             app_loop number_of_packets n first ts (scatter_index - 1) (udph + unat (len :: u16)) False mem
               (scatters[unat scatter_index := Some new]) st } } } }"

fun inject_new :: "u8 list option list \<Rightarrow> inj \<Rightarrow> inj option" where
  "inject_new [] st = Some st"
| "inject_new (s # ss) st = do { p \<leftarrow> s; st \<leftarrow> inject_packet p 0 st; inject_new ss st }"

definition app_deagregate :: "sk_buff \<Rightarrow> inj \<Rightarrow> (u32 \<times> sk_buff option \<times> inj) option" where
  "app_deagregate skb st = do {
     let m = sk_data skb;
     pr \<leftarrow> ip_protocol m 0;
     if pr = AGREGATED_APPLICATION_ENCAP_UDP_PROTO then do {
       n \<leftarrow> ip_header_bytes m 0;
       t \<leftarrow> tot_len m 0;
       let number_of_packets = nat ((uint t - int n) mod 2 ^ 32 div (8 + int sizeof_packet_t));
       ts \<leftarrow> be64_at m (n + 8);
       (scatter_index, scatters, st) \<leftarrow> app_loop number_of_packets n (n + 8) ts (of_nat (MAX_SCATTERS - 1)) n True m
         (replicate MAX_SCATTERS None) st;
       st \<leftarrow> inject_new (drop (unat (scatter_index + 1)) scatters) st;
       Some (NF_STOLEN, None, st) }
     else Some (NF_ACCEPT, Some skb, st) }"

text \<open>\<^verbatim>\<open>ip_hdr(skb)\<close> is evaluated before the test of \<^verbatim>\<open>skb\<close>.\<close>

definition deaggregation_local_in_hook :: "sk_buff option \<Rightarrow> inj \<Rightarrow> (u32 \<times> sk_buff option \<times> inj) option" where
  "deaggregation_local_in_hook skb st = do {
     s \<leftarrow> skb;
     if \<not> sk_has_net s then Some (NF_ACCEPT, Some s, st)
     else do {
       pr \<leftarrow> ip_protocol (sk_data s) 0;
       if pr = AGREGATED_APPLICATION_ENCAP_UDP_PROTO then app_deagregate s st
       else if pr = AGREGATED_IP_ENCAP_IP_PROTO then l3_deaggregate s st
       else Some (NF_ACCEPT, Some s, st) } }"

definition deaggregation_create_rule :: "addr \<Rightarrow> addr \<Rightarrow> addr \<Rightarrow> fred \<Rightarrow> addr \<times> fred" where
  "deaggregation_create_rule local_in deagg_desc sp st = (case make_rule 1 st of (r, st) \<Rightarrow>
     if r = NULL then (NULL, st)
     else case create_filter FILTER_PRIO_FIRST sp r FILTER_AT_LOCAL_IN local_in st of (f, st) \<Rightarrow>
       (r, st\<lparr>frules := (frules st)(r := map_option (\<lambda>rl. rl\<lparr>r_filters := (r_filters rl)[0 := f], r_interceptor := deagg_desc\<rparr>) (frules st r))\<rparr>))"

definition DEAGG_INTERCEPTOR_NAME :: string where "DEAGG_INTERCEPTOR_NAME = ''deaggregation''"

definition deaggregation_init_module :: "bool \<Rightarrow> addr \<Rightarrow> addr \<Rightarrow> inj \<Rightarrow> fred \<Rightarrow> (int \<times> inj \<times> fred) option" where
  "deaggregation_init_module thread deagg_desc cb ij st = (case start_injection_thread thread ij of (ok, ij) \<Rightarrow>
     if \<not> ok then Some (- 1, ij, st)
     else do {
       (ok, st) \<leftarrow> register_interceptor deagg_desc
         (st\<lparr>fdescs := (fdescs st)(deagg_desc \<mapsto> \<lparr>i_name = DEAGG_INTERCEPTOR_NAME, create_rule_for_specs_cb = cb\<rparr>)\<rparr>);
       Some (if ok then 0 else - 1, ij, st) })"

definition deaggregation_cleanup_module :: "bool \<Rightarrow> inj \<Rightarrow> fred \<Rightarrow> (inj \<times> fred) run" where
  "deaggregation_cleanup_module injector ij st = run_bind (stop_injection_thread injector ij) (\<lambda>ij.
     run_bind (unregister_interceptor DEAGG_INTERCEPTOR_NAME st) (\<lambda>(_, st). Some (Some (ij, st))))"

section \<open>Walking an encapsulating packet\<close>

definition clear_check :: "u8 list \<Rightarrow> u8 list" where
  "clear_check p = take (pdu_at p - 2) p @ [0, 0] @ drop (pdu_at p) p"

lemma agg_packet_clear_check:
  assumes "agg_packet p"
  shows "agg_packet (clear_check p)" "length (clear_check p) = length p" "pdu_at (clear_check p) = pdu_at p"
    "put_bytes (length xs + (pdu_at p - 8) + 6) [0, 0] (xs @ p @ ys) = Some (xs @ clear_check p @ ys)"
proof -
  have len: "28 \<le> pdu_at p" "pdu_at p + 8 \<le> length p" using assms by (simp_all add: agg_packet_def)
  show l: "length (clear_check p) = length p" using len by (simp add: clear_check_def)
  have nth: "clear_check p ! i = p ! i" if "i < 26" for i
  proof -
    have "i < pdu_at p - 2" using that len by simp
    then show ?thesis using len by (simp add: clear_check_def nth_append)
  qed
  show a: "pdu_at (clear_check p) = pdu_at p" using nth [of 0] by (simp add: pdu_at_def)
  have "be16_at (take (pdu_at p - 2) p @ zs) 2 = be16_at (take (pdu_at p - 2) p) 2" for zs using len by (intro be16_at_prefix) simp
  from this [of "drop (pdu_at p - 2) p"] this [of "[0, 0] @ drop (pdu_at p) p"]
  have "be16_at (clear_check p) 2 = be16_at p 2" by (simp add: clear_check_def)
  then have "tot_len (clear_check p) 0 = tot_len p 0" by (simp add: tot_len_def del: add_2_eq_Suc add_2_eq_Suc')
  then show "agg_packet (clear_check p)" using assms a l nth [of 9] by (simp add: agg_packet_def)
  have e: "length xs + (pdu_at p - 8) + 6 = length xs + (pdu_at p - 2)" "pdu_at p - 2 + length [0, 0 :: u8] = pdu_at p" using len by simp_all
  have "put_bytes (pdu_at p - 2) [0, 0] (p @ ys) = Some (clear_check p @ ys)"
    unfolding put_bytes_def e(2) using len by (simp add: clear_check_def)
  then show "put_bytes (length xs + (pdu_at p - 8) + 6) [0, 0] (xs @ p @ ys) = Some (xs @ clear_check p @ ys)"
    unfolding e(1) put_bytes_app by simp
qed

text \<open>What the loop leaves of a packet, and the timestamps it gives: it never reads the distances the packets carry.\<close>

definition fixed :: "u64 \<Rightarrow> u8 list \<Rightarrow> u8 list" where
  "fixed t p = with_ts t (clear_check p)"

fun out_stamps :: "u64 \<Rightarrow> u64 \<Rightarrow> bool \<Rightarrow> nat \<Rightarrow> u64 list" where
  "out_stamps ts ts_acc first_time 0 = []"
| "out_stamps ts ts_acc first_time (Suc n) =
     (ts - ts_acc) # out_stamps ts (if first_time then ts_acc else ts_acc + (ts - ts_acc)) False n"

fun places :: "nat \<Rightarrow> u8 list list \<Rightarrow> nat list" where
  "places i [] = []"
| "places i (p # ps) = i # places (i + length p) ps"

lemma fixed_packet:
  assumes "agg_packet p"
  shows "agg_packet (fixed t p)" "length (fixed t p) = length p" "pkt_ts (fixed t p) = t"
  using agg_packet_with_ts [OF agg_packet_clear_check(1) [OF assms]] agg_packet_clear_check(2) [OF assms] by (simp_all add: fixed_def)

lemma fixed_with_ts:
  assumes "agg_packet p"
  shows "fixed t (with_ts u p) = fixed t p"
proof -
  have len: "28 \<le> pdu_at p" "pdu_at p + 8 \<le> length p" using assms by (simp_all add: agg_packet_def)
  have a: "pdu_at (with_ts u p) = pdu_at p" "pdu_at (clear_check p) = pdu_at p" "pdu_at (clear_check (with_ts u p)) = pdu_at p"
    using agg_packet_with_ts(1,3) [OF assms] agg_packet_clear_check(3) [OF assms] agg_packet_clear_check(3) [OF agg_packet_with_ts(1) [OF assms]]
    by simp_all
  have "take (pdu_at p - 2) (with_ts u p) = take (pdu_at p - 2) p" "drop (pdu_at p + 8) (with_ts u p) = drop (pdu_at p + 8) p"
    using len by (simp_all add: with_ts_def del: word_bytes_numeral)
  then show ?thesis
    using len a unfolding fixed_def with_ts_def [of t] by (simp add: clear_check_def add.commute del: word_bytes_numeral)
qed

lemma out_stamps_zero: "out_stamps t t False n = replicate n 0"
  by (induction n) simp_all

lemma out_stamps_first: "out_stamps t 0 True n = replicate (min 2 n) t @ replicate (n - 2) 0"
  by (cases n; cases "n - 1") (auto simp: out_stamps_zero numeral_2_eq_2)

text \<open>One round.\<close>

lemma l3_loop_step:
  assumes "agg_packet q" "acc < agg_len" "unat i < MAX_SCATTERS"
  shows "l3_loop agg_len ts i acc (length pre) ts_acc ft (pre @ q @ post) sc =
    l3_loop agg_len ts (i - 1) (acc + of_nat (length q)) (length (pre @ fixed (ts - ts_acc) q)) (if ft then ts_acc else ts_acc + (ts - ts_acc)) False
      ((pre @ fixed (ts - ts_acc) q) @ post) (sc[unat i := Some (length pre)])"
proof -
  let ?c = "clear_check q"
  have c: "agg_packet ?c" "pdu_at ?c = pdu_at q" "length ?c = length q" using agg_packet_clear_check [OF assms(1)] by simp_all
  have ge: "28 \<le> pdu_at q" "aggregable (q ! 9)" using assms(1) by (simp_all add: agg_packet_def)
  then have pd: "length pre + (pdu_at q - 8) + 8 = length pre + pdu_at ?c" using c by simp
  have f: "fixed (ts - ts_acc) q = with_ts (ts - ts_acc) ?c" by (simp add: fixed_def)
  have t': "tot_len (pre @ fixed (ts - ts_acc) q @ post) (length pre) = Some (of_nat (length q))"
    using agg_packet_at(3) [OF fixed_packet(1) [OF assms(1)]] fixed_packet(2) [OF assms(1)] by simp
  have nl: "\<not> agg_len \<le> acc" using assms(2) by simp
  show ?thesis
    using assms(3) ge nl t' agg_packet_at(1-3) [OF assms(1), of pre post] agg_packet_clear_check(4) [OF assms(1), of pre post]
      agg_packet_at(5) [OF c(1), of pre "ts - ts_acc" post] fixed_packet(2) [OF assms(1)] unat_length [OF assms(1)] c(2)
    by (subst l3_loop.simps) (simp add: pd f [symmetric] del: word_bytes_numeral)
qed

lemma unat_scatter_pred: "0 < unat (i :: u8) \<Longrightarrow> unat (i - 1) = unat i - 1"
  by (rule unat_minus_one) auto

text \<open>The whole loop, from the packets left: their places end up in \<^verbatim>\<open>scatters\<close> in reverse order.\<close>

lemma l3_loop_packets:
  assumes "\<forall>q\<in>set qs. agg_packet q" "length qs \<le> k" "k \<le> MAX_SCATTERS" "length sc = MAX_SCATTERS"
    and "unat acc + length (concat qs) = unat agg_len"
  shows "\<exists>sc'. l3_loop agg_len ts (of_nat k - 1) acc (length pre) ts_acc ft (pre @ concat qs) sc =
      Some (Inr (of_nat (k - length qs) - 1, pre @ concat (map2 fixed (out_stamps ts ts_acc ft (length qs)) qs), sc'))
    \<and> drop (k - length qs) sc' = map Some (rev (places (length pre) qs)) @ drop k sc \<and> length sc' = MAX_SCATTERS"
  using assms
proof (induction qs arbitrary: k acc pre ts_acc ft sc)
  case Nil
  then have "agg_len \<le> acc" by (simp add: word_le_nat_alt)
  with Nil show ?case by (subst l3_loop.simps) simp
next
  case (Cons q qs)
  have q: "agg_packet q" and k: "0 < k" "length qs \<le> k - 1" "k - 1 < MAX_SCATTERS" "k - 1 \<le> MAX_SCATTERS" using Cons.prems by auto
  have "length q > 0" using agg_packet_nonempty [OF q] by simp
  then have lt: "acc < agg_len" using Cons.prems(5) by (simp add: word_less_nat_alt del: length_greater_0_conv)
  have i: "of_nat k - 1 = (of_nat (k - 1) :: u8)" using k by (simp add: of_nat_diff)
  have ui: "unat (of_nat (k - 1) :: u8) = k - 1"
  proof -
    have "k - 1 < 2 ^ LENGTH(8)" using k by (simp add: MAX_SCATTERS_def)
    then show ?thesis by (simp only: unat_of_nat mod_less)
  qed
  have "unat acc + length q \<le> unat agg_len" using Cons.prems(5) by simp
  moreover have "unat agg_len < 2 ^ LENGTH(16)" by (rule unsigned_less)
  ultimately have ua: "unat (acc + of_nat (length q)) = unat acc + length q"
    using unat_length [OF q] by (subst unat_plus_if') simp
  let ?t = "ts - ts_acc" let ?acc' = "if ft then ts_acc else ts_acc + ?t" let ?sc = "sc[k - 1 := Some (length pre)]"
  have step: "l3_loop agg_len ts (of_nat k - 1) acc (length pre) ts_acc ft (pre @ concat (q # qs)) sc =
    l3_loop agg_len ts (of_nat (k - 1) - 1) (acc + of_nat (length q)) (length (pre @ fixed ?t q)) ?acc' False ((pre @ fixed ?t q) @ concat qs) ?sc"
    using l3_loop_step [OF q lt, of "of_nat (k - 1)"] k(3) by (simp only: i ui concat.simps append_assoc)
  have "\<exists>sc'. l3_loop agg_len ts (of_nat (k - 1) - 1) (acc + of_nat (length q)) (length (pre @ fixed ?t q)) ?acc' False ((pre @ fixed ?t q) @ concat qs) ?sc =
      Some (Inr (of_nat (k - 1 - length qs) - 1, (pre @ fixed ?t q) @ concat (map2 fixed (out_stamps ts ?acc' False (length qs)) qs), sc'))
    \<and> drop (k - 1 - length qs) sc' = map Some (rev (places (length (pre @ fixed ?t q)) qs)) @ drop (k - 1) ?sc \<and> length sc' = MAX_SCATTERS"
    using Cons.prems k ua by (intro Cons.IH) simp_all
  moreover have "drop (k - 1) ?sc = Some (length pre) # drop k sc"
    using k Cons.prems(4) Cons_nth_drop_Suc [of "k - 1" ?sc] by simp
  ultimately show ?case unfolding step using fixed_packet(2) [OF q] by simp
qed

section \<open>The injection queue\<close>

definition inj_rep :: "inj \<Rightarrow> u8 list list \<Rightarrow> bool" where
  "inj_rep st bs \<longleftrightarrow> (\<exists>e xs. sl_rep st e xs \<and> map (\<lambda>x. inj_packets st (snd x)) xs = map Some bs \<and> distinct (map snd xs) \<and> NULL \<notin> snd ` set xs)"

text \<open>Memory for \<^verbatim>\<open>n\<close> more packets: two addresses each, all different and not in use.\<close>

definition inj_memory :: "nat \<Rightarrow> inj \<Rightarrow> bool" where
  "inj_memory n st \<longleftrightarrow> 2 * n \<le> length (sl_mem st) \<and> distinct (sl_mem st) \<and>
     (\<forall>p\<in>set (sl_mem st). p \<noteq> NULL \<and> sl_nodes st p = None \<and> inj_packets st p = None)"

lemma sl_rep_more: "sl_rep (st\<lparr>inj_packets := m\<rparr>) e xs = sl_rep st e xs" "sl_rep (st\<lparr>sl_mem := ps\<rparr>) e xs = sl_rep st e xs"
  for st :: inj
  by (simp_all add: sl_rep_def)

lemma inject_packet_ok:
  assumes "inj_rep st bs" "inj_memory (Suc n) st" "agg_packet p"
  shows "\<exists>st'. inject_packet (xs @ p @ ys) (length xs) st = Some st' \<and> inj_rep st' (bs @ [p]) \<and> inj_memory n st' \<and> inj_sent st' = inj_sent st"
proof -
  obtain a c ms where ms: "sl_mem st = a # c # ms" using assms(2) by (cases "sl_mem st"; cases "tl (sl_mem st)") (auto simp: inj_memory_def)
  then have ac: "a \<noteq> NULL" "c \<noteq> NULL" "sl_nodes st c = None" "inj_packets st a = None" "a \<noteq> c" "2 * n \<le> length ms" "distinct ms" "a \<notin> set ms" "c \<notin> set ms"
    "\<forall>m\<in>set ms. m \<noteq> NULL \<and> sl_nodes st m = None \<and> inj_packets st m = None"
    using assms(2) by (auto simp: inj_memory_def)
  obtain e qs where q: "sl_rep st e qs" "map (\<lambda>x. inj_packets st (snd x)) qs = map Some bs" "distinct (map snd qs)" "NULL \<notin> snd ` set qs"
    using assms(1) by (auto simp: inj_rep_def)
  have fresh: "a \<notin> snd ` set qs" using q(2) ac(4) by (metis (mono_tags, lifting) image_iff list.set_map option.distinct(1))
  let ?st = "st\<lparr>sl_mem := c # ms, inj_packets := (inj_packets st)(a \<mapsto> p)\<rparr>"
  have "sl_rep ?st e qs" using q(1) by (simp add: sl_rep_def)
  then obtain ns sq where r: "spin_lock_queue_enqueue a ?st = Some (?st\<lparr>sl_nodes := ns, sl_q := Some sq, sl_mem := ms\<rparr>)"
    "sl_rep (?st\<lparr>sl_nodes := ns, sl_q := Some sq, sl_mem := ms\<rparr>) (if qs = [] then NULL else e) (qs @ [(c, a)])"
    "dom ns = insert c (dom (sl_nodes ?st))"
    using enqueue_ex [of ?st e qs c ms a] ac(2,3) by (elim meta_impE) (simp_all, blast)
  let ?st' = "?st\<lparr>sl_nodes := ns, sl_q := Some sq, sl_mem := ms\<rparr>"
  have same: "map (\<lambda>x. inj_packets ?st' (snd x)) qs = map (\<lambda>x. inj_packets st (snd x)) qs" using fresh by auto
  have "inject_packet (xs @ p @ ys) (length xs) st = Some ?st'"
    using r(1) ms ac agg_packet_at(3) [OF assms(3), of xs ys] unat_length [OF assms(3)]
    by (simp add: inject_packet_def sl_kmalloc_def bytes_at_def)
  moreover have "inj_rep ?st' (bs @ [p])" unfolding inj_rep_def
    by (intro exI [of _ "if qs = [] then NULL else e"] exI [of _ "qs @ [(c, a)]"])
      (use r(2) same q fresh ac(1) in auto)
  moreover have "inj_memory n ?st'" using ac r(3) by (auto simp: inj_memory_def dom_def)
  ultimately show ?thesis by (intro exI [of _ ?st']) simp
qed

lemma inject_all_ok:
  assumes "\<forall>x\<in>set ops. agg_packet (snd x) \<and> (\<exists>xs ys. mem = xs @ snd x @ ys \<and> length xs = fst x)"
    and "inj_rep st bs" "inj_memory (length ops) st"
  shows "\<exists>st'. inject_all mem (map (\<lambda>x. Some (fst x)) ops) st = Some st' \<and> inj_rep st' (bs @ map snd ops) \<and> inj_sent st' = inj_sent st"
  using assms
proof (induction ops arbitrary: st bs)
  case (Cons x ops)
  obtain xs ys where x: "agg_packet (snd x)" "mem = xs @ snd x @ ys" "length xs = fst x" using Cons.prems(1) by auto
  obtain st1 where st1: "inject_packet mem (fst x) st = Some st1" "inj_rep st1 (bs @ [snd x])" "inj_memory (length ops) st1" "inj_sent st1 = inj_sent st"
    using inject_packet_ok [OF Cons.prems(2) _ x(1), of "length ops" xs ys] Cons.prems(3) x(2,3) by auto
  obtain st' where "inject_all mem (map (\<lambda>x. Some (fst x)) ops) st1 = Some st'" "inj_rep st' ((bs @ [snd x]) @ map snd ops)" "inj_sent st' = inj_sent st1"
    using Cons.IH [OF _ st1(2,3)] Cons.prems(1) by auto
  with st1 show ?case by simp
qed simp

lemma places_split:
  "x \<in> set (zip (places (length pre) qs) qs) \<Longrightarrow> \<exists>xs ys. pre @ concat qs = xs @ snd x @ ys \<and> length xs = fst x"
proof (induction qs arbitrary: pre)
  case (Cons q qs)
  show ?case
  proof (cases "x = (length pre, q)")
    case True
    then show ?thesis by (intro exI [of _ pre] exI [of _ "concat qs"]) simp
  next
    case False
    then have "x \<in> set (zip (places (length (pre @ q)) qs) qs)" using Cons.prems by simp
    from Cons.IH [OF this] show ?thesis by (simp only: append_assoc concat.simps)
  qed
qed simp

lemma places_cong: "map length ps = map length qs \<Longrightarrow> places i ps = places i qs"
proof (induction ps arbitrary: qs i)
  case (Cons p ps)
  then obtain q rs where "qs = q # rs" "length p = length q" "map length ps = map length rs" by (cases qs) simp_all
  then show ?case by (simp only: places.simps Cons.IH [OF \<open>map length ps = map length rs\<close>])
qed simp

lemma length_places [simp]: "length (places i qs) = length qs"
  by (induction qs arbitrary: i) simp_all

lemma length_out_stamps [simp]: "length (out_stamps ts ts_acc ft n) = n"
  by (induction n arbitrary: ts_acc ft) simp_all

lemma map2_fixed:
  assumes "\<forall>q\<in>set qs. agg_packet q" "length ts = length qs"
  shows "map length (map2 fixed ts qs) = map length qs" "\<forall>p\<in>set (map2 fixed ts qs). agg_packet p"
proof -
  show "map length (map2 fixed ts qs) = map length qs"
    using assms by (intro nth_equalityI) (simp_all add: fixed_packet(2))
  show "\<forall>p\<in>set (map2 fixed ts qs). agg_packet p"
    using assms fixed_packet(1) by (auto dest: set_zip_rightD)
qed

lemma l3_deaggregate_packets:
  assumes "\<forall>q\<in>set qs. agg_packet q" "qs \<noteq> []" "length qs \<le> MAX_SCATTERS" "20 + length (concat qs) < 2 ^ 16"
    and "sk_data skb = encap_header (of_nat (20 + length (concat qs))) pr ifa ip @ concat qs"
    and "inj_rep st bs" "inj_memory (length qs) st"
  shows "\<exists>st'. l3_deaggregate skb st = Some (NF_STOLEN, None, st') \<and> inj_sent st' = inj_sent st \<and>
    inj_rep st' (bs @ rev (map2 fixed (out_stamps (pkt_ts (hd qs)) 0 True (length qs)) qs))"
proof -
  let ?h = "encap_header (of_nat (20 + length (concat qs))) pr ifa ip" let ?n = "length qs"
  define fs where "fs = map2 fixed (out_stamps (pkt_ts (hd qs)) 0 True ?n) qs"
  have fs: "map length fs = map length qs" "\<forall>p\<in>set fs. agg_packet p" "length fs = ?n"
    unfolding fs_def by (rule map2_fixed(1) [OF assms(1) length_out_stamps], rule map2_fixed(2) [OF assms(1) length_out_stamps], simp)
  obtain q rs where qs: "qs = q # rs" "agg_packet q" using assms(1,2) by (cases qs) auto
  have rd: "ip_protocol (sk_data skb) 20 = Some (q ! 9)" "ip_header_bytes (sk_data skb) 20 = Some (pdu_at q - 8)"
    "be64_at (sk_data skb) (20 + pdu_at q) = Some (pkt_ts q)" "aggregable (q ! 9)" "28 \<le> pdu_at q"
    using agg_packet_at(1,2,4) [OF qs(2), of ?h "concat rs"] qs by (simp_all add: assms(5) agg_packet_def)
  have hd: "tot_len (sk_data skb) 0 = Some (of_nat (20 + length (concat qs)))" "ip_header_bytes (sk_data skb) 0 = Some 20"
    using encap_header_fields(1,3) [of "of_nat (20 + length (concat qs))" pr ifa ip "concat qs"] by (simp_all only: assms(5))
  have len: "unat (of_nat (length (concat qs)) :: u16) = length (concat qs)"
  proof -
    have "length (concat qs) < 2 ^ LENGTH(16)" using assms(4) by simp
    then show ?thesis by (simp only: unat_of_nat mod_less)
  qed
  have agg: "of_nat (20 + length (concat qs)) - 20 = (of_nat (length (concat qs)) :: u16)" by simp
  obtain sc where lp: "l3_loop (of_nat (length (concat qs))) (pkt_ts q) (of_nat MAX_SCATTERS - 1) 0 20 0 True (sk_data skb) (replicate MAX_SCATTERS None)
      = Some (Inr (of_nat (MAX_SCATTERS - ?n) - 1, ?h @ concat fs, sc))" "drop (MAX_SCATTERS - ?n) sc = map Some (rev (places 20 qs))"
    using l3_loop_packets [OF assms(1,3) order_refl, of "replicate MAX_SCATTERS None" 0 "of_nat (length (concat qs))" "pkt_ts q" ?h 0 True] len
    unfolding fs_def assms(5) by (auto simp: qs(1))
  have idx: "unat (of_nat (MAX_SCATTERS - ?n) - 1 + 1 :: u8) = MAX_SCATTERS - ?n"
  proof -
    have "MAX_SCATTERS - ?n < 2 ^ LENGTH(8)" by (simp add: MAX_SCATTERS_def)
    then show ?thesis by (simp only: diff_add_cancel unat_of_nat mod_less)
  qed
  define ops where "ops = rev (zip (places 20 fs) fs)"
  have ops: "map (\<lambda>x. Some (fst x)) ops = map Some (rev (places 20 qs))" "map snd ops = rev fs" "length ops = ?n"
  proof -
    have "map fst ops = rev (places 20 fs)" "map snd ops = rev fs" by (simp_all add: ops_def flip: rev_map)
    moreover have "map (\<lambda>x. Some (fst x)) ops = map Some (map fst ops)" by simp
    ultimately show "map (\<lambda>x. Some (fst x)) ops = map Some (rev (places 20 qs))" "map snd ops = rev fs"
      using places_cong [OF fs(1)] by simp_all
    show "length ops = ?n" using fs(3) by (simp add: ops_def)
  qed
  have "\<forall>x\<in>set ops. agg_packet (snd x) \<and> (\<exists>xs ys. ?h @ concat fs = xs @ snd x @ ys \<and> length xs = fst x)"
    using places_split [of _ ?h fs] fs(2) by (auto simp: ops_def dest: set_zip_rightD)
  from inject_all_ok [OF this assms(6)]
  obtain st' where st': "inject_all (?h @ concat fs) (map Some (rev (places 20 qs))) st = Some st'" "inj_rep st' (bs @ rev fs)" "inj_sent st' = inj_sent st"
    using assms(7) ops by auto
  have "pdu_at q - 8 + 8 = pdu_at q" "of_nat (MAX_SCATTERS - 1) = (of_nat MAX_SCATTERS - 1 :: u8)" using rd(5) by (simp_all add: MAX_SCATTERS_def)
  then have "l3_deaggregate skb st = Some (NF_STOLEN, None, st')"
    using rd hd lp idx st'(1) by (simp add: l3_deaggregate_def Let_def agg add.assoc del: of_nat_add)
  then show ?thesis using st'(2,3) unfolding fs_def by blast
qed

section \<open>What comes out\<close>

lemma fixed_deltas:
  "\<forall>p\<in>set ps. agg_packet p \<Longrightarrow> length ts = length ps \<Longrightarrow> map2 fixed ts (deltas ps) = map2 fixed ts ps"
proof (induction ps arbitrary: ts rule: deltas.induct)
  case (1 p q ps)
  then show ?case by (cases ts) (simp_all add: fixed_with_ts)
qed simp_all

lemma length_deltas [simp]: "length (deltas ps) = length ps"
  by (induction ps rule: deltas.induct) simp_all

definition recovered_stamps :: "u8 list list \<Rightarrow> u64 list" where
  "recovered_stamps ps = replicate (length ps - 2) 0 @ replicate (min 2 (length ps)) (pkt_ts (last ps))"

definition recovered :: "u8 list list \<Rightarrow> u8 list list" where
  "recovered ps = map2 fixed (recovered_stamps ps) ps"

lemma length_recovered_stamps [simp]: "length (recovered_stamps ps) = length ps"
proof -
  have "n - 2 + min 2 n = (n :: nat)" for n by arith
  then show ?thesis by (simp add: recovered_stamps_def)
qed

lemma length_recovered [simp]: "length (recovered ps) = length ps"
  by (simp add: recovered_def)

lemma recovered_packets: "\<forall>p\<in>set ps. agg_packet p \<Longrightarrow> \<forall>p\<in>set (recovered ps). agg_packet p"
  unfolding recovered_def by (rule map2_fixed(2)) simp_all

lemma deaggregation_hook_packets:
  assumes "\<forall>p\<in>set ps. agg_packet p" "ps \<noteq> []" "length ps \<le> MAX_SCATTERS" "20 + length (concat ps) < 2 ^ 16" "sk_has_net skb"
    and "sk_data skb = encap_header (of_nat (20 + length (concat ps))) AGREGATED_IP_ENCAP_IP_PROTO ifa ip @ concat (rev (deltas ps))"
    and "inj_rep st bs" "inj_memory (length ps) st"
  shows "\<exists>st'. deaggregation_local_in_hook (Some skb) st = Some (NF_STOLEN, None, st') \<and> inj_sent st' = inj_sent st \<and> inj_rep st' (bs @ recovered ps)"
proof -
  let ?qs = "rev (deltas ps)" let ?n = "length ps"
  have l: "length (concat ?qs) = length (concat ps)" using deltas_length [OF assms(1)] by (simp add: length_concat sum_list_rev flip: rev_map)
  have "deltas ps = butlast (deltas ps) @ [last ps]" using deltas_last [of "butlast ps" "last ps"] assms(2) by simp
  then have hd: "hd ?qs = last ps" by (metis hd_rev last_snoc)
  obtain st' where st': "l3_deaggregate skb st = Some (NF_STOLEN, None, st')" "inj_sent st' = inj_sent st"
    "inj_rep st' (bs @ rev (map2 fixed (out_stamps (pkt_ts (hd ?qs)) 0 True (length ?qs)) ?qs))"
  proof -
    have "\<forall>q\<in>set ?qs. agg_packet q" "?qs \<noteq> []" "length ?qs \<le> MAX_SCATTERS" "20 + length (concat ?qs) < 2 ^ 16"
      "sk_data skb = encap_header (of_nat (20 + length (concat ?qs))) AGREGATED_IP_ENCAP_IP_PROTO ifa ip @ concat ?qs" "inj_memory (length ?qs) st"
      using deltas_packets [OF assms(1)] assms(2,3,4,8) l length_deltas [of ps] by (auto simp only: set_rev length_rev l assms(6) rev_is_Nil_conv simp flip: length_0_conv)
    from l3_deaggregate_packets [OF this(1-5) assms(7) this(6)] show thesis using that by blast
  qed
  have "out_stamps (pkt_ts (hd ?qs)) 0 True (length ?qs) = rev (recovered_stamps ps)" by (simp add: hd out_stamps_first recovered_stamps_def)
  then have "rev (map2 fixed (out_stamps (pkt_ts (hd ?qs)) 0 True (length ?qs)) ?qs) = map2 fixed (recovered_stamps ps) (deltas ps)"
    by (simp add: zip_rev rev_map)
  also have "\<dots> = recovered ps" using fixed_deltas [OF assms(1) length_recovered_stamps] by (simp only: recovered_def)
  finally have out: "inj_rep st' (bs @ recovered ps)" using st'(3) by (simp only:)
  have "ip_protocol (sk_data skb) 0 = Some AGREGATED_IP_ENCAP_IP_PROTO" by (simp only: assms(6) encap_header_fields(2))
  moreover have "AGREGATED_IP_ENCAP_IP_PROTO \<noteq> AGREGATED_APPLICATION_ENCAP_UDP_PROTO"
    by (simp add: AGREGATED_IP_ENCAP_IP_PROTO_def AGREGATED_APPLICATION_ENCAP_UDP_PROTO_def)
  ultimately have "deaggregation_local_in_hook (Some skb) st = l3_deaggregate skb st"
    using assms(5) by (simp add: deaggregation_local_in_hook_def)
  then show ?thesis using st'(1,2) out by (intro exI [of _ st']) simp
qed

lemma injector_step_ok:
  assumes "inj_rep st (b # bs)" "agg_packet b"
  shows "\<exists>st'. injector_step st = Some st' \<and> inj_rep st' bs \<and> inj_sent st' = inj_sent st @ [b]"
proof -
  obtain e a d xs where x: "sl_rep st e ((a, d) # xs)" "inj_packets st d = Some b" "map (\<lambda>x. inj_packets st (snd x)) xs = map Some bs"
    "distinct (d # map snd xs)" "NULL \<notin> snd ` set xs" "d \<noteq> NULL"
    using assms(1) unfolding inj_rep_def by (fastforce simp: map_eq_Cons_conv)
  let ?st = "st\<lparr>sl_nodes := (sl_nodes st)(a := None), sl_q := Some \<lparr>q_first = newest xs, q_last = oldest xs\<rparr>\<rparr>"
  let ?st' = "?st\<lparr>inj_sent := inj_sent st @ [b], inj_packets := (inj_packets st)(d := None)\<rparr>"
  have "send_it b = Some b"
    using agg_packet_read(3) [OF assms(2)] unat_length [OF assms(2)] by (simp add: send_it_def bytes_at_def)
  then have "injector_step st = Some ?st'" using dequeue_ok(1) [OF x(1)] x(2,6) by (simp add: injector_step_def)
  moreover have rep: "sl_rep ?st' a xs" using dequeue_ok(2) [OF x(1)] by (simp add: sl_rep_def)
  have "map (\<lambda>x. inj_packets ?st' (snd x)) xs = map (\<lambda>x. inj_packets st (snd x)) xs" using x(4) by auto
  with rep x(3-5) have "inj_rep ?st' bs" unfolding inj_rep_def by (intro exI [of _ a] exI [of _ xs]) (simp only: distinct.simps, blast)
  ultimately show ?thesis by (intro exI [of _ ?st']) simp
qed

lemma injector_drains:
  "inj_rep st bs \<Longrightarrow> \<forall>b\<in>set bs. agg_packet b \<Longrightarrow>
   \<exists>st'. ((\<lambda>so. Option.bind so injector_step) ^^ length bs) (Some st) = Some st' \<and> inj_sent st' = inj_sent st @ bs"
proof (induction bs arbitrary: st)
  case (Cons b bs)
  obtain st1 where st1: "injector_step st = Some st1" "inj_rep st1 bs" "inj_sent st1 = inj_sent st @ [b]"
    using injector_step_ok [OF Cons.prems(1)] Cons.prems(2) by auto
  then show ?case using Cons.IH [OF st1(2)] Cons.prems(2) by (simp add: funpow_Suc_right del: funpow.simps)
qed simp

text \<open>The deaggregation hook takes an aggregated packet apart, in the order the packets were aggregated, and the thread sends them in that order: for up to 27
  packets every one of them comes out once, unchanged but for its UDP checksum, which is cleared, and its timestamp.
  The timestamps are not the original ones: the last two packets both get the timestamp of the last, all
  earlier ones get 0, because the distances stored by the aggregation are overwritten before they are read.\<close>

theorem deaggregation_recovers_packets:
  assumes "\<forall>p\<in>set ps. agg_packet p" "ps \<noteq> []" "length ps \<le> MAX_SCATTERS" "20 + length (concat ps) < 2 ^ 16" "sk_has_net skb"
    and "sk_data skb = encap_header (of_nat (20 + length (concat ps))) AGREGATED_IP_ENCAP_IP_PROTO ifa ip @ concat (rev (deltas ps))"
    and "inj_rep st []" "inj_memory (length ps) st"
  shows "\<exists>st' st''. deaggregation_local_in_hook (Some skb) st = Some (NF_STOLEN, None, st') \<and>
      ((\<lambda>so. Option.bind so injector_step) ^^ length ps) (Some st') = Some st'' \<and>
      inj_sent st'' = inj_sent st @ map2 (\<lambda>t p. with_ts t (clear_check p)) (replicate (length ps - 2) 0 @ replicate (min 2 (length ps)) (pkt_ts (last ps))) ps"
proof -
  obtain st' where st': "deaggregation_local_in_hook (Some skb) st = Some (NF_STOLEN, None, st')" "inj_sent st' = inj_sent st" "inj_rep st' (recovered ps)"
    using deaggregation_hook_packets [OF assms] by auto
  have "length (recovered ps) = length ps" by (rule length_recovered)
  moreover have "(\<lambda>t p. with_ts t (clear_check p)) = fixed" by (intro ext) (simp add: fixed_def)
  ultimately show ?thesis
    using injector_drains [OF st'(3) recovered_packets [OF assms(1)]] st'(1,2) unfolding recovered_def recovered_stamps_def by fastforce
qed

definition demo_inj :: inj where
  "demo_inj = \<lparr>sl_nodes = Map.empty, sl_q = Some \<lparr>q_first = NULL, q_last = NULL\<rparr>, sl_mem = [1, 2, 3, 4, 5, 6], inj_packets = Map.empty, inj_sent = []\<rparr>"

lemma demo_inj_ok: "inj_rep demo_inj []" "inj_memory 3 demo_inj"
  by (auto simp: inj_rep_def inj_memory_def demo_inj_def sl_rep_def)

theorem deaggregation_recovers_packets_witness:
  "\<exists>st' st''. deaggregation_local_in_hook (Some (demo_skb (encap_header 128 AGREGATED_IP_ENCAP_IP_PROTO 7 8
        @ concat (rev (deltas [demo_packet 5, demo_packet 9, demo_packet 12]))))) demo_inj = Some (NF_STOLEN, None, st') \<and>
      ((\<lambda>so. Option.bind so injector_step) ^^ 3) (Some st') = Some st'' \<and>
      inj_sent st'' = [with_ts 0 (clear_check (demo_packet 5)), with_ts 12 (clear_check (demo_packet 9)), with_ts 12 (clear_check (demo_packet 12))]"
proof -
  let ?ps = "[demo_packet 5, demo_packet 9, demo_packet 12]"
  have ts: "pkt_ts (demo_packet t) = t" for t
    by (simp add: pkt_ts_def pdu_at_def demo_packet_def bytes_word_word_bytes swap_bytes_swap_bytes del: word_bytes_numeral)
  have len: "20 + length (concat ?ps) = 128" by simp
  have st: "replicate (length ?ps - 2) 0 @ replicate (min 2 (length ?ps)) (pkt_ts (last ?ps)) = [0, 12, 12]" by (simp add: ts numeral_2_eq_2)
  have n: "length ?ps = 3" by simp
  let ?skb = "demo_skb (encap_header 128 AGREGATED_IP_ENCAP_IP_PROTO 7 8 @ concat (rev (deltas ?ps)))"
  have "sk_data ?skb = encap_header (of_nat (20 + length (concat ?ps))) AGREGATED_IP_ENCAP_IP_PROTO 7 8 @ concat (rev (deltas ?ps))" "sk_has_net ?skb"
    unfolding len by (simp_all only: demo_skb_def sk_buff.simps of_nat_numeral)
  moreover have "\<forall>p\<in>set ?ps. agg_packet p" using demo_packet_ok by simp
  ultimately have "\<exists>st' st''. deaggregation_local_in_hook (Some ?skb) demo_inj = Some (NF_STOLEN, None, st') \<and>
      ((\<lambda>so. Option.bind so injector_step) ^^ length ?ps) (Some st') = Some st'' \<and>
      inj_sent st'' = inj_sent demo_inj @ map2 (\<lambda>t p. with_ts t (clear_check p)) (replicate (length ?ps - 2) 0 @ replicate (min 2 (length ?ps)) (pkt_ts (last ?ps))) ?ps"
    using demo_inj_ok by (intro deaggregation_recovers_packets [where ps = ?ps and ifa = 7 and ip = 8]) (simp_all add: MAX_SCATTERS_def numeral_3_eq_3)
  then show ?thesis unfolding st n by (simp add: demo_inj_def ts numeral_2_eq_2)
qed

lemma app_loop_second: "app_loop (Suc k) n first ts i udph False mem sc st = None"
  by simp

lemma app_loop_two: "app_loop (Suc (Suc k)) n first ts i udph ft mem sc st = None"
  unfolding app_loop.simps(2) [of "Suc k"] app_loop_second by (simp only: Option.bind_rzero if_cancel case_prod_unfold cong: if_cong)

text \<open>The deaggregation of application packets cannot handle more than one datagram: a packet of the application
  protocol that carries at least the bytes of two datagrams makes the hook dereference a pointer that was never
  assigned, whatever the packet and the memory hold.\<close>

theorem app_deagregate_oops_on_two:
  assumes "sk_has_net skb" "ip_protocol (sk_data skb) 0 = Some AGREGATED_APPLICATION_ENCAP_UDP_PROTO"
    and "ip_header_bytes (sk_data skb) 0 = Some n" "tot_len (sk_data skb) 0 = Some t" "n + 2 * (8 + sizeof_packet_t) \<le> unat t"
  shows "deaggregation_local_in_hook (Some skb) st = None"
proof -
  have "2 \<le> (uint t - int n) mod 2 ^ 32 div (8 + int sizeof_packet_t)"
  proof -
    have "int n + 66 \<le> uint t" using of_nat_mono [OF assms(5), where 'a = int] by (simp add: sizeof_packet_t_def)
    moreover have "uint t < 2 ^ LENGTH(16)" by (rule uint_lt2p)
    ultimately have "66 \<le> uint t - int n" "uint t - int n < 2 ^ 32" by simp_all
    then have "(uint t - int n) mod 2 ^ 32 = uint t - int n" by (intro mod_pos_pos_trivial) simp_all
    with \<open>66 \<le> uint t - int n\<close> show ?thesis by (simp add: sizeof_packet_t_def zdiv_mono1 [of 66 _ 33, simplified])
  qed
  then obtain k where k: "nat ((uint t - int n) mod 2 ^ 32 div (8 + int sizeof_packet_t)) = Suc (Suc k)"
    using that [of "nat ((uint t - int n) mod 2 ^ 32 div (8 + int sizeof_packet_t)) - 2"] by linarith
  have "app_deagregate skb st = None"
    by (simp only: app_deagregate_def Let_def assms(2-4) Option.bind.bind_lunit k app_loop_two Option.bind.bind_lzero Option.bind_rzero if_True refl)
  then show ?thesis using assms(1,2) by (simp add: deaggregation_local_in_hook_def)
qed

theorem app_deagregate_oops_on_two_witness:
  "deaggregation_local_in_hook (Some (demo_skb (encap_header 86 AGREGATED_APPLICATION_ENCAP_UDP_PROTO 7 8 @ replicate 66 0))) demo_inj = None"
  by (rule app_deagregate_oops_on_two [of _ 20 86])
    (simp_all only: demo_skb_def sk_buff.simps encap_header_fields, simp add: sizeof_packet_t_def)

end
