(* ===== verification/Gps_Ring.thy ===== *)
theory Gps_Ring
  imports Complex_Main Mia_Prelude "HOL-Library.While_Combinator" "HOL-Library.Sublist"
begin

text \<open>
  What the two GPS drivers (\<^verbatim>\<open>gps_time/trimble_lassen_iq\<close> and \<^verbatim>\<open>gps_time/trimble_condor\<close>)
  have in common: the circular message buffer filled by \<^verbatim>\<open>output_from_gps\<close>, the thread
  \<^verbatim>\<open>uart_read_thread\<close> that fills it, and the loop of the thread \<^verbatim>\<open>process_msg\<close>, which takes
  messages from the buffer until none is complete and then waits for data.  The
  locale \<^verbatim>\<open>gps_device\<close> states what a driver's iteration of that loop promises for its framing,
  and shows that the messages are handled exactly once and in order however
  the bytes are cut into reads and however the two threads interleave.
\<close>

section \<open>The state both drivers have\<close>

datatype gps_fault_t = GPS_OK | GPS_ANTENA_SHORT | GPS_ANTENA_OPEN | GPS_NEEDED_RESET | GPS_BATTERY_FAULT

datatype gps_state_t = GPS_PRE_INIT | GPS_RESET | GPS_SEARCH | GPS_READY | GPS_QUERY

text \<open>\<^verbatim>\<open>buff_start\<close> and \<^verbatim>\<open>buff_end\<close> are never negative; they are natural numbers here.\<close>

record gps_ring =
  msg_buf :: "u8 list"
  buff_start :: nat
  buff_end :: nat

definition MSG_BUF_SIZE :: nat where
  "MSG_BUF_SIZE = 1024"

definition gps_ring0 :: gps_ring where
  "gps_ring0 = \<lparr>msg_buf = replicate MSG_BUF_SIZE 0, buff_start = 0, buff_end = 0\<rparr>"

definition ring_at :: "gps_ring \<Rightarrow> nat \<Rightarrow> u8" where
  "ring_at r i = msg_buf r ! (i mod MSG_BUF_SIZE)"

text \<open>\<^verbatim>\<open>if (end < start) end += MSG_BUF_SIZE\<close>\<close>

definition linear_end :: "nat \<Rightarrow> nat \<Rightarrow> nat" where
  "linear_end start e = (if e < start then e + MSG_BUF_SIZE else e)"

text \<open>A \<^verbatim>\<open>float\<close> or \<^verbatim>\<open>double\<close> is its exact value, \<^verbatim>\<open>None\<close> when it is not finite.  An operation is the
  exact one followed by the rounding of the machine to \<^verbatim>\<open>float\<close> or to \<^verbatim>\<open>double\<close>.\<close>

type_synonym fp = "rat option"

text \<open>The globals the two drivers share apart from the buffer.  \<^verbatim>\<open>current_time\<close> is \<^verbatim>\<open>None\<close> for the
  null pointer and otherwise the value of the caller's \<^verbatim>\<open>struct timeval\<close>.  \<^verbatim>\<open>blocked\<close> are the threads
  in \<^verbatim>\<open>pthread_cond_wait(&reply_available_cond, ..)\<close> and \<^verbatim>\<open>woken\<close> those a signal has released that do not
  have the lock yet; \<^verbatim>\<open>gps_out\<close> is what was written to the device.\<close>

datatype caller = Time_Caller | LLA_Caller

type_synonym timeval = "u32 \<times> u32"

record gps_common =
  gps_state :: gps_state_t
  gps_fault :: gps_fault_t
  num_satellites :: u32
  current_time :: "timeval option"
  gps_out :: "u8 list list"
  blocked :: "caller list"
  woken :: "caller list"

text \<open>What the drivers use of the system: the results of \<^verbatim>\<open>write\<close> on the serial line, and the
  blocked thread that a signal releases (any one, by POSIX).\<close>

record gps_env =
  wr :: "u8 list \<Rightarrow> int"
  pick :: "caller list \<Rightarrow> nat"

definition remove_nth :: "nat \<Rightarrow> 'a list \<Rightarrow> 'a list" where
  "remove_nth i xs = take i xs @ drop (Suc i) xs"

definition signal_reply :: "'e gps_env_scheme \<Rightarrow> 'a gps_common_scheme \<Rightarrow> 'a gps_common_scheme" where
  "signal_reply env c =
     (if blocked c = [] then c
      else let i = pick env (blocked c) mod length (blocked c) in
        c\<lparr>blocked := remove_nth i (blocked c), woken := woken c @ [blocked c ! i]\<rparr>)"

text \<open>\<^verbatim>\<open>uart_write\<close>: \<^verbatim>\<open>None\<close> is \<^verbatim>\<open>exit(1)\<close> after a short write.\<close>

definition uart_write :: "'e gps_env_scheme \<Rightarrow> u8 list \<Rightarrow> 'a gps_common_scheme \<Rightarrow> 'a gps_common_scheme option" where
  "uart_write env msg c =
     (if wr env msg = int (length msg) then Some (c\<lparr>gps_out := gps_out c @ [msg]\<rparr>) else None)"

text \<open>A call of the program returns immediately with an error code, or it blocks.\<close>

datatype 'a call = Returned u8 'a | Blocks 'a

section \<open>output_from_gps\<close>

primrec store_bytes :: "u8 list \<Rightarrow> nat \<Rightarrow> u8 list \<Rightarrow> u8 list" where
  "store_bytes buf e [] = buf"
| "store_bytes buf e (b # bs) = store_bytes (buf[e mod MSG_BUF_SIZE := b]) (Suc e) bs"

text \<open>\<^verbatim>\<open>None\<close> is \<^verbatim>\<open>exit(1)\<close>.  A negative length stores nothing.\<close>

definition output_from_gps :: "gps_state_t \<Rightarrow> u8 list \<Rightarrow> int \<Rightarrow> gps_ring \<Rightarrow> gps_ring option" where
  "output_from_gps st msg msg_len r =
     (if st = GPS_PRE_INIT then Some r
      else let e = linear_end (buff_start r) (buff_end r) in
        if int MSG_BUF_SIZE - (int e - int (buff_start r)) > msg_len
        then Some (r\<lparr>msg_buf := store_bytes (msg_buf r) (buff_end r) (take (nat msg_len) msg),
                     buff_end := (buff_end r + nat msg_len) mod MSG_BUF_SIZE\<rparr>)
        else None)"

section \<open>The threads\<close>

text \<open>The result of \<^verbatim>\<open>read\<close> on the serial line.  The count is assigned to a \<^verbatim>\<open>size_t\<close>, so the
  test for \<^verbatim>\<open>0\<close> does not see an error, and \<^verbatim>\<open>output_from_gps\<close> receives \<^verbatim>\<open>-1\<close> as length.\<close>

datatype uart_read = Uart_Data "u8 list" | Uart_Error

definition uart_read_thread :: "gps_state_t \<Rightarrow> uart_read \<Rightarrow> gps_ring \<Rightarrow> gps_ring option" where
  "uart_read_thread st rd r = (case rd of
     Uart_Data bs \<Rightarrow> if length bs = 0 then None else output_from_gps st bs (int (length bs)) r
   | Uart_Error \<Rightarrow> output_from_gps st [] (- 1) r)"

text \<open>One turn of the loop of \<^verbatim>\<open>process_msg\<close>: a message was handled, no message is complete and
  the thread waits for \<^verbatim>\<open>data_available_cond\<close>, or the program ended.\<close>

datatype 's proc = Running 's | Waiting 's | Exited

primrec is_running :: "'s proc \<Rightarrow> bool" where
  "is_running (Running s) = True"
| "is_running (Waiting s) = False"
| "is_running Exited = False"

text \<open>From the moment the thread holds the lock until it waits again.\<close>

definition process_run :: "('s \<Rightarrow> 's proc) \<Rightarrow> 's \<Rightarrow> 's proc option" where
  "process_run turn s =
     while_option is_running (\<lambda>p. case p of Running s \<Rightarrow> turn s | _ \<Rightarrow> p) (Running s)"

section \<open>The contents of the buffer\<close>

definition gps_ring_ok :: "gps_ring \<Rightarrow> bool" where
  "gps_ring_ok r \<longleftrightarrow> length (msg_buf r) = MSG_BUF_SIZE \<and> buff_start r < MSG_BUF_SIZE \<and> buff_end r < MSG_BUF_SIZE"

definition used :: "gps_ring \<Rightarrow> nat" where
  "used r = linear_end (buff_start r) (buff_end r) - buff_start r"

definition contents :: "gps_ring \<Rightarrow> u8 list" where
  "contents r = map (ring_at r) [buff_start r..<buff_start r + used r]"

lemma length_contents [simp]: "length (contents r) = used r"
  by (simp add: contents_def)

lemma contents_nth: "i < used r \<Longrightarrow> contents r ! i = ring_at r (buff_start r + i)"
  by (simp add: contents_def)

lemma used_less: "gps_ring_ok r \<Longrightarrow> used r < MSG_BUF_SIZE"
  by (auto simp: gps_ring_ok_def used_def linear_end_def)

lemma start_used: "gps_ring_ok r \<Longrightarrow> buff_start r + used r = linear_end (buff_start r) (buff_end r)"
  by (auto simp: gps_ring_ok_def used_def linear_end_def)

lemma start_used_mod: "gps_ring_ok r \<Longrightarrow> (buff_start r + used r) mod MSG_BUF_SIZE = buff_end r"
  by (auto simp: gps_ring_ok_def used_def linear_end_def)

lemma used_of_end:
  assumes "s < MSG_BUF_SIZE" "n < MSG_BUF_SIZE"
  shows "linear_end s ((s + n) mod MSG_BUF_SIZE) = s + n"
proof (cases "s + n < MSG_BUF_SIZE")
  case False
  then have "(s + n) mod MSG_BUF_SIZE = s + n - MSG_BUF_SIZE"
    using assms by (subst mod_if) (simp add: not_less)
  then show ?thesis using assms False by (simp add: linear_end_def)
qed (simp add: linear_end_def)

lemma mod_distinct: "i < j \<Longrightarrow> j < i + n \<Longrightarrow> i mod n \<noteq> j mod (n::nat)"
proof
  assume "i < j" "j < i + n" "i mod n = j mod n"
  then have "n dvd j - i" using mod_eq_dvd_iff_nat [of i j n] by simp
  then have "n \<le> j - i" using \<open>i < j\<close> by (intro dvd_imp_le) simp_all
  with \<open>i < j\<close> \<open>j < i + n\<close> show False by simp
qed

lemma length_store_bytes [simp]: "length (store_bytes buf e bs) = length buf"
  by (induction bs arbitrary: buf e) simp_all

lemma store_bytes_mod: "store_bytes buf (e mod MSG_BUF_SIZE) bs = store_bytes buf e bs"
proof (induction bs arbitrary: buf e)
  case (Cons b bs)
  have "store_bytes buf (Suc (e mod MSG_BUF_SIZE)) bs = store_bytes buf (Suc e) bs" for buf
    using Cons.IH [of buf "Suc (e mod MSG_BUF_SIZE)"] Cons.IH [of buf "Suc e"]
    by (simp add: mod_Suc_eq)
  then show ?case by simp
qed simp

lemma store_bytes_other:
  "i < e \<Longrightarrow> e + length bs \<le> i + MSG_BUF_SIZE \<Longrightarrow>
    store_bytes buf e bs ! (i mod MSG_BUF_SIZE) = buf ! (i mod MSG_BUF_SIZE)"
proof (induction bs arbitrary: buf e)
  case (Cons b bs)
  have "e mod MSG_BUF_SIZE \<noteq> i mod MSG_BUF_SIZE"
    using mod_distinct [of i e MSG_BUF_SIZE] Cons.prems by auto
  then show ?case using Cons by simp
qed simp

lemma store_bytes_at:
  "length buf = MSG_BUF_SIZE \<Longrightarrow> k < length bs \<Longrightarrow> length bs \<le> MSG_BUF_SIZE \<Longrightarrow>
    store_bytes buf e bs ! ((e + k) mod MSG_BUF_SIZE) = bs ! k"
proof (induction bs arbitrary: buf e k)
  case (Cons b bs)
  show ?case
  proof (cases k)
    case 0
    have "e mod MSG_BUF_SIZE < MSG_BUF_SIZE" by (simp add: MSG_BUF_SIZE_def)
    then show ?thesis using Cons.prems 0 by (simp add: store_bytes_other)
  next
    case (Suc j)
    then show ?thesis
      using Cons.IH [of "buf[e mod MSG_BUF_SIZE := b]" j "Suc e"] Cons.prems by simp
  qed
qed simp

text \<open>A message that fits is appended to the contents; the indices stay in range.\<close>

lemma output_from_gps_appends:
  assumes ok: "gps_ring_ok r" and st: "st \<noteq> GPS_PRE_INIT" and fits: "used r + length bs < MSG_BUF_SIZE"
  shows "\<exists>r'. output_from_gps st bs (int (length bs)) r = Some r' \<and> gps_ring_ok r' \<and>
    contents r' = contents r @ bs"
proof -
  let ?e = "buff_start r + used r"
  define r' where "r' = r\<lparr>msg_buf := store_bytes (msg_buf r) ?e bs,
    buff_end := (?e + length bs) mod MSG_BUF_SIZE\<rparr>"
  have store: "store_bytes (msg_buf r) (buff_end r) bs = store_bytes (msg_buf r) ?e bs"
    using store_bytes_mod [of "msg_buf r" ?e bs] start_used_mod [OF ok] by simp
  have e: "(buff_end r + length bs) mod MSG_BUF_SIZE = (?e + length bs) mod MSG_BUF_SIZE"
    by (metis mod_add_left_eq start_used_mod [OF ok])
  have room: "int (length bs) < int MSG_BUF_SIZE - (int (linear_end (buff_start r) (buff_end r)) - int (buff_start r))"
    using fits start_used [OF ok] by (simp flip: start_used [OF ok])
  have out: "output_from_gps st bs (int (length bs)) r = Some r'"
    using st room by (simp add: output_from_gps_def r'_def Let_def store e)
  have ok': "gps_ring_ok r'" using ok by (auto simp: gps_ring_ok_def r'_def MSG_BUF_SIZE_def)
  have "used r' = linear_end (buff_start r) ((buff_start r + (used r + length bs)) mod MSG_BUF_SIZE) - buff_start r"
    by (simp only: used_def [of r']) (simp add: r'_def add.assoc)
  then have used': "used r' = used r + length bs"
    using used_of_end [of "buff_start r" "used r + length bs"] ok fits by (simp add: gps_ring_ok_def)
  have "contents r' ! i = (contents r @ bs) ! i" if "i < used r + length bs" for i
  proof (cases "i < used r")
    case True
    have "contents r' ! i = ring_at r' (buff_start r + i)"
      using that used' by (simp add: contents_nth r'_def)
    also have "\<dots> = ring_at r (buff_start r + i)"
      using True fits by (simp add: ring_at_def r'_def store_bytes_other)
    finally show ?thesis using True by (simp add: nth_append contents_nth)
  next
    case False
    define k where "k = i - used r"
    have k: "i = used r + k" "k < length bs" using False that by (simp_all add: k_def)
    have "contents r' ! i = ring_at r' (?e + k)"
      using that used' k by (simp add: contents_nth r'_def add.assoc)
    also have "\<dots> = bs ! k"
      using ok fits k store_bytes_at [of "msg_buf r" k bs ?e]
      by (simp add: ring_at_def r'_def gps_ring_ok_def)
    finally show ?thesis using k by (simp add: nth_append)
  qed
  then have "contents r' = contents r @ bs"
    using used' by (intro nth_equalityI) simp_all
  with out ok' show ?thesis by blast
qed

text \<open>Every call of \<^verbatim>\<open>output_from_gps\<close> keeps the indices in range.\<close>

lemma output_from_gps_ok:
  "gps_ring_ok r \<Longrightarrow> output_from_gps st bs n r = Some r' \<Longrightarrow> gps_ring_ok r'"
  by (auto simp: output_from_gps_def Let_def gps_ring_ok_def MSG_BUF_SIZE_def split: if_splits)

text \<open>The bytes of a message leave the buffer when \<^verbatim>\<open>buff_start\<close> moves behind it.\<close>

lemma contents_advance:
  assumes ok: "gps_ring_ok r" and len: "length (msg_buf r') = MSG_BUF_SIZE" "buff_end r' = buff_end r"
    and n: "n \<le> used r" and start: "buff_start r' = (buff_start r + n) mod MSG_BUF_SIZE"
    and same: "\<And>i. n \<le> i \<Longrightarrow> i < used r \<Longrightarrow> ring_at r' (buff_start r + i) = ring_at r (buff_start r + i)"
  shows "gps_ring_ok r'" "contents r' = drop n (contents r)"
proof -
  show ok': "gps_ring_ok r'" using ok len start by (simp add: gps_ring_ok_def MSG_BUF_SIZE_def)
  let ?s = "buff_start r + n"
  have "(?s mod MSG_BUF_SIZE + (used r - n)) mod MSG_BUF_SIZE = (?s + (used r - n)) mod MSG_BUF_SIZE"
    by (rule mod_add_left_eq)
  also have "?s + (used r - n) = buff_start r + used r" using n by simp
  finally have "buff_end r' = (buff_start r' + (used r - n)) mod MSG_BUF_SIZE"
    using start_used_mod [OF ok] by (simp only: len start)
  then have used': "used r' = used r - n"
    using used_of_end [of "buff_start r'" "used r - n"] ok' used_less [OF ok]
    by (simp add: used_def [of r'] gps_ring_ok_def)
  have "contents r' ! i = drop n (contents r) ! i" if i: "i < used r - n" for i
  proof -
    have "(?s mod MSG_BUF_SIZE + i) mod MSG_BUF_SIZE = (buff_start r + (n + i)) mod MSG_BUF_SIZE"
      by (simp add: mod_add_left_eq add.assoc)
    then have "contents r' ! i = ring_at r' (buff_start r + (n + i))"
      using i used' by (simp add: contents_nth start ring_at_def)
    also have "\<dots> = ring_at r (buff_start r + (n + i))" using same [of "n + i"] i by simp
    finally show ?thesis using i by (simp add: contents_nth)
  qed
  then show "contents r' = drop n (contents r)"
    using used' by (intro nth_equalityI) simp_all
qed

section \<open>Signals\<close>

lemma signal_reply_simps [simp]:
  "gps_state (signal_reply env c) = gps_state c" "gps_fault (signal_reply env c) = gps_fault c"
  "current_time (signal_reply env c) = current_time c" "gps_out (signal_reply env c) = gps_out c"
  "num_satellites (signal_reply env c) = num_satellites c"
  by (simp_all add: signal_reply_def Let_def)

lemma signal_single:
  "blocked c = [w] \<Longrightarrow> signal_reply env c = c\<lparr>blocked := [], woken := woken c @ [w]\<rparr>"
  by (simp add: signal_reply_def remove_nth_def)

section \<open>The interface of a driver\<close>

text \<open>Several reads before the processing thread gets the lock, and a sequence of such rounds.\<close>

primrec read_all :: "(uart_read \<Rightarrow> 's \<Rightarrow> 's option) \<Rightarrow> u8 list list \<Rightarrow> 's \<Rightarrow> 's option" where
  "read_all rd [] s = Some s"
| "read_all rd (bs # bss) s = Option.bind (rd (Uart_Data bs) s) (read_all rd bss)"

primrec gps_rounds :: "(uart_read \<Rightarrow> 's \<Rightarrow> 's option) \<Rightarrow> ('s \<Rightarrow> 's proc) \<Rightarrow> u8 list list list \<Rightarrow> 's \<Rightarrow> 's option" where
  "gps_rounds rd turn [] s = Some s"
| "gps_rounds rd turn (bss # rs) s = Option.bind (read_all rd bss s) (\<lambda>s.
     case process_run turn s of Some (Waiting s) \<Rightarrow> gps_rounds rd turn rs s | _ \<Rightarrow> None)"

primrec handle_all :: "('m \<Rightarrow> 'c \<Rightarrow> 'c option) \<Rightarrow> 'm list \<Rightarrow> 'c \<Rightarrow> 'c option" where
  "handle_all h [] c = Some c"
| "handle_all h (m # ms) c = Option.bind (h m c) (handle_all h ms)"

lemma handle_all_append:
  "handle_all h (ms @ ms') c = Option.bind (handle_all h ms c) (handle_all h ms')"
  by (induction ms arbitrary: c) (simp_all split: bind_split)

lemma process_run_unfold:
  "process_run turn s = (case turn s of Running s' \<Rightarrow> process_run turn s' | p \<Rightarrow> Some p)"
  unfolding process_run_def
  by (cases "turn s")
     (simp_all add: while_option_unfold [of is_running _ "Running s"]
        while_option_unfold [of is_running _ "Waiting t" for t] while_option_unfold [of is_running _ Exited])

text \<open>What has arrived of a sequence of messages is some whole messages and a proper part of
  the next one.\<close>

lemma stream_split:
  assumes "a @ b = concat (map f ms)"
  shows "\<exists>ms1 ms2 q. ms = ms1 @ ms2 \<and> a = concat (map f ms1) @ q \<and> q @ b = concat (map f ms2) \<and>
    (if ms2 = [] then q = [] else strict_prefix q (f (hd ms2)))"
  using assms
proof (induction ms arbitrary: a)
  case Nil
  then show ?case by (intro exI [of _ "[]"]) simp
next
  case (Cons m ms)
  show ?case
  proof (cases "strict_prefix a (f m)")
    case True
    with Cons.prems show ?thesis by (intro exI [of _ "[]"] exI [of _ "m # ms"] exI [of _ a]) simp
  next
    case False
    have "prefix a (concat (map f (m # ms)))" "prefix (f m) (concat (map f (m # ms)))"
      using Cons.prems by (metis prefixI) simp
    then have "prefix (f m) a"
      using False by (metis prefix_same_cases strict_prefix_def)
    then obtain a' where a': "a = f m @ a'" by (auto simp: prefix_def)
    with Cons.prems have "a' @ b = concat (map f ms)" by simp
    from Cons.IH [OF this] obtain ms1 ms2 q where "ms = ms1 @ ms2" "a' = concat (map f ms1) @ q"
      "q @ b = concat (map f ms2)" "if ms2 = [] then q = [] else strict_prefix q (f (hd ms2))"
      by blast
    with a' show ?thesis by (intro exI [of _ "m # ms1"] exI [of _ ms2] exI [of _ q]) simp
  qed
qed

text \<open>The laws: a read appends its bytes; a turn handles the first message of the buffer and
  removes it, and waits when the buffer holds a proper part of a message only.\<close>

locale gps_device =
  fixes ring :: "'s \<Rightarrow> gps_ring" and ctl :: "'s \<Rightarrow> 'c" and live :: "'c \<Rightarrow> bool"
    and rd :: "uart_read \<Rightarrow> 's \<Rightarrow> 's option" and turn :: "'s \<Rightarrow> 's proc"
    and frame :: "'m \<Rightarrow> u8 list" and valid :: "'m \<Rightarrow> bool" and handle :: "'m \<Rightarrow> 'c \<Rightarrow> 'c option"
  assumes rd_appends: "gps_ring_ok (ring s) \<Longrightarrow> live (ctl s) \<Longrightarrow> bs \<noteq> [] \<Longrightarrow>
      used (ring s) + length bs < MSG_BUF_SIZE \<Longrightarrow>
      \<exists>s'. rd (Uart_Data bs) s = Some s' \<and> gps_ring_ok (ring s') \<and>
        contents (ring s') = contents (ring s) @ bs \<and> ctl s' = ctl s"
    and turn_frame: "gps_ring_ok (ring s) \<Longrightarrow> live (ctl s) \<Longrightarrow> valid m \<Longrightarrow>
      contents (ring s) = frame m @ rest \<Longrightarrow> handle m (ctl s) = Some c \<Longrightarrow>
      \<exists>s'. turn s = Running s' \<and> gps_ring_ok (ring s') \<and> contents (ring s') = rest \<and> ctl s' = c"
    and turn_partial: "gps_ring_ok (ring s) \<Longrightarrow> live (ctl s) \<Longrightarrow> valid m \<Longrightarrow>
      strict_prefix (contents (ring s)) (frame m) \<Longrightarrow> turn s = Waiting s"
    and turn_empty: "gps_ring_ok (ring s) \<Longrightarrow> contents (ring s) = [] \<Longrightarrow> turn s = Waiting s"
    and frame_nonempty: "valid m \<Longrightarrow> frame m \<noteq> []"
    and handle_live: "live c \<Longrightarrow> handle m c = Some c' \<Longrightarrow> live c'"
begin

lemma read_all_appends:
  assumes "gps_ring_ok (ring s)" "live (ctl s)" "[] \<notin> set bss"
    "used (ring s) + length (concat bss) < MSG_BUF_SIZE"
  shows "\<exists>s'. read_all rd bss s = Some s' \<and> gps_ring_ok (ring s') \<and>
    contents (ring s') = contents (ring s) @ concat bss \<and> ctl s' = ctl s"
  using assms
proof (induction bss arbitrary: s)
  case (Cons bs bss)
  then obtain s1 where s1: "rd (Uart_Data bs) s = Some s1" "gps_ring_ok (ring s1)"
    "contents (ring s1) = contents (ring s) @ bs" "ctl s1 = ctl s"
    using rd_appends [of s bs] by auto
  have "used (ring s1) = used (ring s) + length bs"
    using arg_cong [OF s1(3), of length] by simp
  with Cons.prems s1 Cons.IH [of s1] show ?case by auto
qed simp

lemma process_run_handles:
  assumes "gps_ring_ok (ring s)" "live (ctl s)" "\<forall>m\<in>set ms. valid m"
    and "contents (ring s) = concat (map frame ms) @ q"
    and "q = [] \<or> (\<exists>m. valid m \<and> strict_prefix q (frame m))"
    and "handle_all handle ms (ctl s) = Some c"
  shows "\<exists>s'. process_run turn s = Some (Waiting s') \<and> gps_ring_ok (ring s') \<and>
    contents (ring s') = q \<and> ctl s' = c \<and> live c"
  using assms
proof (induction ms arbitrary: s)
  case Nil
  then have "turn s = Waiting s" using turn_empty turn_partial by auto
  with Nil show ?case by (subst process_run_unfold) simp
next
  case (Cons m ms)
  from Cons.prems(6) obtain c1 where c1: "handle m (ctl s) = Some c1" "handle_all handle ms c1 = Some c"
    by (auto split: bind_splits)
  have "contents (ring s) = frame m @ (concat (map frame ms) @ q)" using Cons.prems(4) by simp
  from turn_frame [OF Cons.prems(1,2) _ this c1(1)] Cons.prems(3) obtain s1
    where s1: "turn s = Running s1" "gps_ring_ok (ring s1)"
      "contents (ring s1) = concat (map frame ms) @ q" "ctl s1 = c1" by auto
  have "live c1" using handle_live Cons.prems(2) c1(1) by blast
  with Cons.IH [of s1] Cons.prems(3,5) s1 c1(2) show ?case by (subst process_run_unfold) simp
qed

text \<open>However the messages are cut into reads, and however many reads come before the
  processing thread runs, every message is handled once and in order.\<close>

lemma rounds_handle_stream:
  assumes "gps_ring_ok (ring s)" "live (ctl s)" "\<forall>m\<in>set ms. valid m \<and> length (frame m) \<le> F"
    and "contents (ring s) @ concat (concat rs) = concat (map frame ms)"
    and "if ms = [] then contents (ring s) = [] else strict_prefix (contents (ring s)) (frame (hd ms))"
    and "\<forall>bss\<in>set rs. [] \<notin> set bss \<and> F + length (concat bss) < MSG_BUF_SIZE"
    and "handle_all handle ms (ctl s) = Some c"
  shows "\<exists>s'. gps_rounds rd turn rs s = Some s' \<and> gps_ring_ok (ring s') \<and> contents (ring s') = [] \<and> ctl s' = c"
  using assms
proof (induction rs arbitrary: s ms)
  case Nil
  have "ms = []" using Nil.prems(4,5) by (cases ms) (auto simp: strict_prefix_def prefix_def)
  with Nil.prems show ?case by simp
next
  case (Cons bss rs)
  have "used (ring s) \<le> F"
    using Cons.prems(3,5) by (cases ms) (auto simp: strict_prefix_def dest!: prefix_length_le simp flip: length_contents)
  then have "used (ring s) + length (concat bss) < MSG_BUF_SIZE" "[] \<notin> set bss"
    using Cons.prems(6) by fastforce+
  then obtain s1 where s1: "read_all rd bss s = Some s1" "gps_ring_ok (ring s1)"
    "contents (ring s1) = contents (ring s) @ concat bss" "ctl s1 = ctl s"
    using read_all_appends [of s bss] Cons.prems(1,2) by blast
  have "contents (ring s1) @ concat (concat rs) = concat (map frame ms)"
    using Cons.prems(4) s1(3) by simp
  from stream_split [OF this] obtain ms1 ms2 q where ms: "ms = ms1 @ ms2"
    and q: "contents (ring s1) = concat (map frame ms1) @ q" "q @ concat (concat rs) = concat (map frame ms2)"
      "if ms2 = [] then q = [] else strict_prefix q (frame (hd ms2))" by blast
  from Cons.prems(7) ms obtain c1
    where c1: "handle_all handle ms1 (ctl s1) = Some c1" "handle_all handle ms2 c1 = Some c"
    using s1(4) by (auto simp: handle_all_append split: bind_splits)
  have "q = [] \<or> (\<exists>m. valid m \<and> strict_prefix q (frame m))"
    using q(3) Cons.prems(3) ms by (metis Un_iff hd_in_set set_append)
  then obtain s2 where s2: "process_run turn s1 = Some (Waiting s2)" "gps_ring_ok (ring s2)"
    "contents (ring s2) = q" "ctl s2 = c1" "live c1"
    using process_run_handles [OF s1(2) _ _ q(1) _ c1(1)] Cons.prems(2,3) s1(4) ms by auto
  show ?case using Cons.IH [of s2 ms2] s2 q c1(2) Cons.prems(3,6) ms s1(1) by simp
qed

lemma stream_handled:
  assumes "gps_ring_ok (ring s)" "contents (ring s) = []" "live (ctl s)"
    and "\<forall>m\<in>set ms. valid m \<and> length (frame m) \<le> F"
    and "concat (concat rs) = concat (map frame ms)"
    and "\<forall>bss\<in>set rs. [] \<notin> set bss \<and> F + length (concat bss) < MSG_BUF_SIZE"
    and "handle_all handle ms (ctl s) = Some c"
  shows "\<exists>s'. gps_rounds rd turn rs s = Some s' \<and> contents (ring s') = [] \<and> ctl s' = c"
proof -
  have "if ms = [] then contents (ring s) = [] else strict_prefix (contents (ring s)) (frame (hd ms))"
    using assms(2,4) frame_nonempty [of "hd ms"] by (auto simp: strict_prefix_def)
  then show ?thesis using rounds_handle_stream [of s ms F rs c] assms by auto
qed

end

end
