(* ===== verification/Gps_Lassen.thy ===== *)
theory Gps_Lassen
  imports Gps_Ring "HOL-Library.Multiset"
begin

text \<open>
  The driver of the Trimble Lassen iQ receiver (\<^verbatim>\<open>gps_time/trimble_lassen_iq/gps_time.c\<close>), which
  speaks the binary TSIP protocol: packets between \<^verbatim>\<open>DLE\<close> and \<^verbatim>\<open>DLE ETX\<close> with \<^verbatim>\<open>DLE\<close> bytes of the data
  doubled, unstuffed in place in the circular buffer; the state machine of the
  receiver; and the calls by which a program asks for the time and the position.
\<close>

section \<open>Protocol\<close>

definition DLE :: u8 where "DLE = 0x10"

definition ETX :: u8 where "ETX = 0x03"

definition GPS_MSG_TIME :: u8 where "GPS_MSG_TIME = 0x41"

definition GPS_MSG_SW_VERSION :: u8 where "GPS_MSG_SW_VERSION = 0x45"

definition GPS_MSG_RECEIVER_HEALTH :: u8 where "GPS_MSG_RECEIVER_HEALTH = 0x46"

definition GPS_MSG_LLA :: u8 where "GPS_MSG_LLA = 0x4A"

definition reset_msg :: "u8 list" where
  "reset_msg = [DLE, 0x25, DLE, ETX]"

definition config_auto_report_msg :: "u8 list" where
  "config_auto_report_msg = [DLE, 0x35, 2, 0, 1, 0, DLE, ETX]"

definition enhance_sensitivity_on_msg :: "u8 list" where
  "enhance_sensitivity_on_msg = [DLE, 0x69, 1, 0, DLE, ETX]"

definition enhance_sensitivity_off_msg :: "u8 list" where
  "enhance_sensitivity_off_msg = [DLE, 0x69, 0, 0, DLE, ETX]"

definition request_time_msg :: "u8 list" where
  "request_time_msg = [DLE, 0x21, DLE, ETX]"

definition request_health_msg :: "u8 list" where
  "request_health_msg = [DLE, 0x26, DLE, ETX]"

definition request_position_msg :: "u8 list" where
  "request_position_msg = [DLE, 0x37, DLE, ETX]"

section \<open>Floating point\<close>

record lassen_env = gps_env +
  rnd32 :: "rat \<Rightarrow> fp"
  rnd64 :: "rat \<Rightarrow> fp"

text \<open>IEEE 754 single precision: sign, 8 bits of exponent, 23 bits of fraction.\<close>

definition float_of_bits :: "u32 \<Rightarrow> fp" where
  "float_of_bits w = (
     let e = unat (take_bit 8 (drop_bit 23 w)); f = unat (take_bit 23 w); s = (if bit w 31 then - 1 else 1)
     in if e = 255 then None
        else if e = 0 then Some (s * of_nat f / 2 ^ 149)
        else Some (s * of_nat (2 ^ 23 + f) * 2 ^ e / 2 ^ 150))"

text \<open>Conversion of a floating point number to an integer type.\<close>

definition c_trunc :: "rat \<Rightarrow> int" where
  "c_trunc x = (if x < 0 then - \<lfloor>- x\<rfloor> else \<lfloor>x\<rfloor>)"

section \<open>lookup_packet\<close>

text \<open>The loop that looks for the end of the message: \<^verbatim>\<open>ETX\<close> after an odd number of \<^verbatim>\<open>DLE\<close>.  It returns the
  position behind it.\<close>

function scan_end :: "gps_ring \<Rightarrow> nat \<Rightarrow> nat \<Rightarrow> nat \<Rightarrow> nat option" where
  "scan_end r pos e dle_count =
     (if pos < e then
        (if ring_at r pos = DLE then scan_end r (Suc pos) e (Suc dle_count)
         else if ring_at r pos = ETX \<and> odd dle_count then Some (Suc pos)
         else scan_end r (Suc pos) e 0)
      else None)"
  by pat_completeness auto
termination by (relation "measure (\<lambda>(_, pos, e, _). e - pos)") auto

text \<open>The loop that moves the message towards its end and drops the padding.  Where the code
  lets \<^verbatim>\<open>origin\<close> become \<^verbatim>\<open>-1\<close>, it is \<^verbatim>\<open>0\<close> here; the loop ends in both cases.\<close>

function unstuff :: "nat \<Rightarrow> nat \<Rightarrow> nat \<Rightarrow> u8 list \<Rightarrow> u8 list \<times> nat" where
  "unstuff start pos origin buf =
     (if start < origin then
        let buf = buf[pos mod MSG_BUF_SIZE := buf ! (origin mod MSG_BUF_SIZE)] in
        unstuff start (pos - 1)
          (if buf ! (origin mod MSG_BUF_SIZE) = DLE \<and> buf ! ((origin - 1) mod MSG_BUF_SIZE) = DLE
           then origin - 2 else origin - 1) buf
      else (buf, pos))"
  by pat_completeness auto
termination by (relation "measure (\<lambda>(start, pos, origin, buf). origin)") auto

datatype lookup = No_Packet | Lookup_Exit | Found nat nat gps_ring

definition lookup_packet :: "nat \<Rightarrow> nat \<Rightarrow> gps_ring \<Rightarrow> lookup" where
  "lookup_packet start e r = (
     let e = linear_end start e in
     if e - start < 4 then No_Packet
     else if msg_buf r ! start \<noteq> DLE then Lookup_Exit
     else case scan_end r start e 0 of
       None \<Rightarrow> No_Packet
     | Some pos \<Rightarrow> (case unstuff start (pos - 1) (pos - 3) (msg_buf r) of
         (buf, p) \<Rightarrow> Found (Suc p mod MSG_BUF_SIZE) (pos mod MSG_BUF_SIZE) (r\<lparr>msg_buf := buf\<rparr>)))"

section \<open>process_msg\<close>

text \<open>The pointers of a position request; \<^verbatim>\<open>None\<close> is the null pointer.\<close>

record lassen_ctl = gps_common +
  latitude_p :: "fp option"
  longitude_p :: "fp option"
  altitude_p :: "fp option"

record lassen =
  l_ring :: gps_ring
  l_ctl :: lassen_ctl

text \<open>\<^verbatim>\<open>msg k\<close> is \<^verbatim>\<open>msg_buf[(start + k) % MSG_BUF_SIZE]\<close>.  \<^verbatim>\<open>number_buf\<close> receives \<^verbatim>\<open>n\<close> bytes in reverse order.\<close>

definition number_buf :: "(nat \<Rightarrow> u8) \<Rightarrow> nat \<Rightarrow> nat \<Rightarrow> u8 list" where
  "number_buf msg off n = map (\<lambda>x. msg (off + n - x)) [0..<n]"

definition float_at :: "(nat \<Rightarrow> u8) \<Rightarrow> nat \<Rightarrow> fp" where
  "float_at msg off = float_of_bits (bytes_word (number_buf msg off 4))"

definition SEC_WEEK :: int where "SEC_WEEK = 604800"

definition SEC_GPS_EPOCH :: int where "SEC_GPS_EPOCH = 315964800"

text \<open>The value stored by \<^verbatim>\<open>GPS_MSG_TIME\<close>; \<^verbatim>\<open>None\<close> when a number that is not finite is converted to an
  integer, which is undefined in C.\<close>

definition time_reply :: "'e lassen_env_scheme \<Rightarrow> (nat \<Rightarrow> u8) \<Rightarrow> timeval option" where
  "time_reply env msg = do {
     time_of_week \<leftarrow> float_at msg 0;
     offset \<leftarrow> float_at msg 6;
     time_sec \<leftarrow> rnd32 env (time_of_week - offset);
     let week_num = (bytes_word (number_buf msg 4 2) :: u16);
     whole \<leftarrow> rnd32 env (of_int (c_trunc time_sec));
     fraction \<leftarrow> rnd32 env (time_sec - whole);
     usec \<leftarrow> rnd64 env (fraction * 1000000);
     Some (of_int (SEC_GPS_EPOCH + SEC_WEEK * sint week_num + c_trunc time_sec), of_int (c_trunc usec))
   }"

text \<open>\<^verbatim>\<open>x / PI * 180\<close> in double precision, stored as \<^verbatim>\<open>float\<close>.\<close>

definition degrees :: "'e lassen_env_scheme \<Rightarrow> fp \<Rightarrow> fp" where
  "degrees env x = do {
     x \<leftarrow> x;
     p \<leftarrow> rnd64 env (31415926535898 / 10000000000000);
     q \<leftarrow> rnd64 env (x / p);
     d \<leftarrow> rnd64 env (q * 180);
     rnd32 env d
   }"

definition handle_health :: "'e gps_env_scheme \<Rightarrow> (nat \<Rightarrow> u8) \<Rightarrow> lassen_ctl \<Rightarrow> lassen_ctl option" where
  "handle_health env msg c = do {
     c \<leftarrow> (if msg 1 = 2 then do {
             c \<leftarrow> uart_write env reset_msg c;
             let c = (if gps_state c = GPS_QUERY then signal_reply env c else c);
             Some (c\<lparr>gps_fault := GPS_NEEDED_RESET, gps_state := GPS_RESET\<rparr>)
           } else Some (c\<lparr>gps_fault := GPS_OK\<rparr>));
     Some (if drop_bit 4 (msg 2) = 3 then c\<lparr>gps_fault := GPS_ANTENA_SHORT\<rparr>
           else if drop_bit 4 (msg 2) = 1 then c\<lparr>gps_fault := GPS_ANTENA_OPEN\<rparr>
           else if bit (msg 2) 0 then c\<lparr>gps_fault := GPS_BATTERY_FAULT\<rparr>
           else c)
   }"

definition handle_query :: "'e lassen_env_scheme \<Rightarrow> (nat \<Rightarrow> u8) \<Rightarrow> lassen_ctl \<Rightarrow> lassen_ctl option" where
  "handle_query env msg c =
     (if msg 0 = GPS_MSG_RECEIVER_HEALTH then
        Some (if msg 1 \<noteq> 0 then signal_reply env (c\<lparr>gps_state := GPS_SEARCH\<rparr>) else c)
      else if msg 0 = GPS_MSG_TIME then
        (if current_time c = None then Some c
         else do {
           tv \<leftarrow> time_reply env msg;
           Some (signal_reply env (c\<lparr>current_time := Some tv, gps_state := GPS_READY\<rparr>))
         })
      else if msg 0 = GPS_MSG_LLA then
        (if latitude_p c = None then Some c
         else Some (signal_reply env (c\<lparr>latitude_p := Some (degrees env (float_at msg 0)),
                longitude_p := Some (degrees env (float_at msg 4)),
                altitude_p := Some (float_at msg 8), gps_state := GPS_READY\<rparr>)))
      else Some c)"

definition handle_msg :: "'e lassen_env_scheme \<Rightarrow> (nat \<Rightarrow> u8) \<Rightarrow> lassen_ctl \<Rightarrow> lassen_ctl option" where
  "handle_msg env msg c = do {
     c \<leftarrow> (if msg 0 = GPS_MSG_RECEIVER_HEALTH then handle_health env msg c else Some c);
     if gps_state c = GPS_RESET then
       Some (if msg 0 = GPS_MSG_SW_VERSION then c\<lparr>gps_state := GPS_SEARCH\<rparr> else c)
     else if gps_state c = GPS_SEARCH then
       Some (if msg 0 = GPS_MSG_RECEIVER_HEALTH \<and> msg 1 = 0 then c\<lparr>gps_state := GPS_READY\<rparr> else c)
     else if gps_state c = GPS_READY then
       Some (if msg 0 = GPS_MSG_RECEIVER_HEALTH \<and> msg 1 \<noteq> 0 then c\<lparr>gps_state := GPS_SEARCH\<rparr> else c)
     else handle_query env msg c
   }"

text \<open>One turn of the loop.\<close>

definition process_msg :: "'e lassen_env_scheme \<Rightarrow> lassen \<Rightarrow> lassen proc" where
  "process_msg env s = (
     case lookup_packet (buff_start (l_ring s)) (buff_end (l_ring s)) (l_ring s) of
       No_Packet \<Rightarrow> Waiting s
     | Lookup_Exit \<Rightarrow> Exited
     | Found start e r \<Rightarrow>
         (case handle_msg env (\<lambda>k. ring_at r (start + k)) (l_ctl s) of
            None \<Rightarrow> Exited
          | Some c \<Rightarrow> Running (s\<lparr>l_ring := r\<lparr>buff_start := linear_end start e mod MSG_BUF_SIZE\<rparr>, l_ctl := c\<rparr>)))"

section \<open>The calls of the program\<close>

definition init_gps :: "'e gps_env_scheme \<Rightarrow> bool \<Rightarrow> bool \<Rightarrow> lassen_ctl \<Rightarrow> lassen_ctl option" where
  "init_gps env indoor reset c = do {
     c \<leftarrow> (if reset then do {
             c \<leftarrow> uart_write env (if indoor then enhance_sensitivity_on_msg else enhance_sensitivity_off_msg) c;
             c \<leftarrow> uart_write env reset_msg c;
             Some (c\<lparr>gps_state := GPS_RESET\<rparr>)
           } else Some (c\<lparr>gps_state := GPS_SEARCH\<rparr>));
     c \<leftarrow> uart_write env config_auto_report_msg c;
     if \<not> reset then uart_write env request_health_msg c else Some c
   }"

text \<open>\<^verbatim>\<open>uart_init\<close>: \<^verbatim>\<open>fd\<close> is what \<^verbatim>\<open>open\<close> returned; the reading thread starts before the driver is
  initialised, and its messages are ignored until then.\<close>

definition uart_init :: "'e gps_env_scheme \<Rightarrow> int \<Rightarrow> bool \<Rightarrow> bool \<Rightarrow> lassen_ctl \<Rightarrow> lassen_ctl option" where
  "uart_init env fd indoor reset c = (if fd = - 1 then None else init_gps env indoor reset c)"

text \<open>\<^verbatim>\<open>v\<close> is what the caller's variable holds before the call.\<close>

definition getGPStimeUTC :: "'e gps_env_scheme \<Rightarrow> timeval \<Rightarrow> lassen_ctl \<Rightarrow> lassen_ctl call option" where
  "getGPStimeUTC env v c =
     (if gps_state c \<noteq> GPS_READY \<or> current_time c \<noteq> None then Some (Returned 1 c)
      else do {
        c \<leftarrow> uart_write env request_time_msg c;
        Some (Blocks (c\<lparr>current_time := Some v, gps_state := GPS_QUERY, blocked := blocked c @ [Time_Caller]\<rparr>))
      })"

definition getGPSLLA :: "'e gps_env_scheme \<Rightarrow> fp \<Rightarrow> fp \<Rightarrow> fp \<Rightarrow> lassen_ctl \<Rightarrow> lassen_ctl call option" where
  "getGPSLLA env lat lon alt c =
     (if gps_state c \<noteq> GPS_READY \<or> latitude_p c \<noteq> None then Some (Returned 1 c)
      else do {
        c \<leftarrow> uart_write env request_position_msg c;
        Some (Blocks (c\<lparr>latitude_p := Some lat, longitude_p := Some lon, altitude_p := Some alt,
               gps_state := GPS_QUERY, blocked := blocked c @ [LLA_Caller]\<rparr>))
      })"

text \<open>A released caller that has the lock again: it waits once more while the state is \<^verbatim>\<open>GPS_QUERY\<close>,
  otherwise it returns and resets its pointer.\<close>

definition caller_resumes :: "caller \<Rightarrow> lassen_ctl \<Rightarrow> lassen_ctl call" where
  "caller_resumes w c = (
     let c = c\<lparr>woken := remove1 w (woken c)\<rparr> in
     if gps_state c = GPS_QUERY then Blocks (c\<lparr>blocked := blocked c @ [w]\<rparr>)
     else Returned (if gps_state c \<noteq> GPS_READY then 2 else 0)
       (case w of Time_Caller \<Rightarrow> c\<lparr>current_time := None\<rparr> | LLA_Caller \<Rightarrow> c\<lparr>latitude_p := None\<rparr>))"

definition is_gps_ready :: "lassen_ctl \<Rightarrow> bool" where
  "is_gps_ready c = (gps_state c = GPS_READY)"

definition getgpssatellites :: "lassen_ctl \<Rightarrow> u32" where
  "getgpssatellites c = num_satellites c"

definition getgpsfault :: "lassen_ctl \<Rightarrow> gps_fault_t" where
  "getgpsfault c = gps_fault c"

definition lassen_read :: "uart_read \<Rightarrow> lassen \<Rightarrow> lassen option" where
  "lassen_read rd s = map_option (\<lambda>r. s\<lparr>l_ring := r\<rparr>) (uart_read_thread (gps_state (l_ctl s)) rd (l_ring s))"

definition lassen_ctl0 :: lassen_ctl where
  "lassen_ctl0 = \<lparr>gps_state = GPS_PRE_INIT, gps_fault = GPS_OK, num_satellites = 0, current_time = None,
     gps_out = [], blocked = [], woken = [], latitude_p = None, longitude_p = None, altitude_p = None\<rparr>"

section \<open>TSIP frames\<close>

definition stuff :: "u8 list \<Rightarrow> u8 list" where
  "stuff m = concat (map (\<lambda>b. if b = DLE then [b, b] else [b]) m)"

definition tsip_frame :: "u8 list \<Rightarrow> u8 list" where
  "tsip_frame m = [DLE] @ stuff m @ [DLE, ETX]"

text \<open>The bytes of a message the driver looks msg, by its identifier.\<close>

definition tsip_length :: "u8 \<Rightarrow> nat" where
  "tsip_length i = (if i = GPS_MSG_RECEIVER_HEALTH then 3 else if i = GPS_MSG_TIME then 11
     else if i = GPS_MSG_LLA then 13 else 1)"

definition tsip_msg :: "u8 list \<Rightarrow> bool" where
  "tsip_msg m \<longleftrightarrow> m \<noteq> [] \<and> hd m \<noteq> DLE \<and> hd m \<noteq> ETX \<and> tsip_length (hd m) \<le> length m"

declare scan_end.simps [simp del] unstuff.simps [simp del]

lemma stuff_simps [simp]:
  "stuff [] = []" "stuff (b # m) = (if b = DLE then [b, b] else [b]) @ stuff m"
  "stuff (m @ m') = stuff m @ stuff m'"
  by (simp_all add: stuff_def)

lemma length_stuff: "length m \<le> length (stuff m)"
  by (induction m) simp_all

lemma length_concat_pairs:
  "length (concat (map (\<lambda>b. if P b then [b, b] else [b]) m)) \<le> 2 * length m"
  by (induction m) auto

lemma DLE_ETX [simp]: "DLE \<noteq> ETX" "ETX \<noteq> DLE"
  by (simp_all add: DLE_def ETX_def)

text \<open>The scan for the end of a message on the bytes of the buffer in order: the number of
  bytes up to and with the \<^verbatim>\<open>ETX\<close>.\<close>

primrec scan_list :: "u8 list \<Rightarrow> nat \<Rightarrow> nat option" where
  "scan_list [] n = None"
| "scan_list (b # bs) n =
     (if b = DLE then map_option Suc (scan_list bs (Suc n))
      else if b = ETX \<and> odd n then Some 1
      else map_option Suc (scan_list bs 0))"

lemma scan_end_list:
  "scan_end r pos e n = map_option ((+) pos) (scan_list (map (ring_at r) [pos..<e]) n)"
proof (induction r pos e n rule: scan_end.induct)
  case (1 r pos e n)
  show ?case
  proof (cases "pos < e")
    case True
    have "[pos..<e] = pos # [Suc pos..<e]" using True by (rule upt_conv_Cons)
    moreover have "map_option ((+) pos) (map_option Suc z) = map_option (\<lambda>a. Suc (pos + a)) z" for z
      by (cases z) simp_all
    ultimately show ?thesis using 1 True by (subst scan_end.simps) simp
  qed (subst scan_end.simps, simp)
qed

lemma scan_list_bound: "scan_list xs n = Some k \<Longrightarrow> k \<le> length xs"
  by (induction xs arbitrary: n k) (auto split: if_splits)

lemma scan_list_append:
  "scan_list xs n = Some k \<Longrightarrow> scan_list (xs @ ys) n = Some k"
  by (induction xs arbitrary: n k) (auto split: if_splits)

lemma scan_list_stuffed:
  "even n \<Longrightarrow> scan_list (stuff m @ DLE # ETX # rest) n = Some (length (stuff m) + 2)"
  by (induction m arbitrary: n) simp_all

lemma scan_list_frame:
  assumes "tsip_msg m"
  shows "scan_list (tsip_frame m @ rest) 0 = Some (length (tsip_frame m))"
proof -
  obtain i d where m: "m = i # d" "i \<noteq> DLE" "i \<noteq> ETX"
    using assms by (cases m) (auto simp: tsip_msg_def)
  then show ?thesis using scan_list_stuffed [of 0 d rest] by (simp add: tsip_frame_def)
qed

lemma scan_list_partial:
  assumes "tsip_msg m" "strict_prefix xs (tsip_frame m)"
  shows "scan_list xs 0 = None"
proof (rule ccontr)
  assume "scan_list xs 0 \<noteq> None"
  then obtain k where k: "scan_list xs 0 = Some k" by auto
  obtain ys where ys: "tsip_frame m = xs @ ys" "ys \<noteq> []"
    using assms(2) by (auto simp: strict_prefix_def prefix_def)
  have "scan_list (tsip_frame m) 0 = Some k" using scan_list_append [OF k] ys(1) by simp
  then have "k = length (tsip_frame m)" using scan_list_frame [OF assms(1), of "[]"] by simp
  with scan_list_bound [OF k] ys show False by simp
qed

section \<open>The message is unstuffed in place\<close>

lemma nth_update_ring:
  assumes "length buf = MSG_BUF_SIZE" "i < j" "j < i + MSG_BUF_SIZE"
  shows "buf[j mod MSG_BUF_SIZE := v] ! (i mod MSG_BUF_SIZE) = buf ! (i mod MSG_BUF_SIZE)"
    "buf[j mod MSG_BUF_SIZE := v] ! (j mod MSG_BUF_SIZE) = v"
    "buf[i mod MSG_BUF_SIZE := v] ! (j mod MSG_BUF_SIZE) = buf ! (j mod MSG_BUF_SIZE)"
  using mod_distinct [OF assms(2,3)] assms(1) by (simp_all add: MSG_BUF_SIZE_def)

text \<open>One turn of the loop moves the last byte of the message.\<close>

lemma unstuff_byte:
  assumes len: "length buf = MSG_BUF_SIZE" and hd: "hd (m @ [b]) \<noteq> DLE"
    and pos: "start + length (stuff (m @ [b])) < pos" "pos < start + MSG_BUF_SIZE"
    and msg: "\<And>k. k < length (stuff (m @ [b])) \<Longrightarrow> buf ! ((start + 1 + k) mod MSG_BUF_SIZE) = stuff (m @ [b]) ! k"
  shows "unstuff start pos (start + length (stuff (m @ [b]))) buf =
    unstuff start (pos - 1) (start + length (stuff m)) (buf[pos mod MSG_BUF_SIZE := b])"
proof -
  define j where "j = start + length (stuff (m @ [b]))"
  define buf1 where "buf1 = buf[pos mod MSG_BUF_SIZE := b]"
  have j: "start < j" "j < pos" using pos by (simp_all add: j_def)
  have same: "buf1 ! (i mod MSG_BUF_SIZE) = buf ! (i mod MSG_BUF_SIZE)" if "start \<le> i" "i < pos" for i
    using that pos len unfolding buf1_def by (intro nth_update_ring) simp_all
  have b: "buf ! (j mod MSG_BUF_SIZE) = b"
    using msg [of "length (stuff (m @ [b])) - 1"] by (auto simp: j_def nth_append split: if_splits)
  then have here: "buf1 ! (j mod MSG_BUF_SIZE) = b" using same [of j] j by simp
  have pair: "buf1 ! ((j - 1) mod MSG_BUF_SIZE) = DLE" if "b = DLE"
    using msg [of "length (stuff m)"] same [of "j - 1"] j that by (simp add: j_def nth_append)
  have "(if buf1 ! (j mod MSG_BUF_SIZE) = DLE \<and> buf1 ! ((j - 1) mod MSG_BUF_SIZE) = DLE then j - 2 else j - 1)
      = start + length (stuff m)"
    using here pair by (cases "b = DLE") (simp_all add: j_def)
  then show ?thesis
    using j(1) by (simp only: j_def [symmetric]) (subst unstuff.simps, simp add: b buf1_def [symmetric])
qed

text \<open>The whole loop: the message stands behind the returned position, and what follows it
  in the buffer is as before.\<close>

lemma unstuff_message:
  assumes "length buf = MSG_BUF_SIZE" "m \<noteq> [] \<Longrightarrow> hd m \<noteq> DLE"
    and "start + length (stuff m) < pos" "pos < start + MSG_BUF_SIZE"
    and "\<And>k. k < length (stuff m) \<Longrightarrow> buf ! ((start + 1 + k) mod MSG_BUF_SIZE) = stuff m ! k"
  shows "\<exists>buf'. unstuff start pos (start + length (stuff m)) buf = (buf', pos - length m) \<and>
    length buf' = MSG_BUF_SIZE \<and>
    (\<forall>k<length m. buf' ! ((pos - length m + 1 + k) mod MSG_BUF_SIZE) = m ! k) \<and>
    (\<forall>j. pos < j \<and> j < start + MSG_BUF_SIZE \<longrightarrow> buf' ! (j mod MSG_BUF_SIZE) = buf ! (j mod MSG_BUF_SIZE))"
  using assms
proof (induction m arbitrary: buf pos rule: rev_induct)
  case Nil
  then show ?case by (subst unstuff.simps) simp
next
  case (snoc b m)
  define buf1 where "buf1 = buf[pos mod MSG_BUF_SIZE := b]"
  have pos: "start + length (stuff (m @ [b])) < pos" "pos < start + MSG_BUF_SIZE" using snoc.prems by simp_all
  have step: "unstuff start pos (start + length (stuff (m @ [b]))) buf =
      unstuff start (pos - 1) (start + length (stuff m)) buf1"
    unfolding buf1_def using snoc.prems by (intro unstuff_byte) simp_all
  have "buf1 ! ((start + 1 + k) mod MSG_BUF_SIZE) = stuff m ! k" if "k < length (stuff m)" for k
  proof -
    have "buf1 ! ((start + 1 + k) mod MSG_BUF_SIZE) = buf ! ((start + 1 + k) mod MSG_BUF_SIZE)"
      using that pos snoc.prems(1) unfolding buf1_def by (intro nth_update_ring) simp_all
    then show ?thesis using snoc.prems(5) [of k] that by (simp add: nth_append)
  qed
  moreover have "m \<noteq> [] \<Longrightarrow> hd m \<noteq> DLE" using snoc.prems(2) by simp
  moreover have "start + length (stuff m) < pos - 1" "pos - 1 < start + MSG_BUF_SIZE"
    using pos by (simp_all split: if_splits)
  ultimately obtain buf' where buf':
    "unstuff start (pos - 1) (start + length (stuff m)) buf1 = (buf', pos - 1 - length m)"
    "length buf' = MSG_BUF_SIZE"
    "\<forall>k<length m. buf' ! ((pos - 1 - length m + 1 + k) mod MSG_BUF_SIZE) = m ! k"
    "\<forall>j. pos - 1 < j \<and> j < start + MSG_BUF_SIZE \<longrightarrow> buf' ! (j mod MSG_BUF_SIZE) = buf1 ! (j mod MSG_BUF_SIZE)"
    using snoc.IH [of buf1 "pos - 1"] snoc.prems(1) by (auto simp: buf1_def)
  have "buf1 ! (pos mod MSG_BUF_SIZE) = b" using snoc.prems(1) by (simp add: buf1_def MSG_BUF_SIZE_def)
  moreover have lm: "Suc (length m) < pos" using pos length_stuff [of "m @ [b]"] by simp
  ultimately have "buf' ! ((pos - length (m @ [b]) + 1 + k) mod MSG_BUF_SIZE) = (m @ [b]) ! k"
    if "k < length (m @ [b])" for k
    using that buf'(3,4) pos by (cases "k = length m") (simp_all add: nth_append)
  moreover have "buf' ! (j mod MSG_BUF_SIZE) = buf ! (j mod MSG_BUF_SIZE)"
    if "pos < j" "j < start + MSG_BUF_SIZE" for j
    using that buf'(4) pos nth_update_ring(3) [of buf pos j] snoc.prems(1) by (simp add: buf1_def)
  ultimately show ?case using buf'(1,2) step by simp
qed

lemma length_tsip_frame: "length (tsip_frame m) = length (stuff m) + 3"
  by (simp add: tsip_frame_def)

lemma tsip_frame_nonempty [simp]: "tsip_frame m \<noteq> []" "[] \<noteq> tsip_frame m"
  by (simp_all add: tsip_frame_def)

lemma lookup_packet_frame:
  assumes ok: "gps_ring_ok r" and m: "tsip_msg m" and c: "contents r = tsip_frame m @ rest"
  shows "\<exists>start r'. lookup_packet (buff_start r) (buff_end r) r
      = Found start ((buff_start r + length (tsip_frame m)) mod MSG_BUF_SIZE) r' \<and>
    length (msg_buf r') = MSG_BUF_SIZE \<and> buff_start r' = buff_start r \<and> buff_end r' = buff_end r \<and>
    (\<forall>k<length m. ring_at r' (start + k) = m ! k) \<and>
    (\<forall>i. length (tsip_frame m) \<le> i \<and> i < used r \<longrightarrow> ring_at r' (buff_start r + i) = ring_at r (buff_start r + i))"
proof -
  let ?s = "buff_start r" and ?n = "length (tsip_frame m)"
  have used: "?n \<le> used r" using arg_cong [OF c, of length] by simp
  have n: "?n = length (stuff m) + 3" by (rule length_tsip_frame)
  have pos: "?s + length (stuff m) < ?s + ?n - 1" "?s + ?n - 1 < ?s + MSG_BUF_SIZE"
    using used used_less [OF ok] n by simp_all
  have "m \<noteq> []" "hd m \<noteq> DLE" using m by (simp_all add: tsip_msg_def)
  then have four: "\<not> ?s + used r - ?s < 4" using used n length_stuff [of m] by (cases m) simp_all
  have "contents r ! 0 = DLE" using c by (simp add: tsip_frame_def)
  then have dle: "msg_buf r ! ?s = DLE"
    using contents_nth [of 0 r] used n ok by (simp add: ring_at_def gps_ring_ok_def)
  have scan: "scan_end r ?s (?s + used r) 0 = Some (?s + ?n)"
    using scan_list_frame [OF m, of rest] c by (simp add: scan_end_list contents_def)
  have body: "msg_buf r ! ((?s + 1 + k) mod MSG_BUF_SIZE) = stuff m ! k" if "k < length (stuff m)" for k
  proof -
    have "contents r ! (1 + k) = stuff m ! k" using that c by (simp add: tsip_frame_def nth_append)
    then show ?thesis using contents_nth [of "1 + k" r] used n that by (simp add: ring_at_def)
  qed
  have "length (msg_buf r) = MSG_BUF_SIZE" using ok by (simp add: gps_ring_ok_def)
  from unstuff_message [OF this \<open>hd m \<noteq> DLE\<close> pos body] obtain buf where
    buf: "unstuff ?s (?s + ?n - 1) (?s + length (stuff m)) (msg_buf r) = (buf, ?s + ?n - 1 - length m)"
      "length buf = MSG_BUF_SIZE"
      "\<forall>k<length m. buf ! ((?s + ?n - 1 - length m + 1 + k) mod MSG_BUF_SIZE) = m ! k"
      "\<forall>j. ?s + ?n - 1 < j \<and> j < ?s + MSG_BUF_SIZE \<longrightarrow> buf ! (j mod MSG_BUF_SIZE) = msg_buf r ! (j mod MSG_BUF_SIZE)"
    by blast
  let ?r = "r\<lparr>msg_buf := buf\<rparr>" and ?start = "Suc (?s + ?n - 1 - length m) mod MSG_BUF_SIZE"
  have "?s + ?n - 3 = ?s + length (stuff m)" using n by simp
  then have "lookup_packet ?s (buff_end r) r = Found ?start ((?s + ?n) mod MSG_BUF_SIZE) ?r"
    using four dle scan buf(1) by (simp add: lookup_packet_def Let_def flip: start_used [OF ok])
  moreover have "\<forall>k<length m. ring_at ?r (?start + k) = m ! k"
    using buf(3) by (simp add: ring_at_def mod_add_left_eq)
  moreover have "\<forall>i. ?n \<le> i \<and> i < used r \<longrightarrow> ring_at ?r (?s + i) = ring_at r (?s + i)"
    using buf(4) used_less [OF ok] n by (simp add: ring_at_def)
  ultimately show ?thesis using buf(2) by (intro exI [of _ ?start] exI [of _ ?r]) simp
qed

lemma lookup_packet_partial:
  assumes ok: "gps_ring_ok r" and m: "tsip_msg m" and p: "strict_prefix (contents r) (tsip_frame m)"
  shows "lookup_packet (buff_start r) (buff_end r) r = No_Packet"
proof (cases "used r < 4")
  case False
  obtain ys where "tsip_frame m = contents r @ ys" using p by (auto simp: strict_prefix_def prefix_def)
  then have "contents r ! 0 = DLE"
    using False by (cases "contents r") (auto simp: tsip_frame_def simp flip: length_contents)
  then have "msg_buf r ! buff_start r = DLE"
    using contents_nth [of 0 r] False ok by (simp add: ring_at_def gps_ring_ok_def)
  moreover have "scan_end r (buff_start r) (buff_start r + used r) 0 = None"
    using scan_list_partial [OF m p] by (simp add: scan_end_list contents_def)
  ultimately show ?thesis using False by (simp add: lookup_packet_def Let_def flip: start_used [OF ok])
qed (simp add: lookup_packet_def Let_def flip: start_used [OF ok])

section \<open>The driver handles a stream of messages\<close>

text \<open>A message that is long enough for its identifier is handled by its own bytes alone.\<close>

lemma tsip_ids [simp]:
  "GPS_MSG_TIME \<noteq> GPS_MSG_RECEIVER_HEALTH" "GPS_MSG_RECEIVER_HEALTH \<noteq> GPS_MSG_TIME"
  "GPS_MSG_LLA \<noteq> GPS_MSG_RECEIVER_HEALTH" "GPS_MSG_RECEIVER_HEALTH \<noteq> GPS_MSG_LLA"
  "GPS_MSG_LLA \<noteq> GPS_MSG_TIME" "GPS_MSG_TIME \<noteq> GPS_MSG_LLA"
  "GPS_MSG_SW_VERSION \<noteq> GPS_MSG_RECEIVER_HEALTH" "GPS_MSG_RECEIVER_HEALTH \<noteq> GPS_MSG_SW_VERSION"
  "GPS_MSG_SW_VERSION \<noteq> GPS_MSG_TIME" "GPS_MSG_TIME \<noteq> GPS_MSG_SW_VERSION"
  by (simp_all add: GPS_MSG_TIME_def GPS_MSG_LLA_def GPS_MSG_RECEIVER_HEALTH_def GPS_MSG_SW_VERSION_def)

lemma number_buf_cong:
  "(\<And>k. k \<le> off + n \<Longrightarrow> f k = g k) \<Longrightarrow> number_buf f off n = number_buf g off n"
  by (simp add: number_buf_def)

lemma time_reply_cong:
  assumes "\<And>k. k \<le> 10 \<Longrightarrow> f k = g k"
  shows "time_reply env f = time_reply env g"
  using assms number_buf_cong [of 0 4 f g] number_buf_cong [of 6 4 f g] number_buf_cong [of 4 2 f g]
  by (simp add: time_reply_def float_at_def)

lemma handle_query_cong:
  assumes "\<And>k. k < tsip_length (f 0) \<Longrightarrow> f k = g k" "f 0 = g 0"
  shows "handle_query env f c = handle_query env g c"
proof -
  consider "f 0 = GPS_MSG_RECEIVER_HEALTH" | "f 0 = GPS_MSG_TIME" | "f 0 = GPS_MSG_LLA"
    | "f 0 \<notin> {GPS_MSG_RECEIVER_HEALTH, GPS_MSG_TIME, GPS_MSG_LLA}" by blast
  then show ?thesis
  proof cases
    case 1
    then have "f 1 = g 1" using assms by (simp add: tsip_length_def)
    then show ?thesis using 1 assms(2) by (simp add: handle_query_def)
  next
    case 2
    then have "time_reply env f = time_reply env g"
      using assms by (intro time_reply_cong) (simp add: tsip_length_def)
    then show ?thesis using 2 assms(2) by (simp add: handle_query_def)
  next
    case 3
    then have eq: "f k = g k" if "k < 13" for k
      using assms that by (simp add: tsip_length_def)
    have "float_at f off = float_at g off" if "off \<le> 8" for off
      using number_buf_cong [of off 4 f g] eq that by (simp add: float_at_def)
    then show ?thesis using 3 assms(2) by (simp add: handle_query_def)
  next
    case 4
    then show ?thesis using assms(2) by (simp add: handle_query_def)
  qed
qed

lemma handle_msg_cong:
  assumes eq: "\<And>k. k < tsip_length (f 0) \<Longrightarrow> f k = g k" and "f 0 = g 0"
  shows "handle_msg env f c = handle_msg env g c"
proof (cases "f 0 = GPS_MSG_RECEIVER_HEALTH")
  case True
  then have g: "g 0 = GPS_MSG_RECEIVER_HEALTH" "f 1 = g 1" "f 2 = g 2"
    using assms by (simp_all add: tsip_length_def)
  then have "handle_health env f c = handle_health env g c" by (simp only: handle_health_def)
  moreover have "handle_query env f = handle_query env g"
    using assms by (intro ext handle_query_cong)
  ultimately show ?thesis using True g by (simp only: handle_msg_def)
next
  case False
  then show ?thesis using assms handle_query_cong [of f g env] by (simp add: handle_msg_def)
qed

definition lassen_handle :: "'e lassen_env_scheme \<Rightarrow> u8 list \<Rightarrow> lassen_ctl \<Rightarrow> lassen_ctl option" where
  "lassen_handle env m = handle_msg env ((!) m)"

abbreviation lassen_live :: "lassen_ctl \<Rightarrow> bool" where
  "lassen_live c \<equiv> gps_state c \<noteq> GPS_PRE_INIT"

lemma handle_query_live:
  "handle_query env f c = Some c' \<Longrightarrow> lassen_live c \<Longrightarrow> lassen_live c'"
  by (auto simp: handle_query_def split: if_splits bind_splits)

lemma handle_health_live:
  "handle_health env f c = Some c' \<Longrightarrow> lassen_live c \<Longrightarrow> lassen_live c'"
  by (auto simp: handle_health_def uart_write_def Let_def split: if_splits bind_splits)

lemma handle_msg_live:
  "handle_msg env f c = Some c' \<Longrightarrow> lassen_live c \<Longrightarrow> lassen_live c'"
  unfolding handle_msg_def
  by (auto split: if_splits bind_splits dest: handle_query_live handle_health_live)

lemma lassen_read_appends:
  assumes "gps_ring_ok (l_ring s)" "lassen_live (l_ctl s)" "bs \<noteq> []"
    "used (l_ring s) + length bs < MSG_BUF_SIZE"
  shows "\<exists>s'. lassen_read (Uart_Data bs) s = Some s' \<and> gps_ring_ok (l_ring s') \<and>
    contents (l_ring s') = contents (l_ring s) @ bs \<and> l_ctl s' = l_ctl s"
  using output_from_gps_appends [OF assms(1,2,4)] assms(3)
  by (auto simp: lassen_read_def uart_read_thread_def)

lemma process_msg_frame:
  assumes ok: "gps_ring_ok (l_ring s)" and m: "tsip_msg m" and c: "contents (l_ring s) = tsip_frame m @ rest"
    and h: "lassen_handle env m (l_ctl s) = Some c'"
  shows "\<exists>s'. process_msg env s = Running s' \<and> gps_ring_ok (l_ring s') \<and> contents (l_ring s') = rest \<and> l_ctl s' = c'"
proof -
  let ?r = "l_ring s" and ?n = "length (tsip_frame m)"
  obtain start r where l: "lookup_packet (buff_start ?r) (buff_end ?r) ?r
      = Found start ((buff_start ?r + ?n) mod MSG_BUF_SIZE) r"
    and r: "length (msg_buf r) = MSG_BUF_SIZE" "buff_end r = buff_end ?r"
    and msg: "\<And>k. k < length m \<Longrightarrow> ring_at r (start + k) = m ! k"
    and rest: "\<And>i. ?n \<le> i \<Longrightarrow> i < used ?r \<Longrightarrow> ring_at r (buff_start ?r + i) = ring_at ?r (buff_start ?r + i)"
    using lookup_packet_frame [OF ok m c] by blast
  have m0: "0 < length m" "ring_at r (start + 0) = m ! 0" "tsip_length (m ! 0) \<le> length m"
    using m msg [of 0] by (auto simp: tsip_msg_def hd_conv_nth)
  have handle: "handle_msg env (\<lambda>k. ring_at r (start + k)) (l_ctl s) = Some c'"
    using h msg m0 by (subst handle_msg_cong [where g = "(!) m"]) (auto simp: lassen_handle_def)
  let ?r' = "r\<lparr>buff_start := linear_end start ((buff_start ?r + ?n) mod MSG_BUF_SIZE) mod MSG_BUF_SIZE\<rparr>"
  have start: "buff_start ?r' = (buff_start ?r + ?n) mod MSG_BUF_SIZE"
    by (simp add: linear_end_def)
  have "?n \<le> used ?r" using arg_cong [OF c, of length] by simp
  then have "gps_ring_ok ?r'" "contents ?r' = drop ?n (contents ?r)"
    using contents_advance [OF ok, of ?r' ?n] r rest start by (auto simp: ring_at_def)
  then show ?thesis using l handle c by (simp add: process_msg_def)
qed

interpretation lassen: gps_device l_ring l_ctl "\<lambda>c. gps_state c \<noteq> GPS_PRE_INIT" lassen_read "process_msg env"
  tsip_frame tsip_msg "lassen_handle env" for env :: "'e lassen_env_scheme"
proof
  show "process_msg env s = Waiting s" if "gps_ring_ok (l_ring s)" "contents (l_ring s) = []" for s
    using that lookup_packet_partial [of "l_ring s" "[0]"]
    by (simp add: process_msg_def tsip_msg_def tsip_length_def tsip_frame_def DLE_def ETX_def GPS_MSG_TIME_def
        GPS_MSG_LLA_def GPS_MSG_RECEIVER_HEALTH_def)
  show "process_msg env s = Waiting s"
    if "gps_ring_ok (l_ring s)" "tsip_msg m" "strict_prefix (contents (l_ring s)) (tsip_frame m)" for s m
    using lookup_packet_partial [OF that] by (simp add: process_msg_def)
  show "gps_state c' \<noteq> GPS_PRE_INIT" if "gps_state c \<noteq> GPS_PRE_INIT" "lassen_handle env m c = Some c'" for c m c'
    using that handle_msg_live [of env "(!) m" c c'] by (simp add: lassen_handle_def)
qed (use lassen_read_appends process_msg_frame in auto)

text \<open>C12: The messages of the receiver are handled exactly once and in the order they were sent,
  each by its own bytes with the padding removed: for every sequence of well-formed TSIP
  packets, however the serial line cuts them into reads and however many reads
  happen before the processing thread gets the lock, the driver ends with an empty buffer
  and in the state that handling the messages one after the other gives. The
  packets may straddle the end of the circular buffer. \<^verbatim>\<open>F\<close> bounds the length of a packet, and
  the reads of one round leave room for one such packet.\<close>

theorem tsip_stream_handled:
  assumes "gps_ring_ok (l_ring s)" "contents (l_ring s) = []" "gps_state (l_ctl s) \<noteq> GPS_PRE_INIT"
    and "\<forall>m\<in>set ms. tsip_msg m \<and> length (tsip_frame m) \<le> F"
    and "concat (concat rounds) = concat (map tsip_frame ms)"
    and "\<forall>reads\<in>set rounds. [] \<notin> set reads \<and> F + length (concat reads) < MSG_BUF_SIZE"
    and "handle_all (lassen_handle env) ms (l_ctl s) = Some c"
  shows "\<exists>s'. gps_rounds lassen_read (process_msg env) rounds s = Some s' \<and> contents (l_ring s') = [] \<and> l_ctl s' = c"
  using assms by (rule lassen.stream_handled)

section \<open>A request for the time is answered\<close>

lemma number_buf_rev: "number_buf f off n = rev (map f [Suc off..<Suc off + n])"
  by (rule nth_equalityI) (simp_all add: number_buf_def rev_nth Suc_diff_Suc del: upt_Suc)

lemma map_nth_slice: "i + n \<le> length xs \<Longrightarrow> map ((!) xs) [i..<i + n] = take n (drop i xs)"
  by (rule nth_equalityI) auto

text \<open>The time report: the time of week and the offset to UTC as single precision numbers, the
  week number between them, most significant byte first.\<close>

definition time_packet :: "u32 \<Rightarrow> u16 \<Rightarrow> u32 \<Rightarrow> u8 list" where
  "time_packet tow week off = GPS_MSG_TIME # rev (word_bytes 4 tow) @ rev (word_bytes 2 week) @ rev (word_bytes 4 off)"

lemma length_time_packet [simp]: "length (time_packet a w b) = 11"
  by (simp add: time_packet_def del: word_bytes_numeral)

lemma time_packet_0 [simp]: "time_packet a w b ! 0 = GPS_MSG_TIME" "hd (time_packet a w b) = GPS_MSG_TIME"
  by (simp_all add: time_packet_def)

lemma time_packet_fields:
  "number_buf ((!) (time_packet a w b)) 0 4 = word_bytes 4 a"
  "number_buf ((!) (time_packet a w b)) 4 2 = word_bytes 2 w"
  "number_buf ((!) (time_packet a w b)) 6 4 = word_bytes 4 b"
  using map_nth_slice [of 1 4 "time_packet a w b"] map_nth_slice [of 5 2 "time_packet a w b"]
    map_nth_slice [of 7 4 "time_packet a w b"]
  by (simp_all add: number_buf_rev time_packet_def del: word_bytes_numeral upt_Suc)

lemma time_reply_value:
  assumes "float_of_bits a = Some x" "float_of_bits b = Some y" "rnd32 env (x - y) = Some t"
    and "rnd32 env (of_int (c_trunc t)) = Some (of_int (c_trunc t))"
    and "rnd32 env (t - of_int (c_trunc t)) = Some (t - of_int (c_trunc t))"
    and "rnd64 env ((t - of_int (c_trunc t)) * 1000000) = Some ((t - of_int (c_trunc t)) * 1000000)"
  shows "time_reply env ((!) (time_packet a w b)) =
    Some (of_int (315964800 + 604800 * sint w + c_trunc t), of_int (c_trunc ((t - of_int (c_trunc t)) * 1000000)))"
  using assms
  by (simp add: time_reply_def float_at_def time_packet_fields bytes_word_word_bytes SEC_GPS_EPOCH_def SEC_WEEK_def
      del: word_bytes_numeral)

text \<open>The receiver has a fix, the buffer is empty and nobody waits.\<close>

definition lassen_idle :: "lassen \<Rightarrow> bool" where
  "lassen_idle s \<longleftrightarrow> gps_ring_ok (l_ring s) \<and> contents (l_ring s) = [] \<and> gps_state (l_ctl s) = GPS_READY \<and>
     current_time (l_ctl s) = None \<and> latitude_p (l_ctl s) = None \<and> blocked (l_ctl s) = [] \<and> woken (l_ctl s) = []"

text \<open>Messages that do not concern a waiting request.\<close>

definition passes_by :: "u8 list \<Rightarrow> bool" where
  "passes_by m \<longleftrightarrow> tsip_msg m \<and> hd m \<noteq> GPS_MSG_TIME \<and> (hd m = GPS_MSG_RECEIVER_HEALTH \<longrightarrow> m ! 1 = 0)"

definition time_pending :: "lassen_ctl \<Rightarrow> bool" where
  "time_pending c \<longleftrightarrow> gps_state c = GPS_QUERY \<and> current_time c \<noteq> None \<and> latitude_p c = None \<and>
     blocked c = [Time_Caller] \<and> woken c = []"

lemma passes_by_pending:
  assumes "passes_by m" "time_pending c"
  shows "\<exists>c'. lassen_handle env m c = Some c' \<and> time_pending c'"
proof -
  have "m ! 0 = hd m" using assms(1) by (simp add: passes_by_def tsip_msg_def hd_conv_nth)
  then show ?thesis
    using assms
    by (cases "hd m = GPS_MSG_RECEIVER_HEALTH")
       (auto simp: passes_by_def time_pending_def lassen_handle_def handle_msg_def handle_health_def handle_query_def)
qed

lemma passes_by_all:
  "\<forall>m\<in>set ms. passes_by m \<Longrightarrow> time_pending c \<Longrightarrow>
    \<exists>c'. handle_all (lassen_handle env) ms c = Some c' \<and> time_pending c'"
proof (induction ms arbitrary: c)
  case (Cons m ms)
  then obtain c1 where "lassen_handle env m c = Some c1" "time_pending c1"
    using passes_by_pending by (metis list.set_intros(1))
  with Cons show ?case by auto
qed simp

lemma time_message_releases:
  assumes "time_pending c" "time_reply env ((!) (time_packet a w b)) = Some tv"
  shows "lassen_handle env (time_packet a w b) c =
    Some (c\<lparr>current_time := Some tv, gps_state := GPS_READY, blocked := [], woken := [Time_Caller]\<rparr>)"
  using assms
  by (auto simp: lassen_handle_def handle_msg_def handle_query_def time_pending_def signal_single)

text \<open>C14: A request for the time is answered. When the receiver has a fix and nobody else is
  waiting, \<^verbatim>\<open>getGPStimeUTC\<close> sends its request and blocks; once the bytes of some other messages, none of
  them reporting the loss of the fix, and of the time report have arrived, in any
  division into reads, the caller is released, returns \<^verbatim>\<open>0\<close>, and its structure holds the
  seconds since 1970 (the GPS epoch plus the week number times \<^verbatim>\<open>604800\<close> plus the whole seconds of the
  week minus the offset to UTC) and the microseconds; the driver is ready for the next request. The
  hypotheses on \<^verbatim>\<open>rnd32\<close> and \<^verbatim>\<open>rnd64\<close> say that the values rounded are representable.\<close>

theorem time_request_answered:
  assumes idle: "lassen_idle s"
    and wr: "wr env request_time_msg = 4"
    and fp: "float_of_bits tow = Some x" "float_of_bits off = Some y" "rnd32 env (x - y) = Some t"
      "rnd32 env (of_int (c_trunc t)) = Some (of_int (c_trunc t))"
      "rnd32 env (t - of_int (c_trunc t)) = Some (t - of_int (c_trunc t))"
      "rnd64 env ((t - of_int (c_trunc t)) * 1000000) = Some ((t - of_int (c_trunc t)) * 1000000)"
    and ms: "\<forall>m\<in>set ms. passes_by m \<and> length (tsip_frame m) \<le> F" "25 \<le> F"
    and rounds: "concat (concat rounds) = concat (map tsip_frame (ms @ [time_packet tow week off]))"
      "\<forall>reads\<in>set rounds. [] \<notin> set reads \<and> F + length (concat reads) < MSG_BUF_SIZE"
  shows "\<exists>c1 s' c'. getGPStimeUTC env v (l_ctl s) = Some (Blocks c1) \<and> gps_out c1 = gps_out (l_ctl s) @ [request_time_msg] \<and>
    gps_rounds lassen_read (process_msg env) rounds (s\<lparr>l_ctl := c1\<rparr>) = Some s' \<and>
    woken (l_ctl s') = [Time_Caller] \<and> caller_resumes Time_Caller (l_ctl s') = Returned 0 c' \<and>
    current_time (l_ctl s') = Some (of_int (315964800 + 604800 * sint week + c_trunc t),
      of_int (c_trunc ((t - of_int (c_trunc t)) * 1000000))) \<and>
    gps_state c' = GPS_READY \<and> current_time c' = None \<and> blocked c' = [] \<and> woken c' = []"
proof -
  let ?t = "time_packet tow week off"
  define c1 where "c1 = (l_ctl s)\<lparr>gps_out := gps_out (l_ctl s) @ [request_time_msg],
    current_time := Some v, gps_state := GPS_QUERY, blocked := [Time_Caller]\<rparr>"
  have call: "getGPStimeUTC env v (l_ctl s) = Some (Blocks c1)"
    using idle wr by (simp add: lassen_idle_def getGPStimeUTC_def uart_write_def request_time_msg_def c1_def)
  have "time_pending c1" using idle by (simp add: lassen_idle_def time_pending_def c1_def)
  then obtain c2 where c2: "handle_all (lassen_handle env) ms c1 = Some c2" "time_pending c2"
    using passes_by_all ms(1) by blast
  define c3 where "c3 = c2\<lparr>current_time := Some (of_int (315964800 + 604800 * sint week + c_trunc t),
      of_int (c_trunc ((t - of_int (c_trunc t)) * 1000000))), gps_state := GPS_READY, blocked := [], woken := [Time_Caller]\<rparr>"
  have handled: "handle_all (lassen_handle env) (ms @ [?t]) c1 = Some c3"
    using c2 time_message_releases [OF c2(2) time_reply_value [OF fp]] by (simp add: handle_all_append c3_def)
  have "length (stuff ?t) \<le> 2 * length ?t" unfolding stuff_def by (rule length_concat_pairs)
  then have "length (tsip_frame ?t) \<le> F" using ms(2) by (simp add: length_tsip_frame)
  then have valid: "\<forall>m\<in>set (ms @ [?t]). tsip_msg m \<and> length (tsip_frame m) \<le> F"
    using ms(1) by (auto simp: passes_by_def tsip_msg_def tsip_length_def time_packet_def
        GPS_MSG_TIME_def DLE_def ETX_def GPS_MSG_RECEIVER_HEALTH_def)
  have "gps_state c1 \<noteq> GPS_PRE_INIT" by (simp add: c1_def)
  then have "\<exists>s'. gps_rounds lassen_read (process_msg env) rounds (s\<lparr>l_ctl := c1\<rparr>) = Some s' \<and>
      contents (l_ring s') = [] \<and> l_ctl s' = c3"
    using idle handled by (intro lassen.stream_handled [OF _ _ _ valid rounds]) (simp_all add: lassen_idle_def)
  then obtain s' where "gps_rounds lassen_read (process_msg env) rounds (s\<lparr>l_ctl := c1\<rparr>) = Some s'" "l_ctl s' = c3"
    by blast
  then show ?thesis using call by (simp add: c3_def c1_def caller_resumes_def)
qed

section \<open>The threads of the driver\<close>

text \<open>The steps the threads take under the lock, in any order: the program initialises the
  driver and asks for the time or the position, the serial line delivers a read, the processing
  thread handles a message, and a released caller continues. A wait may also
  end without a signal.\<close>

inductive lassen_step :: "'e lassen_env_scheme \<Rightarrow> lassen \<Rightarrow> lassen \<Rightarrow> bool" for env where
  Init: "gps_state (l_ctl s) = GPS_PRE_INIT \<Longrightarrow> init_gps env indoor reset (l_ctl s) = Some c \<Longrightarrow>
    lassen_step env s (s\<lparr>l_ctl := c\<rparr>)"
| Uart: "lassen_read rd s = Some s' \<Longrightarrow> lassen_step env s s'"
| Process: "gps_state (l_ctl s) \<noteq> GPS_PRE_INIT \<Longrightarrow> process_msg env s = Running s' \<Longrightarrow> lassen_step env s s'"
| Ask_Time: "getGPStimeUTC env v (l_ctl s) = Some (Blocks c) \<Longrightarrow> lassen_step env s (s\<lparr>l_ctl := c\<rparr>)"
| Ask_LLA: "getGPSLLA env x y z (l_ctl s) = Some (Blocks c) \<Longrightarrow> lassen_step env s (s\<lparr>l_ctl := c\<rparr>)"
| Returns: "w \<in> set (woken (l_ctl s)) \<Longrightarrow> caller_resumes w (l_ctl s) = Returned code c \<Longrightarrow>
    lassen_step env s (s\<lparr>l_ctl := c\<rparr>)"
| Blocks_Again: "w \<in> set (woken (l_ctl s)) \<Longrightarrow> caller_resumes w (l_ctl s) = Blocks c \<Longrightarrow>
    lassen_step env s (s\<lparr>l_ctl := c\<rparr>)"
| Spurious: "blocked (l_ctl s) = ws @ w # ws' \<Longrightarrow>
    lassen_step env s (s\<lparr>l_ctl := (l_ctl s)\<lparr>blocked := ws @ ws', woken := woken (l_ctl s) @ [w]\<rparr>\<rparr>)"

text \<open>Exactly one thread waits for each pointer that is not null, and a request is outstanding
  only while one of them is not null.\<close>

definition waiters_ok :: "lassen_ctl \<Rightarrow> bool" where
  "waiters_ok c \<longleftrightarrow>
     mset (blocked c) + mset (woken c) = (if current_time c = None then {#} else {#Time_Caller#}) +
       (if latitude_p c = None then {#} else {#LLA_Caller#}) \<and>
     (gps_state c = GPS_QUERY \<longrightarrow> current_time c \<noteq> None \<or> latitude_p c \<noteq> None)"

definition lassen_ok :: "lassen \<Rightarrow> bool" where
  "lassen_ok s \<longleftrightarrow> gps_ring_ok (l_ring s) \<and> waiters_ok (l_ctl s)"

lemma length_unstuff [simp]: "length (fst (unstuff start pos origin buf)) = length buf"
proof (induction start pos origin buf rule: unstuff.induct)
  case (1 start pos origin buf)
  then show ?case by (subst unstuff.simps) (auto simp: Let_def)
qed

lemma length_unstuff_eq: "unstuff start pos origin buf = (buf', p) \<Longrightarrow> length buf' = length buf"
  using length_unstuff [of start pos origin buf] by simp

lemma lookup_packet_ok:
  assumes "gps_ring_ok r" "lookup_packet (buff_start r) (buff_end r) r = Found start e r'"
  shows "gps_ring_ok (r'\<lparr>buff_start := linear_end start e mod MSG_BUF_SIZE\<rparr>)"
  using assms length_unstuff_eq
  by (auto simp: lookup_packet_def Let_def gps_ring_ok_def MSG_BUF_SIZE_def
      split: if_splits option.splits prod.splits)

lemma mset_remove_nth: "i < length xs \<Longrightarrow> mset (remove_nth i xs) + {#xs ! i#} = mset xs"
proof -
  assume i: "i < length xs"
  have "mset xs = mset (take i xs @ xs ! i # drop (Suc i) xs)" using id_take_nth_drop [OF i] by simp
  then show ?thesis by (simp add: remove_nth_def)
qed

lemma signal_reply_waiters [simp]:
  "mset (blocked (signal_reply env c)) + mset (woken (signal_reply env c)) = mset (blocked c) + mset (woken c)"
  using mset_remove_nth [of "pick env (blocked c) mod length (blocked c)" "blocked c"]
  by (auto simp: signal_reply_def Let_def)

lemma signal_reply_pointers [simp]:
  "latitude_p (signal_reply env c) = latitude_p c"
  by (simp add: signal_reply_def Let_def)

lemma waiters_ok_signal [simp]: "waiters_ok (signal_reply env c) = waiters_ok c"
  using signal_reply_waiters [of env c] by (simp add: waiters_ok_def)

lemma waiters_ok_same:
  assumes "waiters_ok c" "mset (blocked c') + mset (woken c') = mset (blocked c) + mset (woken c)" "current_time c' = None \<longleftrightarrow> current_time c = None"
    "latitude_p c' = None \<longleftrightarrow> latitude_p c = None" "gps_state c' = GPS_QUERY \<Longrightarrow> gps_state c = GPS_QUERY"
  shows "waiters_ok c'"
  using assms by (auto simp: waiters_ok_def)

lemma handle_health_waiters:
  assumes "waiters_ok c" "handle_health env f c = Some c'"
  shows "waiters_ok c'"
  using assms(2) unfolding handle_health_def uart_write_def
  by (intro waiters_ok_same [OF assms(1)]) (auto split: if_splits bind_splits simp: Let_def)

lemma handle_query_waiters:
  assumes "waiters_ok c" "handle_query env f c = Some c'" "gps_state c = GPS_QUERY"
  shows "waiters_ok c'"
  using assms(2,3) unfolding handle_query_def
  by (intro waiters_ok_same [OF assms(1)]) (auto split: if_splits bind_splits)

lemma handle_msg_waiters:
  assumes "waiters_ok c" "handle_msg env f c = Some c'" "gps_state c \<noteq> GPS_PRE_INIT"
  shows "waiters_ok c'"
proof -
  obtain c1 where c1: "(if f 0 = GPS_MSG_RECEIVER_HEALTH then handle_health env f c else Some c) = Some c1"
    using assms(2) by (auto simp: handle_msg_def split: bind_splits)
  then have w: "waiters_ok c1" and l: "gps_state c1 \<noteq> GPS_PRE_INIT"
    using assms handle_health_waiters handle_health_live by (metis option.inject)+
  show ?thesis
  proof (cases "gps_state c1 = GPS_QUERY")
    case True
    then have "handle_query env f c1 = Some c'" using assms(2) c1 by (simp add: handle_msg_def)
    then show ?thesis using handle_query_waiters w True by blast
  next
    case False
    then show ?thesis
      using assms(2) c1 l by (intro waiters_ok_same [OF w]) (cases "gps_state c1"; auto simp: handle_msg_def split: if_splits)+
  qed
qed

lemma caller_resumes_waiters:
  assumes "waiters_ok c" "w \<in> set (woken c)" "caller_resumes w c = Returned code c' \<or> caller_resumes w c = Blocks c'"
  shows "waiters_ok c'"
proof -
  define B W where "B = mset (blocked c)" and "W = mset (remove1 w (woken c))"
  have W: "mset (woken c) = add_mset w W" using assms(2) by (simp add: W_def)
  let ?rest = "(if current_time c = None then {#} else {#Time_Caller#}) +
    (if latitude_p c = None then {#} else {#LLA_Caller#})"
  have sum: "B + add_mset w W = ?rest" using assms(1) by (simp add: waiters_ok_def B_def W)
  then have "w \<in># ?rest" by (metis union_iff union_single_eq_member)
  then have ptr: "w = Time_Caller \<longrightarrow> current_time c \<noteq> None" "w = LLA_Caller \<longrightarrow> latitude_p c \<noteq> None"
    by (auto split: if_splits)
  show ?thesis
  proof (cases "gps_state c = GPS_QUERY")
    case True
    then show ?thesis using assms(3) W
      by (intro waiters_ok_same [OF assms(1)]) (auto simp: caller_resumes_def W_def [symmetric] simp del: mset_remove1)
  next
    case False
    let ?c = "c\<lparr>woken := remove1 w (woken c)\<rparr>"
    have "c' = (case w of Time_Caller \<Rightarrow> ?c\<lparr>current_time := None\<rparr> | LLA_Caller \<Rightarrow> ?c\<lparr>latitude_p := None\<rparr>)"
      using assms(3) False by (auto simp: caller_resumes_def Let_def)
    then have "mset (blocked c') = B" "mset (woken c') = W" "gps_state c' = gps_state c"
      "current_time c' = (if w = Time_Caller then None else current_time c)"
      "latitude_p c' = (if w = LLA_Caller then None else latitude_p c)"
      by (cases w; simp add: B_def W_def)+
    then show ?thesis using sum ptr False by (cases w) (auto simp: waiters_ok_def split: if_splits)
  qed
qed

lemma calls_waiters:
  assumes "waiters_ok c"
  shows "getGPStimeUTC env v c = Some (Blocks c') \<Longrightarrow> waiters_ok c'"
    "getGPSLLA env x y z c = Some (Blocks c') \<Longrightarrow> waiters_ok c'"
    "init_gps env indoor reset c = Some c' \<Longrightarrow> waiters_ok c'"
proof -
  show "waiters_ok c'" if "getGPStimeUTC env v c = Some (Blocks c')"
    using that assms by (auto simp: getGPStimeUTC_def uart_write_def waiters_ok_def split: if_splits bind_splits)
  show "waiters_ok c'" if "getGPSLLA env x y z c = Some (Blocks c')"
    using that assms by (auto simp: getGPSLLA_def uart_write_def waiters_ok_def split: if_splits bind_splits)
  show "waiters_ok c'" if "init_gps env indoor reset c = Some c'"
    using that unfolding init_gps_def uart_write_def
    by (intro waiters_ok_same [OF assms]) (auto split: if_splits bind_splits)
qed

text \<open>C24: The state of the driver stays well formed in every interleaving of its threads: the
  indices of the circular buffer are in range and the buffer keeps its size, whatever bytes the serial
  line delivers; exactly one thread waits for each of the pointers \<^verbatim>\<open>current_time\<close> and \<^verbatim>\<open>current_latitude\<close>
  that is not null, so that a reply is never stored through the pointer of a caller that
  has returned; and the state is \<^verbatim>\<open>GPS_QUERY\<close> only while someone waits.\<close>

theorem lassen_well_formed:
  assumes "(lassen_step env)\<^sup>*\<^sup>* s s'" "lassen_ok s"
  shows "lassen_ok s'"
  using assms
proof (induction rule: rtranclp_induct)
  case (step s1 s2)
  then have ok: "gps_ring_ok (l_ring s1)" "waiters_ok (l_ctl s1)" by (simp_all add: lassen_ok_def)
  from step.hyps(2) show ?case
  proof cases
    case (Uart rd)
    then show ?thesis
      using ok by (auto simp: lassen_ok_def lassen_read_def uart_read_thread_def split: uart_read.splits if_splits
          dest: output_from_gps_ok)
  next
    case Process
    then show ?thesis
      using ok lookup_packet_ok [OF ok(1)] handle_msg_waiters [OF ok(2)]
      by (auto simp: lassen_ok_def process_msg_def split: lookup.splits option.splits)
  next
    case (Spurious ws w ws')
    then show ?thesis using ok by (auto simp: lassen_ok_def intro!: waiters_ok_same [OF ok(2)])
  qed (use ok calls_waiters [OF ok(2)] caller_resumes_waiters [OF ok(2)] in \<open>auto simp: lassen_ok_def\<close>)
qed simp

section \<open>Two requests at the same time\<close>

lemma no_query_no_signal:
  assumes "gps_state c \<noteq> GPS_QUERY" "gps_state c \<noteq> GPS_PRE_INIT" "handle_msg env f c = Some c'"
  shows "gps_state c' \<noteq> GPS_QUERY \<and> blocked c' = blocked c \<and> woken c' = woken c \<and> latitude_p c' = latitude_p c"
  using assms
  by (cases "gps_state c") (auto simp: handle_msg_def handle_health_def uart_write_def split: if_splits bind_splits)

definition stranded :: "lassen_ctl \<Rightarrow> bool" where
  "stranded c \<longleftrightarrow> gps_state c \<noteq> GPS_QUERY \<and> gps_state c \<noteq> GPS_PRE_INIT \<and> latitude_p c \<noteq> None \<and>
     blocked c = [LLA_Caller] \<and> woken c = []"

lemma stranded_stays:
  "stranded c \<Longrightarrow> handle_all (lassen_handle env) ms c = Some c' \<Longrightarrow> stranded c'"
proof (induction ms arbitrary: c)
  case (Cons m ms)
  from Cons.prems(2) obtain c1 where c1: "lassen_handle env m c = Some c1" "handle_all (lassen_handle env) ms c1 = Some c'"
    by (auto split: bind_splits)
  have "stranded c1"
    using Cons.prems(1) c1(1) no_query_no_signal [of c env "(!) m" c1] handle_msg_live [of env "(!) m" c c1]
    unfolding stranded_def lassen_handle_def by simp
  then show ?case using Cons.IH c1(2) by blast
qed simp

lemma stranded_forever:
  assumes "stranded c"
  shows "case handle_all (lassen_handle env) ms c of None \<Rightarrow> True
    | Some c' \<Rightarrow> blocked c' = [LLA_Caller] \<and> woken c' = [] \<and> getGPSLLA env x y z c' = Some (Returned 1 c')"
proof (cases "handle_all (lassen_handle env) ms c")
  case (Some c')
  with stranded_stays [OF assms] have "stranded c'" by blast
  with Some show ?thesis by (simp add: stranded_def getGPSLLA_def)
qed simp

lemma frame_is_processed:
  assumes "gps_ring_ok (l_ring s)" "contents (l_ring s) = []" "gps_state (l_ctl s) \<noteq> GPS_PRE_INIT"
    "tsip_msg m" "length (tsip_frame m) < MSG_BUF_SIZE" "lassen_handle env m (l_ctl s) = Some c"
  shows "\<exists>s'. (lassen_step env)\<^sup>*\<^sup>* s s' \<and> gps_ring_ok (l_ring s') \<and> contents (l_ring s') = [] \<and> l_ctl s' = c"
proof -
  have "used (l_ring s) = 0" using assms(2) by (simp flip: length_contents)
  then obtain s1 where s1: "lassen_read (Uart_Data (tsip_frame m)) s = Some s1" "gps_ring_ok (l_ring s1)"
    "contents (l_ring s1) = tsip_frame m @ []" "l_ctl s1 = l_ctl s"
    using lassen_read_appends [of s "tsip_frame m"] assms by auto
  then obtain s2 where s2: "process_msg env s1 = Running s2" "gps_ring_ok (l_ring s2)"
    "contents (l_ring s2) = []" "l_ctl s2 = c"
    using process_msg_frame [OF s1(2) assms(4) s1(3), of env c] assms(6) by auto
  have "lassen_step env s s1" "lassen_step env s1 s2"
    using lassen_step.Uart [OF s1(1)] lassen_step.Process [of s1 env s2] s1(4) s2(1) assms(3) by simp_all
  then show ?thesis using s2 by (metis converse_rtranclp_into_rtranclp rtranclp.rtrancl_refl)
qed

text \<open>The control states of the run below, one after the other.\<close>

definition lla_packet :: "u8 list" where
  "lla_packet = GPS_MSG_LLA # replicate 12 0"

lemma lla_packet_ok [simp]: "tsip_msg lla_packet" "length (tsip_frame lla_packet) < MSG_BUF_SIZE" "lla_packet ! 0 = GPS_MSG_LLA"
  by (simp_all add: lla_packet_def tsip_msg_def tsip_length_def tsip_frame_def GPS_MSG_LLA_def GPS_MSG_TIME_def
      GPS_MSG_RECEIVER_HEALTH_def DLE_def ETX_def MSG_BUF_SIZE_def stuff_def)

lemma time_packet_ok [simp]: "tsip_msg (time_packet a w b)" "length (tsip_frame (time_packet a w b)) < MSG_BUF_SIZE"
proof -
  show "tsip_msg (time_packet a w b)"
    by (simp add: tsip_msg_def tsip_length_def time_packet_def GPS_MSG_TIME_def DLE_def ETX_def GPS_MSG_RECEIVER_HEALTH_def)
  have "length (stuff (time_packet a w b)) \<le> 2 * length (time_packet a w b)"
    unfolding stuff_def by (rule length_concat_pairs)
  then show "length (tsip_frame (time_packet a w b)) < MSG_BUF_SIZE" by (simp add: length_tsip_frame MSG_BUF_SIZE_def)
qed

lemma two_requests_run:
  assumes idle: "lassen_idle s" and wr: "wr env request_time_msg = 4" "wr env request_position_msg = 4"
    and pick: "pick env [LLA_Caller, Time_Caller] = 1"
    and tv: "time_reply env ((!) (time_packet tow week off)) = Some tv"
  shows "\<exists>s'. (lassen_step env)\<^sup>*\<^sup>* s s' \<and> stranded (l_ctl s')"
proof -
  note idle' = idle [unfolded lassen_idle_def]
  define c1 where "c1 = (l_ctl s)\<lparr>gps_out := gps_out (l_ctl s) @ [request_time_msg],
    current_time := Some (0, 0), gps_state := GPS_QUERY, blocked := [Time_Caller]\<rparr>"
  define c2 where "c2 = c1\<lparr>current_time := Some tv, gps_state := GPS_READY, blocked := [], woken := [Time_Caller]\<rparr>"
  define c3 where "c3 = c2\<lparr>gps_out := gps_out c2 @ [request_position_msg], latitude_p := Some None,
    longitude_p := Some None, altitude_p := Some None, gps_state := GPS_QUERY, blocked := [LLA_Caller]\<rparr>"
  define c4 where "c4 = c3\<lparr>woken := [], blocked := [LLA_Caller, Time_Caller]\<rparr>"
  define c5 where "c5 = c4\<lparr>latitude_p := Some (degrees env (float_at ((!) lla_packet) 0)),
    longitude_p := Some (degrees env (float_at ((!) lla_packet) 4)), altitude_p := Some (float_at ((!) lla_packet) 8),
    gps_state := GPS_READY, blocked := [LLA_Caller], woken := [Time_Caller]\<rparr>"
  define c6 where "c6 = c5\<lparr>woken := [], current_time := None\<rparr>"
  have "getGPStimeUTC env (0, 0) (l_ctl s) = Some (Blocks c1)"
    using idle' wr by (simp add: getGPStimeUTC_def uart_write_def request_time_msg_def c1_def)
  then have 1: "lassen_step env s (s\<lparr>l_ctl := c1\<rparr>)" by (rule lassen_step.Ask_Time)
  have "lassen_handle env (time_packet tow week off) c1 = Some c2"
    unfolding c2_def using idle' by (intro time_message_releases [OF _ tv]) (simp add: time_pending_def c1_def)
  then obtain s2 where 2: "(lassen_step env)\<^sup>*\<^sup>* (s\<lparr>l_ctl := c1\<rparr>) s2" "gps_ring_ok (l_ring s2)"
    "contents (l_ring s2) = []" "l_ctl s2 = c2"
    using frame_is_processed [of "s\<lparr>l_ctl := c1\<rparr>" "time_packet tow week off" env c2] idle' by (auto simp: c1_def)
  have "getGPSLLA env None None None c2 = Some (Blocks c3)"
    using idle' wr by (simp add: getGPSLLA_def uart_write_def request_position_msg_def c1_def c2_def c3_def)
  then have 3: "lassen_step env s2 (s2\<lparr>l_ctl := c3\<rparr>)" using lassen_step.Ask_LLA 2(4) by metis
  have "caller_resumes Time_Caller c3 = Blocks c4" "Time_Caller \<in> set (woken c3)"
    by (simp_all add: caller_resumes_def c2_def c3_def c4_def)
  then have 4: "lassen_step env (s2\<lparr>l_ctl := c3\<rparr>) (s2\<lparr>l_ctl := c4\<rparr>)"
    using lassen_step.Blocks_Again [of Time_Caller "s2\<lparr>l_ctl := c3\<rparr>" c4 env] by simp
  have "lassen_handle env lla_packet c4 = Some c5"
    using pick by (simp add: lassen_handle_def handle_msg_def handle_query_def signal_reply_def remove_nth_def
        Let_def c3_def c4_def c5_def)
  then obtain s5 where 5: "(lassen_step env)\<^sup>*\<^sup>* (s2\<lparr>l_ctl := c4\<rparr>) s5" "l_ctl s5 = c5"
    using frame_is_processed [of "s2\<lparr>l_ctl := c4\<rparr>" lla_packet env c5] 2 by (auto simp: c3_def c4_def)
  have "caller_resumes Time_Caller c5 = Returned 0 c6" "Time_Caller \<in> set (woken c5)"
    by (simp_all add: caller_resumes_def c5_def c6_def)
  then have 6: "lassen_step env s5 (s5\<lparr>l_ctl := c6\<rparr>)"
    using lassen_step.Returns [of Time_Caller s5 0 c6 env] 5(2) by simp
  have "(lassen_step env)\<^sup>*\<^sup>* s (s5\<lparr>l_ctl := c6\<rparr>)"
    using 1 2(1) 3 4 5(1) 6 by (meson rtranclp.rtrancl_into_rtrancl converse_rtranclp_into_rtranclp rtranclp_trans)
  moreover have "stranded c6" by (simp add: stranded_def c6_def c5_def)
  ultimately show ?thesis by (intro exI [of _ "s5\<lparr>l_ctl := c6\<rparr>"]) simp
qed

text \<open>C30: A signal on \<^verbatim>\<open>reply_available_cond\<close> can release the wrong caller, and the other one is then
  stranded. A thread asks for the time, and before it has the lock again after the reply, another
  one asks for the position: the first finds the state \<^verbatim>\<open>GPS_QUERY\<close> and waits again, and the reply
  with the position releases it instead of the second. The second thread stays
  blocked whatever messages the receiver sends afterwards, and every later request for the position is
  refused with the code \<^verbatim>\<open>1\<close>, until some other request is answered.\<close>

theorem position_caller_stranded:
  assumes idle: "lassen_idle s" and wr: "wr env request_time_msg = 4" "wr env request_position_msg = 4"
    and pick: "pick env [LLA_Caller, Time_Caller] = 1"
    and tv: "time_reply env ((!) (time_packet tow week off)) = Some tv"
  shows "\<exists>s'. (lassen_step env)\<^sup>*\<^sup>* s s' \<and> (\<forall>ms x y z. case handle_all (lassen_handle env) ms (l_ctl s') of None \<Rightarrow> True
    | Some c \<Rightarrow> blocked c = [LLA_Caller] \<and> woken c = [] \<and> getGPSLLA env x y z c = Some (Returned 1 c))"
proof -
  obtain s' where "(lassen_step env)\<^sup>*\<^sup>* s s'" "stranded (l_ctl s')"
    using two_requests_run [OF assms] by blast
  then show ?thesis using stranded_forever by blast
qed

section \<open>Concrete instances\<close>

text \<open>Exact arithmetic, and a serial line that takes every message.\<close>

definition exact_env :: lassen_env where
  "exact_env = \<lparr>wr = \<lambda>m. int (length m), pick = \<lambda>_. 1, rnd32 = Some, rnd64 = Some\<rparr>"

definition ready_lassen :: lassen where
  "ready_lassen = \<lparr>l_ring = gps_ring0, l_ctl = lassen_ctl0\<lparr>gps_state := GPS_READY\<rparr>\<rparr>"

text \<open>A health report without a fault, and one with an antenna fault whose data contain \<^verbatim>\<open>DLE\<close>.\<close>

definition health_packet :: "u8 list" where
  "health_packet = [GPS_MSG_RECEIVER_HEALTH, 0, 0]"

definition antenna_packet :: "u8 list" where
  "antenna_packet = [GPS_MSG_RECEIVER_HEALTH, 0, 0x10]"

lemma ready_lassen_idle: "lassen_idle ready_lassen"
  by (simp add: lassen_idle_def ready_lassen_def lassen_ctl0_def gps_ring_ok_def gps_ring0_def contents_def used_def
      linear_end_def MSG_BUF_SIZE_def)

lemma float_100000: "float_of_bits 0x47C35000 = Some 100000"
  by (simp add: float_of_bits_def Let_def)

theorem tsip_stream_handled_witness:
  "\<exists>s'. gps_rounds lassen_read (process_msg exact_env)
      [[take 3 (tsip_frame antenna_packet), drop 3 (tsip_frame antenna_packet)], [tsip_frame health_packet]] ready_lassen = Some s' \<and>
    contents (l_ring s') = [] \<and> l_ctl s' = l_ctl ready_lassen"
  using ready_lassen_idle
  by (intro tsip_stream_handled [of ready_lassen "[antenna_packet, health_packet]" 10])
     (simp_all add: lassen_idle_def ready_lassen_def lassen_ctl0_def antenna_packet_def health_packet_def tsip_msg_def
       tsip_length_def tsip_frame_def MSG_BUF_SIZE_def lassen_handle_def handle_msg_def handle_health_def
       GPS_MSG_RECEIVER_HEALTH_def GPS_MSG_SW_VERSION_def DLE_def ETX_def)

theorem time_request_answered_witness:
  "\<exists>c1 s' c'. getGPStimeUTC exact_env (0, 0) (l_ctl ready_lassen) = Some (Blocks c1) \<and>
    gps_out c1 = gps_out (l_ctl ready_lassen) @ [request_time_msg] \<and>
    gps_rounds lassen_read (process_msg exact_env)
      [[tsip_frame health_packet, tsip_frame (time_packet 0x47C35000 1600 0)]] (ready_lassen\<lparr>l_ctl := c1\<rparr>) = Some s' \<and>
    woken (l_ctl s') = [Time_Caller] \<and> caller_resumes Time_Caller (l_ctl s') = Returned 0 c' \<and>
    current_time (l_ctl s') = Some (of_int (315964800 + 604800 * sint (1600 :: u16) + c_trunc 100000),
      of_int (c_trunc ((100000 - of_int (c_trunc 100000)) * 1000000))) \<and>
    gps_state c' = GPS_READY \<and> current_time c' = None \<and> blocked c' = [] \<and> woken c' = []"
proof (rule time_request_answered [where ms = "[health_packet]" and F = 25 and x = 100000 and y = 0])
  show "float_of_bits 0 = Some 0" by (simp add: float_of_bits_def Let_def)
  have "length (stuff (time_packet 0x47C35000 1600 0)) \<le> 2 * length (time_packet 0x47C35000 1600 0)"
    unfolding stuff_def by (rule length_concat_pairs)
  then show "\<forall>reads\<in>set [[tsip_frame health_packet, tsip_frame (time_packet 0x47C35000 1600 0)]].
      [] \<notin> set reads \<and> 25 + length (concat reads) < MSG_BUF_SIZE"
    by (simp add: length_tsip_frame MSG_BUF_SIZE_def health_packet_def GPS_MSG_RECEIVER_HEALTH_def DLE_def)
qed (simp_all add: ready_lassen_idle float_100000 exact_env_def request_time_msg_def passes_by_def health_packet_def
      tsip_msg_def tsip_length_def length_tsip_frame GPS_MSG_RECEIVER_HEALTH_def GPS_MSG_TIME_def DLE_def ETX_def)

definition asked_lassen :: lassen where
  "asked_lassen = ready_lassen\<lparr>l_ctl := (l_ctl ready_lassen)\<lparr>gps_out := [request_time_msg],
     current_time := Some (7, 0), gps_state := GPS_QUERY, blocked := [Time_Caller]\<rparr>\<rparr>"

lemma asked_lassen_step: "lassen_step exact_env ready_lassen asked_lassen"
  unfolding asked_lassen_def
  by (rule lassen_step.Ask_Time [where v = "(7, 0)"])
     (simp add: getGPStimeUTC_def uart_write_def ready_lassen_def lassen_ctl0_def exact_env_def)

theorem lassen_well_formed_witness:
  "(lassen_step exact_env)\<^sup>*\<^sup>* ready_lassen asked_lassen \<and> lassen_ok ready_lassen \<and> lassen_ok asked_lassen"
proof -
  have "lassen_ok ready_lassen"
    using ready_lassen_idle by (simp add: lassen_ok_def waiters_ok_def lassen_idle_def)
  then show ?thesis using lassen_well_formed [of exact_env ready_lassen asked_lassen] asked_lassen_step
    by (simp add: r_into_rtranclp)
qed

theorem position_caller_stranded_witness:
  "\<exists>s'. (lassen_step exact_env)\<^sup>*\<^sup>* ready_lassen s' \<and>
    (\<forall>ms x y z. case handle_all (lassen_handle exact_env) ms (l_ctl s') of None \<Rightarrow> True
      | Some c \<Rightarrow> blocked c = [LLA_Caller] \<and> woken c = [] \<and> getGPSLLA exact_env x y z c = Some (Returned 1 c))"
proof (rule position_caller_stranded [OF ready_lassen_idle])
  show "time_reply exact_env ((!) (time_packet 0x47C35000 1600 0)) =
      Some (of_int (315964800 + 604800 * sint (1600 :: u16) + c_trunc 100000),
        of_int (c_trunc ((100000 - of_int (c_trunc 100000)) * 1000000)))"
    by (rule time_reply_value [where y = 0, OF float_100000]) (simp_all add: exact_env_def float_of_bits_def Let_def)
qed (simp_all add: exact_env_def request_time_msg_def request_position_msg_def)

end
