(* ===== verification/Gps_Condor.thy ===== *)
theory Gps_Condor
  imports Gps_Ring
begin

text \<open>
  The driver of the Trimble Condor receiver (\<^verbatim>\<open>gps_time/trimble_condor/gps_time.c\<close>), which speaks NMEA:
  lines between a dollar sign and a carriage return with newline, a checksum after an asterisk, and
  fields separated by commas.  A line is copied from the circular buffer to \<^verbatim>\<open>inst_buf\<close>, checked and
  taken apart there by the functions of the C library, which are modelled for
  the formats the driver uses.
\<close>

section \<open>The C library\<close>

text \<open>Characters are bytes. \<^verbatim>\<open>None\<close> is an access outside the array, which is undefined.\<close>

definition c_isspace :: "u8 \<Rightarrow> bool" where
  "c_isspace b \<longleftrightarrow> b = 32 \<or> 9 \<le> b \<and> b \<le> 13"

definition c_isdigit :: "u8 \<Rightarrow> bool" where
  "c_isdigit b \<longleftrightarrow> 48 \<le> b \<and> b \<le> 57"

definition c_at :: "u8 list \<Rightarrow> nat \<Rightarrow> u8 option" where
  "c_at buf i = (if i < length buf then Some (buf ! i) else None)"

text \<open>The string that starts at an index.\<close>

definition c_str :: "u8 list \<Rightarrow> nat \<Rightarrow> u8 list option" where
  "c_str buf i = (if 0 \<in> set (drop i buf) then Some (takeWhile (\<lambda>b. b \<noteq> 0) (drop i buf)) else None)"

definition digits_value :: "u8 list \<Rightarrow> int" where
  "digits_value ds = foldl (\<lambda>v d. 10 * v + (uint d - 48)) 0 ds"

text \<open>An optional sign.\<close>

definition c_sign :: "u8 list \<Rightarrow> int \<times> u8 list" where
  "c_sign s = (case s of [] \<Rightarrow> (1, s) | b # s' \<Rightarrow> if b = 45 then (- 1, s') else if b = 43 then (1, s') else (1, s))"

definition c_atoi :: "u8 list \<Rightarrow> int" where
  "c_atoi s = (case c_sign (dropWhile c_isspace s) of (sg, s) \<Rightarrow> sg * digits_value (takeWhile c_isdigit s))"

text \<open>\<^verbatim>\<open>atof\<close> on the decimal notations, with an optional exponent; \<^verbatim>\<open>rnd64\<close> is the rounding to \<^verbatim>\<open>double\<close>.\<close>

definition c_exponent :: "u8 list \<Rightarrow> int" where
  "c_exponent s = (case s of [] \<Rightarrow> 0 | b # s' \<Rightarrow>
     if b = 101 \<or> b = 69 then (case c_sign s' of (sg, t) \<Rightarrow> sg * digits_value (takeWhile c_isdigit t)) else 0)"

definition c_atof :: "(rat \<Rightarrow> fp) \<Rightarrow> u8 list \<Rightarrow> fp" where
  "c_atof rnd64 s = (case c_sign (dropWhile c_isspace s) of (sg, s) \<Rightarrow>
     let whole = takeWhile c_isdigit s; s = dropWhile c_isdigit s;
         frac = (if take 1 s = [46] then takeWhile c_isdigit (drop 1 s) else []);
         s = (if take 1 s = [46] then dropWhile c_isdigit (drop 1 s) else s);
         e = (if whole @ frac = [] then 0 else c_exponent s) - int (length frac);
         m = of_int (sg * digits_value (whole @ frac))
     in rnd64 (if e < 0 then m / 10 ^ nat (- e) else m * 10 ^ nat e))"

text \<open>\<^verbatim>\<open>sscanf(s, "%hhX", &v)\<close>; \<^verbatim>\<open>v\<close> is unchanged when no digit is found.\<close>

definition hex_digit :: "u8 \<Rightarrow> int option" where
  "hex_digit b = (if c_isdigit b then Some (uint b - 48)
     else if 65 \<le> b \<and> b \<le> 70 then Some (uint b - 55)
     else if 97 \<le> b \<and> b \<le> 102 then Some (uint b - 87) else None)"

definition scan_hhX :: "u8 list \<Rightarrow> u8 \<Rightarrow> u8" where
  "scan_hhX s v = (case c_sign (dropWhile c_isspace s) of (sg, s) \<Rightarrow>
     let s = (if take 2 s = [48, 120] \<or> take 2 s = [48, 88] then drop 2 s else s);
         ds = takeWhile (\<lambda>b. hex_digit b \<noteq> None) s
     in if ds = [] then v else of_int (sg * foldl (\<lambda>v d. 16 * v + the (hex_digit d)) 0 ds))"

text \<open>One \<^verbatim>\<open>%2d\<close>: at most two characters, the sign included.\<close>

definition scan_2d :: "u8 list \<Rightarrow> (int \<times> u8 list) option" where
  "scan_2d s = (
     let s = dropWhile c_isspace s in
     case c_sign (take 2 s) of (sg, t) \<Rightarrow>
       let ds = takeWhile c_isdigit t
       in if ds = [] then None else Some (sg * digits_value ds, drop (length (take 2 s) - length t + length ds) s))"

section \<open>State\<close>

text \<open>The fields of \<^verbatim>\<open>struct tm\<close> that \<^verbatim>\<open>mktime\<close> reads; the driver sets all but \<^verbatim>\<open>tm_isdst\<close>.\<close>

record tm =
  tm_sec :: int
  tm_min :: int
  tm_hour :: int
  tm_mday :: int
  tm_mon :: int
  tm_year :: int
  tm_isdst :: int

text \<open>\<^verbatim>\<open>tm_junk\<close> is the content of the local variable \<^verbatim>\<open>broken_time\<close> before it is set, \<^verbatim>\<open>mktime\<close> the conversion
  of the C library in the time zone of the system.\<close>

record nmea_env = gps_env +
  nm_rnd64 :: "rat \<Rightarrow> fp"
  mktime :: "tm \<Rightarrow> u32"
  tm_junk :: tm

record condor_ctl = gps_common +
  inst_buf :: "u8 list"
  current_latitude :: fp
  current_longitude :: fp
  current_altitude :: fp

record condor =
  n_ring :: gps_ring
  n_ctl :: condor_ctl

definition INST_BUF_SIZE :: nat where
  "INST_BUF_SIZE = 100"

definition condor_ctl0 :: condor_ctl where
  "condor_ctl0 = \<lparr>gps_state = GPS_PRE_INIT, gps_fault = GPS_OK, num_satellites = 0, current_time = None,
     gps_out = [], blocked = [], woken = [], inst_buf = replicate INST_BUF_SIZE 0,
     current_latitude = Some 0, current_longitude = Some 0, current_altitude = Some 0\<rparr>"

text \<open>The texts of the driver as bytes.\<close>

definition bytes_of :: "string \<Rightarrow> u8 list" where
  "bytes_of s = map (\<lambda>c. of_nat (of_char c)) s"

definition GPS_CMD_RESET :: "u8 list" where
  "GPS_CMD_RESET = bytes_of ''$PMTK101*32'' @ [13, 10]"

definition GPS_CMD_SETUP :: "u8 list" where
  "GPS_CMD_SETUP = bytes_of ''$PMTK314,0,0,0,1,0,0,0,0,0,0,0,0,0,0,0,0,0,1,0*28'' @ [13, 10] @
     bytes_of ''$PMTK300,1000,0,0,0,0*1C'' @ [13, 10] @ bytes_of ''$PMTK324,0,0,1,0,69*15'' @ [13, 10]"

definition MSG_STATUS_TIME_POS :: "u8 list" where
  "MSG_STATUS_TIME_POS = [71, 80, 71, 71, 65]"

definition MSG_ANTENNA :: "u8 list" where
  "MSG_ANTENNA = [80, 77, 84, 75, 65, 78, 84]"

definition MSG_TIME :: "u8 list" where
  "MSG_TIME = [71, 80, 90, 68, 65]"

section \<open>lookup_packet\<close>

text \<open>The search for the end of the line.\<close>

function scan_line :: "gps_ring \<Rightarrow> nat \<Rightarrow> nat \<Rightarrow> nat" where
  "scan_line r pos e = (if pos < e \<and> ring_at r pos \<noteq> 10 then scan_line r (Suc pos) e else pos)"
  by pat_completeness auto
termination by (relation "measure (\<lambda>(_, pos, e). e - pos)") auto

text \<open>The copy of \<^verbatim>\<open>n\<close> bytes behind the dollar sign to \<^verbatim>\<open>inst_buf\<close>, closed with a zero.\<close>

definition fill_inst :: "u8 list \<Rightarrow> u8 list \<Rightarrow> u8 list" where
  "fill_inst bs inst = bs @ 0 # drop (Suc (length bs)) inst"

datatype nmea_lookup = Nm_None | Nm_Exit | Nm_Found nat "u8 list"

text \<open>A line that does not fit \<^verbatim>\<open>inst_buf\<close> is written past its end; that is undefined and ends the run.\<close>

definition nmea_lookup_packet :: "nat \<Rightarrow> nat \<Rightarrow> gps_ring \<Rightarrow> u8 list \<Rightarrow> nmea_lookup" where
  "nmea_lookup_packet start e r inst = (
     if e = start then Nm_None
     else let e = linear_end start e in
       if e - start < 8 then Nm_None
       else if msg_buf r ! start \<noteq> 36 then Nm_Exit
       else let pos = scan_line r start e in
         if ring_at r pos \<noteq> 10 \<or> pos = e then Nm_None
         else let n = pos - start - 2 in
           if INST_BUF_SIZE \<le> n then Nm_Exit
           else Nm_Found (Suc pos mod MSG_BUF_SIZE) (fill_inst (map (\<lambda>x. ring_at r (start + 1 + x)) [0..<n]) inst))"

section \<open>process_msg\<close>

text \<open>\<^verbatim>\<open>for( ...; inst_buf[x] != ','; x++)\<close>\<close>

definition next_comma :: "u8 list \<Rightarrow> nat \<Rightarrow> nat option" where
  "next_comma inst x = (let k = length (takeWhile (\<lambda>b. b \<noteq> 44) (drop x inst))
     in if x + k < length inst then Some (x + k) else None)"

definition valid_NMEA_checksum :: "u8 list \<Rightarrow> bool" where
  "valid_NMEA_checksum msg = (
     let body = takeWhile (\<lambda>b. b \<noteq> 42 \<and> b \<noteq> 0) msg; rest = drop (length body) msg
     in take 1 rest = [42] \<and>
        foldl (XOR) 0 body = scan_hhX (takeWhile (\<lambda>b. b \<noteq> 0) (drop 1 rest)) 0)"

definition handle_antenna :: "condor_ctl \<Rightarrow> condor_ctl option" where
  "handle_antenna c = do {
     s \<leftarrow> c_str (inst_buf c) (length MSG_ANTENNA + 1);
     let code = c_atoi s;
     if code = 0 then Some (c\<lparr>gps_fault := GPS_ANTENA_OPEN\<rparr>)
     else if code = 1 then Some (c\<lparr>gps_fault := GPS_OK\<rparr>)
     else if code = 2 then Some (c\<lparr>gps_fault := GPS_ANTENA_SHORT\<rparr>)
     else None
   }"

text \<open>\<^verbatim>\<open>floor(v / 100.0) + fmod(v, 100.0) / 60.0\<close>\<close>

definition nmea_degrees :: "(rat \<Rightarrow> fp) \<Rightarrow> fp \<Rightarrow> fp" where
  "nmea_degrees rnd64 v = do {
     v \<leftarrow> v;
     q \<leftarrow> rnd64 (v / 100);
     let r = (if v < 0 then - (- v - of_int \<lfloor>- v / 100\<rfloor> * 100) else v - of_int \<lfloor>v / 100\<rfloor> * 100);
     m \<leftarrow> rnd64 (r / 60);
     rnd64 (of_int \<lfloor>q\<rfloor> + m)
   }"

definition handle_gga :: "'e nmea_env_scheme \<Rightarrow> condor_ctl \<Rightarrow> condor_ctl option" where
  "handle_gga env c = (let inst = inst_buf c in do {
     x \<leftarrow> next_comma inst 0;
     x \<leftarrow> next_comma inst (x + 1);
     s \<leftarrow> c_str inst (x + 1);
     let lat = nmea_degrees (nm_rnd64 env) (c_atof (nm_rnd64 env) s);
     x \<leftarrow> next_comma inst (x + 1);
     b \<leftarrow> c_at inst (x + 1);
     let c = c\<lparr>current_latitude := (if b = 83 then map_option uminus lat else lat)\<rparr>;
     x \<leftarrow> next_comma inst (x + 1);
     s \<leftarrow> c_str inst (x + 1);
     let lon = nmea_degrees (nm_rnd64 env) (c_atof (nm_rnd64 env) s);
     x \<leftarrow> next_comma inst (x + 1);
     b \<leftarrow> c_at inst (x + 1);
     let c = c\<lparr>current_longitude := (if b = 87 then map_option uminus lon else lon)\<rparr>;
     x \<leftarrow> next_comma inst (x + 1);
     b \<leftarrow> c_at inst (x + 1);
     c \<leftarrow> (if b = 48 then
             let c = c\<lparr>gps_state := GPS_SEARCH\<rparr>
             in Some (if gps_state c = GPS_QUERY then signal_reply env c else c)
           else if b = 49 \<or> b = 50 then Some (c\<lparr>gps_state := GPS_READY\<rparr>)
           else None);
     x \<leftarrow> next_comma inst (x + 1);
     s \<leftarrow> c_str inst (x + 1);
     let c = c\<lparr>num_satellites := of_int (c_atoi s)\<rparr>;
     x \<leftarrow> next_comma inst (x + 1);
     x \<leftarrow> next_comma inst (x + 1);
     s \<leftarrow> c_str inst (x + 1);
     Some (c\<lparr>current_altitude := c_atof (nm_rnd64 env) s\<rparr>)
   })"

text \<open>\<^verbatim>\<open>sscanf(s, "%2d%2d%2d", &tm_hour, &tm_min, &tm_sec)\<close>; a conversion that fails ends the scan.\<close>

definition scan_time :: "u8 list \<Rightarrow> tm \<Rightarrow> tm" where
  "scan_time s t = (case scan_2d s of None \<Rightarrow> t
   | Some (h, s) \<Rightarrow> (case scan_2d s of None \<Rightarrow> t\<lparr>tm_hour := h\<rparr>
     | Some (m, s) \<Rightarrow> (case scan_2d s of None \<Rightarrow> t\<lparr>tm_hour := h, tm_min := m\<rparr>
       | Some (sec, s) \<Rightarrow> t\<lparr>tm_hour := h, tm_min := m, tm_sec := sec\<rparr>)))"

definition handle_zda :: "'e nmea_env_scheme \<Rightarrow> condor_ctl \<Rightarrow> condor_ctl option" where
  "handle_zda env c = (if current_time c = None then Some c else let inst = inst_buf c in do {
     x \<leftarrow> next_comma inst 0;
     s \<leftarrow> c_str inst (x + 1);
     let t = scan_time s (tm_junk env);
     x \<leftarrow> next_comma inst (x + 1);
     s \<leftarrow> c_str inst (x + 1);
     let t = t\<lparr>tm_mday := c_atoi s\<rparr>;
     x \<leftarrow> next_comma inst (x + 1);
     s \<leftarrow> c_str inst (x + 1);
     let t = t\<lparr>tm_mon := c_atoi s\<rparr>;
     x \<leftarrow> next_comma inst (x + 1);
     s \<leftarrow> c_str inst (x + 1);
     let t = t\<lparr>tm_year := c_atoi s - 1900\<rparr>;
     Some (signal_reply env (c\<lparr>current_time := Some (mktime env t, 0), gps_state := GPS_READY\<rparr>))
   })"

definition handle_inst :: "'e nmea_env_scheme \<Rightarrow> condor_ctl \<Rightarrow> condor_ctl option" where
  "handle_inst env c =
     (if valid_NMEA_checksum (inst_buf c) then
        (if take (length MSG_ANTENNA) (inst_buf c) = MSG_ANTENNA then handle_antenna c
         else if take (length MSG_STATUS_TIME_POS) (inst_buf c) = MSG_STATUS_TIME_POS then handle_gga env c
         else if take (length MSG_TIME) (inst_buf c) = MSG_TIME then handle_zda env c
         else Some c)
      else Some c)"

definition nmea_process_msg :: "'e nmea_env_scheme \<Rightarrow> condor \<Rightarrow> condor proc" where
  "nmea_process_msg env s = (
     case nmea_lookup_packet (buff_start (n_ring s)) (buff_end (n_ring s)) (n_ring s) (inst_buf (n_ctl s)) of
       Nm_None \<Rightarrow> Waiting s
     | Nm_Exit \<Rightarrow> Exited
     | Nm_Found e inst \<Rightarrow>
         (case handle_inst env ((n_ctl s)\<lparr>inst_buf := inst\<rparr>) of
            None \<Rightarrow> Exited
          | Some c \<Rightarrow> Running (s\<lparr>n_ring := (n_ring s)\<lparr>buff_start := linear_end (buff_start (n_ring s)) e mod MSG_BUF_SIZE\<rparr>,
              n_ctl := c\<rparr>)))"

section \<open>The calls of the program\<close>

text \<open>\<^verbatim>\<open>sizeof\<close> of a string literal counts its final zero, which is written to the device too.\<close>

definition nmea_init_gps :: "'e gps_env_scheme \<Rightarrow> bool \<Rightarrow> condor_ctl \<Rightarrow> condor_ctl option" where
  "nmea_init_gps env reset c = do {
     c \<leftarrow> (if reset then do {
             c \<leftarrow> uart_write env (GPS_CMD_RESET @ [0]) c;
             Some (c\<lparr>gps_state := GPS_RESET\<rparr>)
           } else Some (c\<lparr>gps_state := GPS_SEARCH\<rparr>));
     uart_write env (GPS_CMD_SETUP @ [0]) c
   }"

definition nmea_uart_init :: "'e gps_env_scheme \<Rightarrow> int \<Rightarrow> bool \<Rightarrow> condor_ctl \<Rightarrow> condor_ctl option" where
  "nmea_uart_init env fd reset c = (if fd = - 1 then None else nmea_init_gps env reset c)"

definition nmea_getGPStimeUTC :: "timeval \<Rightarrow> condor_ctl \<Rightarrow> condor_ctl call" where
  "nmea_getGPStimeUTC v c =
     (if gps_state c \<noteq> GPS_READY \<or> current_time c \<noteq> None then Returned 1 c
      else Blocks (c\<lparr>current_time := Some v, gps_state := GPS_QUERY, blocked := blocked c @ [Time_Caller]\<rparr>))"

definition nmea_caller_resumes :: "condor_ctl \<Rightarrow> condor_ctl call" where
  "nmea_caller_resumes c = (
     let c = c\<lparr>woken := remove1 Time_Caller (woken c)\<rparr> in
     if gps_state c = GPS_QUERY then Blocks (c\<lparr>blocked := blocked c @ [Time_Caller]\<rparr>)
     else Returned (if gps_state c \<noteq> GPS_READY then 2 else 0) (c\<lparr>current_time := None\<rparr>))"

definition nmea_getGPSLLA :: "condor_ctl \<Rightarrow> (fp \<times> fp \<times> fp) option" where
  "nmea_getGPSLLA c =
     (if gps_state c = GPS_READY then Some (current_latitude c, current_longitude c, current_altitude c) else None)"

definition nmea_is_gps_ready :: "condor_ctl \<Rightarrow> bool" where
  "nmea_is_gps_ready c = (gps_state c = GPS_READY)"

definition nmea_getgpssatellites :: "condor_ctl \<Rightarrow> u32" where
  "nmea_getgpssatellites c = num_satellites c"

definition nmea_getgpsfault :: "condor_ctl \<Rightarrow> gps_fault_t" where
  "nmea_getgpsfault c = gps_fault c"

definition condor_read :: "uart_read \<Rightarrow> condor \<Rightarrow> condor option" where
  "condor_read rd s = map_option (\<lambda>r. s\<lparr>n_ring := r\<rparr>) (uart_read_thread (gps_state (n_ctl s)) rd (n_ring s))"

section \<open>NMEA lines\<close>

definition nmea_frame :: "u8 list \<Rightarrow> u8 list" where
  "nmea_frame b = [36] @ b @ [13, 10]"

definition nmea_msg :: "u8 list \<Rightarrow> bool" where
  "nmea_msg b \<longleftrightarrow> 10 \<notin> set b \<and> 5 \<le> length b \<and> length b < INST_BUF_SIZE"

definition condor_handle :: "'e nmea_env_scheme \<Rightarrow> u8 list \<Rightarrow> condor_ctl \<Rightarrow> condor_ctl option" where
  "condor_handle env b c = handle_inst env (c\<lparr>inst_buf := fill_inst b (inst_buf c)\<rparr>)"

declare scan_line.simps [simp del]

lemma scan_line_list:
  "pos \<le> e \<Longrightarrow> scan_line r pos e = pos + length (takeWhile (\<lambda>b. b \<noteq> 10) (map (ring_at r) [pos..<e]))"
proof (induction r pos e rule: scan_line.induct)
  case (1 r pos e)
  show ?case
  proof (cases "pos < e")
    case True
    have "[pos..<e] = pos # [Suc pos..<e]" using True by (rule upt_conv_Cons)
    then show ?thesis using 1 True by (subst scan_line.simps) simp
  qed (use 1 in \<open>subst scan_line.simps, simp\<close>)
qed

lemma takeWhile_frame:
  "10 \<notin> set b \<Longrightarrow> takeWhile (\<lambda>b. b \<noteq> 10) (nmea_frame b @ rest) = [36] @ b @ [13]"
  by (auto simp: nmea_frame_def takeWhile_append)

lemma nmea_lookup_frame:
  assumes ok: "gps_ring_ok r" and m: "nmea_msg b" and c: "contents r = nmea_frame b @ rest"
  shows "nmea_lookup_packet (buff_start r) (buff_end r) r inst =
    Nm_Found ((buff_start r + length (nmea_frame b)) mod MSG_BUF_SIZE) (fill_inst b inst)"
proof -
  let ?s = "buff_start r" and ?n = "length b"
  have len: "length (nmea_frame b) = ?n + 3" by (simp add: nmea_frame_def)
  have used: "?n + 3 \<le> used r" using arg_cong [OF c, of length] len by simp
  have b: "10 \<notin> set b" "5 \<le> ?n" "?n < INST_BUF_SIZE" using m by (simp_all add: nmea_msg_def)
  have scan: "scan_line r ?s (?s + used r) = ?s + (?n + 2)"
    using takeWhile_frame [OF b(1), of rest] c by (simp add: scan_line_list contents_def)
  have at: "ring_at r (?s + i) = (nmea_frame b @ rest) ! i" if "i < used r" for i
    using contents_nth [OF that] c by simp
  have nl: "ring_at r (?s + (?n + 2)) = 10" using at [of "?n + 2"] used by (simp add: nmea_frame_def nth_append)
  have dollar: "msg_buf r ! ?s = 36"
    using at [of 0] used ok by (simp add: nmea_frame_def ring_at_def gps_ring_ok_def)
  have body: "map (\<lambda>x. ring_at r (?s + 1 + x)) [0..<?n] = b"
    using at [of "1 + i" for i] used by (intro nth_equalityI) (simp_all add: nmea_frame_def nth_append)
  have "Suc (Suc (Suc (?s + ?n))) mod MSG_BUF_SIZE = (?s + (?n + 3)) mod MSG_BUF_SIZE"
    by (simp add: numeral_3_eq_3)
  moreover have "buff_end r \<noteq> ?s" using used by (auto simp: used_def linear_end_def)
  ultimately show ?thesis
    using scan nl dollar body used b(2,3) len
    by (simp add: nmea_lookup_packet_def Let_def flip: start_used [OF ok])
qed

lemma nmea_lookup_partial:
  assumes ok: "gps_ring_ok r" and m: "nmea_msg b" and p: "strict_prefix (contents r) (nmea_frame b)"
  shows "nmea_lookup_packet (buff_start r) (buff_end r) r inst = Nm_None"
proof (cases "used r < 8")
  case False
  obtain ys where ys: "nmea_frame b = contents r @ ys" "ys \<noteq> []"
    using p by (auto simp: strict_prefix_def prefix_def)
  have "contents r ! 0 = 36"
    using False ys by (cases "contents r") (auto simp: nmea_frame_def simp flip: length_contents)
  then have dollar: "msg_buf r ! buff_start r = 36"
    using contents_nth [of 0 r] False ok by (simp add: ring_at_def gps_ring_ok_def)
  have "contents r @ butlast ys = [36] @ b @ [13]"
    using arg_cong [OF ys(1), of butlast] ys(2) by (simp add: nmea_frame_def butlast_append)
  then have "set (contents r) \<subseteq> set ([36] @ b @ [13])" by (metis Un_upper1 set_append)
  then have "takeWhile (\<lambda>b. b \<noteq> 10) (contents r) = contents r"
    using m by (intro takeWhile_eq_all_conv [THEN iffD2]) (auto simp: nmea_msg_def)
  then have "length (takeWhile (\<lambda>b. b \<noteq> 10) (map (ring_at r) [buff_start r..<buff_start r + used r])) = used r"
    by (simp only: contents_def [symmetric] length_contents)
  then have "scan_line r (buff_start r) (buff_start r + used r) = buff_start r + used r"
    by (simp only: scan_line_list le_add1)
  then show ?thesis using dollar by (simp add: nmea_lookup_packet_def Let_def flip: start_used [OF ok])
qed (simp add: nmea_lookup_packet_def Let_def flip: start_used [OF ok])

lemma handle_inst_live:
  assumes "handle_inst env c = Some c'" "gps_state c \<noteq> GPS_PRE_INIT"
  shows "gps_state c' \<noteq> GPS_PRE_INIT"
  using assms
  by (auto simp: handle_inst_def handle_antenna_def handle_gga_def handle_zda_def Let_def split: if_splits bind_splits)

lemma condor_read_appends:
  assumes "gps_ring_ok (n_ring s)" "gps_state (n_ctl s) \<noteq> GPS_PRE_INIT" "bs \<noteq> []"
    "used (n_ring s) + length bs < MSG_BUF_SIZE"
  shows "\<exists>s'. condor_read (Uart_Data bs) s = Some s' \<and> gps_ring_ok (n_ring s') \<and>
    contents (n_ring s') = contents (n_ring s) @ bs \<and> n_ctl s' = n_ctl s"
  using output_from_gps_appends [OF assms(1,2,4)] assms(3)
  by (auto simp: condor_read_def uart_read_thread_def)

lemma nmea_process_frame:
  assumes ok: "gps_ring_ok (n_ring s)" and m: "nmea_msg b" and c: "contents (n_ring s) = nmea_frame b @ rest"
    and h: "condor_handle env b (n_ctl s) = Some c'"
  shows "\<exists>s'. nmea_process_msg env s = Running s' \<and> gps_ring_ok (n_ring s') \<and> contents (n_ring s') = rest \<and> n_ctl s' = c'"
proof -
  let ?r = "n_ring s" and ?n = "length (nmea_frame b)"
  let ?r' = "?r\<lparr>buff_start := linear_end (buff_start ?r) ((buff_start ?r + ?n) mod MSG_BUF_SIZE) mod MSG_BUF_SIZE\<rparr>"
  have start: "buff_start ?r' = (buff_start ?r + ?n) mod MSG_BUF_SIZE" by (simp add: linear_end_def)
  have "?n \<le> used ?r" using arg_cong [OF c, of length] by simp
  then have "gps_ring_ok ?r'" "contents ?r' = drop ?n (contents ?r)"
    using contents_advance [OF ok, of ?r' ?n] ok start by (auto simp: ring_at_def gps_ring_ok_def)
  then show ?thesis
    using nmea_lookup_frame [OF ok m c, of "inst_buf (n_ctl s)"] h c
    by (simp add: nmea_process_msg_def condor_handle_def)
qed

interpretation condor: gps_device n_ring n_ctl "\<lambda>c. gps_state c \<noteq> GPS_PRE_INIT" condor_read "nmea_process_msg env"
  nmea_frame nmea_msg "condor_handle env" for env :: "'e nmea_env_scheme"
proof
  show "nmea_process_msg env s = Waiting s" if "gps_ring_ok (n_ring s)" "contents (n_ring s) = []" for s
  proof -
    have "used (n_ring s) = 0" using that(2) by (simp flip: length_contents)
    then show ?thesis
      by (simp add: nmea_process_msg_def nmea_lookup_packet_def Let_def flip: start_used [OF that(1)])
  qed
  show "nmea_process_msg env s = Waiting s"
    if "gps_ring_ok (n_ring s)" "nmea_msg m" "strict_prefix (contents (n_ring s)) (nmea_frame m)" for s m
    using nmea_lookup_partial [OF that] by (simp add: nmea_process_msg_def)
  show "gps_state c' \<noteq> GPS_PRE_INIT" if "gps_state c \<noteq> GPS_PRE_INIT" "condor_handle env m c = Some c'" for c m c'
    using that handle_inst_live [of env "c\<lparr>inst_buf := fill_inst m (inst_buf c)\<rparr>" c']
    by (simp add: condor_handle_def)
qed (use condor_read_appends nmea_process_frame in \<open>auto simp: nmea_frame_def\<close>)

section \<open>The texts of numbers\<close>

definition dig :: "nat \<Rightarrow> u8" where
  "dig n = of_nat (48 + n)"

definition two_digits :: "nat \<Rightarrow> u8 list" where
  "two_digits n = [dig (n div 10), dig (n mod 10)]"

definition hex_char :: "nat \<Rightarrow> u8" where
  "hex_char n = (if n < 10 then of_nat (48 + n) else of_nat (55 + n))"

text \<open>A line with its checksum: the exclusive or of its bytes in hexadecimal.\<close>

definition with_checksum :: "u8 list \<Rightarrow> u8 list" where
  "with_checksum body = (let w = unat (foldl (XOR) 0 body) in body @ [42, hex_char (w div 16), hex_char (w mod 16)])"

lemma below_10_cases: "n < (10 :: nat) \<Longrightarrow> n \<in> {0, 1, 2, 3, 4, 5, 6, 7, 8, 9}"
  by auto

lemma dig_value: "n < 10 \<Longrightarrow> c_isdigit (dig n) \<and> uint (dig n) = 48 + int n"
  by (drule below_10_cases, elim insertE emptyE) (simp_all add: dig_def c_isdigit_def)

lemma hex_char_value: "n < 16 \<Longrightarrow> hex_digit (hex_char n) = Some (int n) \<and> \<not> c_isspace (hex_char n) \<and>
    hex_char n \<notin> {0, 10, 42, 43, 45, 88, 120}"
proof -
  assume "n < 16"
  then have "n < 10 \<or> n \<in> {10, 11, 12, 13, 14, 15}" by auto
  then have "n \<in> {0, 1, 2, 3, 4, 5, 6, 7, 8, 9} \<or> n \<in> {10, 11, 12, 13, 14, 15}"
    using below_10_cases by blast
  then show ?thesis
    by (elim disjE insertE emptyE) (simp_all add: hex_char_def hex_digit_def c_isdigit_def c_isspace_def)
qed

lemma digit_is_no_separator [simp]:
  assumes "c_isdigit b"
  shows "\<not> c_isspace b" "b \<noteq> 0" "0 \<noteq> b" "b \<noteq> 42" "b \<noteq> 43" "b \<noteq> 44" "b \<noteq> 45" "b \<noteq> 10"
  using assms order_trans [of 48 b 13] by (auto simp: c_isdigit_def c_isspace_def)

lemma separator_is_no_digit [simp]: "\<not> c_isdigit 44" "\<not> c_isdigit 46" "\<not> c_isdigit 42"
  by (simp_all add: c_isdigit_def)

lemma with_checksum_valid:
  assumes "0 \<notin> set body" "42 \<notin> set body"
  shows "valid_NMEA_checksum (with_checksum body @ 0 # rest)"
proof -
  define w where "w = unat (foldl (XOR) 0 body)"
  have w: "w div 16 < 16" "w mod 16 < 16" using unat_u8_less [of "foldl (XOR) 0 body"] by (simp_all add: w_def)
  note h = hex_char_value [OF w(1)] hex_char_value [OF w(2)]
  have body: "takeWhile (\<lambda>b. b \<noteq> 42 \<and> b \<noteq> 0) (with_checksum body @ 0 # rest) = body"
    using assms by (auto simp: with_checksum_def Let_def takeWhile_append)
  have "scan_hhX [hex_char (w div 16), hex_char (w mod 16)] 0 = of_int (16 * int (w div 16) + int (w mod 16))"
    using h by (auto simp: scan_hhX_def c_sign_def Let_def)
  also have "16 * int (w div 16) + int (w mod 16) = int w" by (simp add: of_nat_div of_nat_mod)
  also have "of_int (int w) = foldl (XOR) 0 body" by (simp add: w_def)
  finally show ?thesis
    using h by (simp add: valid_NMEA_checksum_def body) (simp add: with_checksum_def w_def [symmetric] Let_def)
qed

section \<open>Time reports\<close>

text \<open>The line \<^verbatim>\<open>GPZDA,hhmmss.00,dd,mm,yyyy,00,00\<close> with its checksum.\<close>

definition zda_text :: "nat \<Rightarrow> nat \<Rightarrow> nat \<Rightarrow> nat \<Rightarrow> nat \<Rightarrow> nat \<Rightarrow> u8 list" where
  "zda_text h mi sec d mo y = MSG_TIME @ [44] @ two_digits h @ two_digits mi @ two_digits sec @ [46, 48, 48, 44] @
     two_digits d @ [44] @ two_digits mo @ [44] @ two_digits (y div 100) @ two_digits (y mod 100) @ [44, 48, 48, 44, 48, 48]"

definition zda_msg :: "nat \<Rightarrow> nat \<Rightarrow> nat \<Rightarrow> nat \<Rightarrow> nat \<Rightarrow> nat \<Rightarrow> u8 list" where
  "zda_msg h mi sec d mo y = with_checksum (zda_text h mi sec d mo y)"

lemma digits_of:
  assumes "n < 100"
  obtains a b where "two_digits n = [a, b]" "c_isdigit a" "c_isdigit b" "int n = 10 * (uint a - 48) + (uint b - 48)"
proof -
  have "n div 10 < 10" "n mod 10 < 10" using assms by auto
  then have "c_isdigit (dig (n div 10)) \<and> uint (dig (n div 10)) = 48 + int (n div 10)"
    "c_isdigit (dig (n mod 10)) \<and> uint (dig (n mod 10)) = 48 + int (n mod 10)" by (simp_all only: dig_value)
  moreover have "int n = 10 * int (n div 10) + int (n mod 10)" by (simp add: of_nat_div of_nat_mod)
  ultimately show ?thesis using that [of "dig (n div 10)" "dig (n mod 10)"] by (simp add: two_digits_def)
qed

lemma digits_value_2: "digits_value [a, b] = 10 * (uint a - 48) + (uint b - 48)"
  by (simp add: digits_value_def)

lemma handle_zda_digits:
  assumes "current_time c \<noteq> None"
    and "c_isdigit a1" "c_isdigit a2" "c_isdigit b1" "c_isdigit b2" "c_isdigit c1" "c_isdigit c2" "c_isdigit d1" "c_isdigit d2"
      "c_isdigit e1" "c_isdigit e2" "c_isdigit f1" "c_isdigit f2" "c_isdigit g1" "c_isdigit g2"
    and "inst_buf c = [71, 80, 90, 68, 65, 44, a1, a2, b1, b2, c1, c2, 46, 48, 48, 44, d1, d2, 44, e1, e2, 44,
      f1, f2, g1, g2, 44, 48, 48, 44, 48, 48, 42] @ cs @ 0 # rest" "0 \<notin> set cs"
  shows "handle_zda env c = Some (signal_reply env (c\<lparr>current_time := Some (mktime env
      \<lparr>tm_sec = digits_value [c1, c2], tm_min = digits_value [b1, b2], tm_hour = digits_value [a1, a2],
       tm_mday = digits_value [d1, d2], tm_mon = digits_value [e1, e2], tm_year = digits_value [f1, f2, g1, g2] - 1900,
       tm_isdst = tm_isdst (tm_junk env)\<rparr>, 0),
      gps_state := GPS_READY\<rparr>))"
proof -
  obtain v where v: "current_time c = Some v" using assms(1) by auto
  have commas: "next_comma (inst_buf c) 0 = Some 5" "next_comma (inst_buf c) 6 = Some 15"
    "next_comma (inst_buf c) 16 = Some 18" "next_comma (inst_buf c) 19 = Some 21"
    using assms by (simp_all add: next_comma_def Let_def)
  have strs: "c_str (inst_buf c) 6 = Some ([a1, a2, b1, b2, c1, c2, 46, 48, 48, 44, d1, d2, 44, e1, e2, 44,
      f1, f2, g1, g2, 44, 48, 48, 44, 48, 48, 42] @ cs)"
    "c_str (inst_buf c) 16 = Some ([d1, d2, 44, e1, e2, 44, f1, f2, g1, g2, 44, 48, 48, 44, 48, 48, 42] @ cs)"
    "c_str (inst_buf c) 19 = Some ([e1, e2, 44, f1, f2, g1, g2, 44, 48, 48, 44, 48, 48, 42] @ cs)"
    "c_str (inst_buf c) 22 = Some ([f1, f2, g1, g2, 44, 48, 48, 44, 48, 48, 42] @ cs)"
    using assms by (auto simp: c_str_def takeWhile_append)
  have atoi: "c_atoi ([x, y, 44] @ zs) = digits_value [x, y]" "c_atoi ([x, y, x', y', 44] @ zs) = digits_value [x, y, x', y']"
    if "c_isdigit x" "c_isdigit y" "c_isdigit x'" "c_isdigit y'" for x y x' y' zs
    using that by (simp_all add: c_atoi_def c_sign_def)
  have scan: "scan_2d (x # y # zs) = Some (digits_value [x, y], zs)" if "c_isdigit x" "c_isdigit y" for x y zs
    using that by (simp add: scan_2d_def c_sign_def Let_def)
  obtain t where "tm_junk env = t" by blast
  then show ?thesis
    using v assms(2-15) commas strs atoi [of d1 d2] atoi [of e1 e2] atoi [of f1 f2 g1 g2] scan
    by (cases t) (simp add: handle_zda_def Let_def scan_time_def)
qed

text \<open>The bytes of the report, with all digits named.\<close>

lemma zda_text_digits:
  assumes "h < 100" "mi < 100" "sec < 100" "d < 100" "mo < 100" "y < 10000"
  obtains a1 a2 b1 b2 c1 c2 d1 d2 e1 e2 f1 f2 g1 g2 where
    "\<forall>b\<in>{a1, a2, b1, b2, c1, c2, d1, d2, e1, e2, f1, f2, g1, g2}. c_isdigit b"
    "zda_text h mi sec d mo y = [71, 80, 90, 68, 65, 44, a1, a2, b1, b2, c1, c2, 46, 48, 48, 44, d1, d2, 44, e1, e2, 44,
      f1, f2, g1, g2, 44, 48, 48, 44, 48, 48]"
    "digits_value [a1, a2] = int h" "digits_value [b1, b2] = int mi" "digits_value [c1, c2] = int sec"
    "digits_value [d1, d2] = int d" "digits_value [e1, e2] = int mo" "digits_value [f1, f2, g1, g2] = int y"
proof -
  obtain a1 a2 where a: "two_digits h = [a1, a2]" "c_isdigit a1" "c_isdigit a2" "digits_value [a1, a2] = int h"
    using digits_of [OF assms(1)] by (metis digits_value_2)
  obtain b1 b2 where b: "two_digits mi = [b1, b2]" "c_isdigit b1" "c_isdigit b2" "digits_value [b1, b2] = int mi"
    using digits_of [OF assms(2)] by (metis digits_value_2)
  obtain c1 c2 where c: "two_digits sec = [c1, c2]" "c_isdigit c1" "c_isdigit c2" "digits_value [c1, c2] = int sec"
    using digits_of [OF assms(3)] by (metis digits_value_2)
  obtain d1 d2 where d: "two_digits d = [d1, d2]" "c_isdigit d1" "c_isdigit d2" "digits_value [d1, d2] = int d"
    using digits_of [OF assms(4)] by (metis digits_value_2)
  obtain e1 e2 where e: "two_digits mo = [e1, e2]" "c_isdigit e1" "c_isdigit e2" "digits_value [e1, e2] = int mo"
    using digits_of [OF assms(5)] by (metis digits_value_2)
  have "y div 100 < 100" "y mod 100 < 100" using assms(6) by auto
  then obtain f1 f2 g1 g2 where f: "two_digits (y div 100) = [f1, f2]" "c_isdigit f1" "c_isdigit f2"
      "digits_value [f1, f2] = int (y div 100)"
    and g: "two_digits (y mod 100) = [g1, g2]" "c_isdigit g1" "c_isdigit g2" "digits_value [g1, g2] = int (y mod 100)"
    using digits_of by (metis digits_value_2)
  have "int y = 100 * int (y div 100) + int (y mod 100)" by (simp add: of_nat_div of_nat_mod)
  then have "digits_value [f1, f2, g1, g2] = int y" using f(4) g(4) by (simp add: digits_value_def)
  with a b c d e f g show ?thesis
    by (intro that [of a1 a2 b1 b2 c1 c2 d1 d2 e1 e2 f1 f2 g1 g2]) (simp_all add: zda_text_def MSG_TIME_def)
qed

definition zda_tm :: "int \<Rightarrow> nat \<Rightarrow> nat \<Rightarrow> nat \<Rightarrow> nat \<Rightarrow> nat \<Rightarrow> nat \<Rightarrow> tm" where
  "zda_tm dst h mi sec d mo y = \<lparr>tm_sec = int sec, tm_min = int mi, tm_hour = int h, tm_mday = int d, tm_mon = int mo,
     tm_year = int y - 1900, tm_isdst = dst\<rparr>"

text \<open>Plausible numbers of a report.\<close>

definition zda_range :: "nat \<Rightarrow> nat \<Rightarrow> nat \<Rightarrow> nat \<Rightarrow> nat \<Rightarrow> nat \<Rightarrow> bool" where
  "zda_range h mi sec d mo y \<longleftrightarrow> h < 24 \<and> mi < 60 \<and> sec \<le> 60 \<and> 1 \<le> d \<and> d \<le> 31 \<and> 1 \<le> mo \<and> mo \<le> 12 \<and> 1970 \<le> y \<and> y < 10000"

lemma zda_range_digits:
  assumes "zda_range h mi sec d mo y"
  obtains a1 a2 b1 b2 c1 c2 d1 d2 e1 e2 f1 f2 g1 g2 where
    "\<forall>b\<in>{a1, a2, b1, b2, c1, c2, d1, d2, e1, e2, f1, f2, g1, g2}. c_isdigit b"
    "zda_text h mi sec d mo y = [71, 80, 90, 68, 65, 44, a1, a2, b1, b2, c1, c2, 46, 48, 48, 44, d1, d2, 44, e1, e2, 44,
      f1, f2, g1, g2, 44, 48, 48, 44, 48, 48]"
    "digits_value [a1, a2] = int h" "digits_value [b1, b2] = int mi" "digits_value [c1, c2] = int sec"
    "digits_value [d1, d2] = int d" "digits_value [e1, e2] = int mo" "digits_value [f1, f2, g1, g2] = int y"
  by (rule zda_text_digits [of h mi sec d mo y]) (use assms that in \<open>auto simp: zda_range_def\<close>)

lemma zda_msg_ok:
  assumes "zda_range h mi sec d mo y"
  shows "nmea_msg (zda_msg h mi sec d mo y)" "length (zda_msg h mi sec d mo y) = 35"
proof -
  let ?w = "unat (foldl (XOR) 0 (zda_text h mi sec d mo y))"
  have w: "?w div 16 < 16" "?w mod 16 < 16" using unat_u8_less [of "foldl (XOR) 0 (zda_text h mi sec d mo y)"] by simp_all
  obtain a1 a2 b1 b2 c1 c2 d1 d2 e1 e2 f1 f2 g1 g2 where
    dg: "\<forall>b\<in>{a1, a2, b1, b2, c1, c2, d1, d2, e1, e2, f1, f2, g1, g2}. c_isdigit b"
    and t: "zda_text h mi sec d mo y = [71, 80, 90, 68, 65, 44, a1, a2, b1, b2, c1, c2, 46, 48, 48, 44, d1, d2, 44, e1, e2, 44,
      f1, f2, g1, g2, 44, 48, 48, 44, 48, 48]"
    using zda_range_digits [OF assms] by metis
  show len: "length (zda_msg h mi sec d mo y) = 35" by (simp add: zda_msg_def with_checksum_def Let_def t)
  have "10 \<notin> set (zda_text h mi sec d mo y)" using dg by (auto simp: t)
  then show "nmea_msg (zda_msg h mi sec d mo y)"
    using len hex_char_value [OF w(1)] hex_char_value [OF w(2)]
    by (auto simp: nmea_msg_def INST_BUF_SIZE_def zda_msg_def with_checksum_def Let_def)
qed

lemma zda_msg_handled:
  assumes r: "zda_range h mi sec d mo y" and ct: "current_time c \<noteq> None"
  shows "condor_handle env (zda_msg h mi sec d mo y) c =
    Some (signal_reply env (c\<lparr>inst_buf := fill_inst (zda_msg h mi sec d mo y) (inst_buf c),
      current_time := Some (mktime env (zda_tm (tm_isdst (tm_junk env)) h mi sec d mo y), 0), gps_state := GPS_READY\<rparr>))"
proof -
  let ?t = "zda_text h mi sec d mo y"
  let ?w = "unat (foldl (XOR) 0 ?t)"
  have w: "?w div 16 < 16" "?w mod 16 < 16" using unat_u8_less [of "foldl (XOR) 0 ?t"] by simp_all
  obtain a1 a2 b1 b2 c1 c2 d1 d2 e1 e2 f1 f2 g1 g2 where
    dg: "\<forall>b\<in>{a1, a2, b1, b2, c1, c2, d1, d2, e1, e2, f1, f2, g1, g2}. c_isdigit b"
    and t: "?t = [71, 80, 90, 68, 65, 44, a1, a2, b1, b2, c1, c2, 46, 48, 48, 44, d1, d2, 44, e1, e2, 44,
      f1, f2, g1, g2, 44, 48, 48, 44, 48, 48]"
    and v: "digits_value [a1, a2] = int h" "digits_value [b1, b2] = int mi" "digits_value [c1, c2] = int sec"
      "digits_value [d1, d2] = int d" "digits_value [e1, e2] = int mo" "digits_value [f1, f2, g1, g2] = int y"
    by (rule zda_range_digits [OF r])
  define c' where "c' = c\<lparr>inst_buf := fill_inst (zda_msg h mi sec d mo y) (inst_buf c)\<rparr>"
  define rest where "rest = drop (Suc (length (zda_msg h mi sec d mo y))) (inst_buf c)"
  have inst: "inst_buf c' = with_checksum ?t @ 0 # rest"
    by (simp add: c'_def rest_def fill_inst_def zda_msg_def)
  have valid: "valid_NMEA_checksum (inst_buf c')"
    unfolding inst using dg by (intro with_checksum_valid) (auto simp: t)
  have "inst_buf c' = [71, 80, 90, 68, 65, 44, a1, a2, b1, b2, c1, c2, 46, 48, 48, 44, d1, d2, 44, e1, e2, 44,
      f1, f2, g1, g2, 44, 48, 48, 44, 48, 48, 42] @ [hex_char (?w div 16), hex_char (?w mod 16)] @ 0 # rest"
    unfolding inst with_checksum_def Let_def by (simp add: t)
  then have "handle_zda env c' = Some (signal_reply env (c'\<lparr>current_time := Some (mktime env (zda_tm (tm_isdst (tm_junk env)) h mi sec d mo y), 0),
      gps_state := GPS_READY\<rparr>))"
    using handle_zda_digits [of c' a1 a2 b1 b2 c1 c2 d1 d2 e1 e2 f1 f2 g1 g2 "[hex_char (?w div 16), hex_char (?w mod 16)]" rest env]
      dg ct hex_char_value [OF w(1)] hex_char_value [OF w(2)] v by (auto simp: c'_def zda_tm_def)
  moreover have "take (length MSG_TIME) (inst_buf c') = MSG_TIME" "take (length MSG_ANTENNA) (inst_buf c') \<noteq> MSG_ANTENNA"
    "take (length MSG_STATUS_TIME_POS) (inst_buf c') \<noteq> MSG_STATUS_TIME_POS"
    unfolding inst with_checksum_def Let_def t by (simp_all add: MSG_TIME_def MSG_ANTENNA_def MSG_STATUS_TIME_POS_def)
  ultimately have "handle_inst env c' = Some (signal_reply env (c'\<lparr>current_time := Some (mktime env (zda_tm (tm_isdst (tm_junk env)) h mi sec d mo y), 0),
      gps_state := GPS_READY\<rparr>))"
    using valid by (simp add: handle_inst_def)
  then show ?thesis by (simp add: condor_handle_def c'_def)
qed

section \<open>Requests for the time\<close>

definition condor_asked :: "timeval \<Rightarrow> condor_ctl \<Rightarrow> condor_ctl" where
  "condor_asked v c = c\<lparr>current_time := Some v, gps_state := GPS_QUERY, blocked := [Time_Caller]\<rparr>"

definition condor_pending :: "condor_ctl \<Rightarrow> bool" where
  "condor_pending c \<longleftrightarrow> current_time c \<noteq> None \<and> blocked c = [Time_Caller] \<and> woken c = []"

text \<open>Only a time report ends the wait of a caller.\<close>

lemma other_messages_keep:
  assumes "nmea_msg b" "take (length MSG_TIME) b \<noteq> MSG_TIME" "condor_handle env b c = Some c'"
  shows "current_time c' = current_time c \<and> blocked c' = blocked c \<and> woken c' = woken c"
proof -
  have "take (length MSG_TIME) (fill_inst b (inst_buf c)) = take (length MSG_TIME) b"
    using assms(1) by (simp add: fill_inst_def nmea_msg_def MSG_TIME_def)
  then show ?thesis
    using assms(2,3)
    by (auto simp: condor_handle_def handle_inst_def handle_antenna_def handle_gga_def Let_def split: if_splits bind_splits)
qed

lemma others_keep_pending:
  "\<forall>b\<in>set ms. nmea_msg b \<and> take (length MSG_TIME) b \<noteq> MSG_TIME \<Longrightarrow> condor_pending c \<Longrightarrow>
    handle_all (condor_handle env) ms c = Some c' \<Longrightarrow> condor_pending c'"
proof (induction ms arbitrary: c)
  case (Cons b ms)
  then obtain c1 where c1: "condor_handle env b c = Some c1" "handle_all (condor_handle env) ms c1 = Some c'"
    by (auto split: bind_splits)
  then have "condor_pending c1" using Cons.prems other_messages_keep [of b env c c1] by (simp add: condor_pending_def)
  then show ?case using Cons.IH Cons.prems(1) c1(2) by simp
qed simp

lemma zda_msg_releases:
  assumes "zda_range h mi sec d mo y" "condor_pending c"
  shows "\<exists>c' c''. condor_handle env (zda_msg h mi sec d mo y) c = Some c' \<and> woken c' = [Time_Caller] \<and>
    current_time c' = Some (mktime env (zda_tm (tm_isdst (tm_junk env)) h mi sec d mo y), 0) \<and>
    nmea_caller_resumes c' = Returned 0 c'' \<and> gps_state c'' = GPS_READY \<and> current_time c'' = None \<and>
    blocked c'' = [] \<and> woken c'' = []"
  using zda_msg_handled [OF assms(1), of c env] assms(2)
  by (simp add: condor_pending_def signal_single nmea_caller_resumes_def)

text \<open>C22: A request for the time to the Condor driver is answered by the next time report. When the
  receiver is ready and nobody waits, \<^verbatim>\<open>getGPStimeUTC\<close> blocks; after the bytes of some other lines that are
  handled, and of the line \<^verbatim>\<open>GPZDA\<close> for a given time and date, have arrived in any division into
  reads, the caller is released and returns \<^verbatim>\<open>0\<close>. The time it gets is \<^verbatim>\<open>mktime\<close> of the fields of the line with
  the number of the month as it stands: \<^verbatim>\<open>tm_mon\<close> counts from zero, so the result is one month late; and with the \<^verbatim>\<open>tm_isdst\<close>
  that was on the stack, which is never set.\<close>

theorem nmea_time_request_answered:
  assumes idle: "gps_ring_ok (n_ring s)" "contents (n_ring s) = []" "gps_state (n_ctl s) = GPS_READY"
      "current_time (n_ctl s) = None" "blocked (n_ctl s) = []" "woken (n_ctl s) = []"
    and ms: "\<forall>b\<in>set ms. nmea_msg b \<and> take (length MSG_TIME) b \<noteq> MSG_TIME"
      "handle_all (condor_handle env) ms (condor_asked v (n_ctl s)) = Some c"
    and range: "zda_range h mi sec d mo y"
    and rounds: "concat (concat rounds) = concat (map nmea_frame (ms @ [zda_msg h mi sec d mo y]))"
      "\<forall>reads\<in>set rounds. [] \<notin> set reads \<and> 102 + length (concat reads) < MSG_BUF_SIZE"
  shows "\<exists>c1 s' c'. nmea_getGPStimeUTC v (n_ctl s) = Blocks c1 \<and>
    gps_rounds condor_read (nmea_process_msg env) rounds (s\<lparr>n_ctl := c1\<rparr>) = Some s' \<and>
    woken (n_ctl s') = [Time_Caller] \<and> nmea_caller_resumes (n_ctl s') = Returned 0 c' \<and>
    current_time (n_ctl s') = Some (mktime env \<lparr>tm_sec = int sec, tm_min = int mi, tm_hour = int h, tm_mday = int d,
      tm_mon = int mo, tm_year = int y - 1900, tm_isdst = tm_isdst (tm_junk env)\<rparr>, 0) \<and>
    gps_state c' = GPS_READY \<and> current_time c' = None \<and> blocked c' = [] \<and> woken c' = []"
proof -
  let ?z = "zda_msg h mi sec d mo y" and ?c = "condor_asked v (n_ctl s)"
  have call: "nmea_getGPStimeUTC v (n_ctl s) = Blocks ?c"
    using idle by (simp add: nmea_getGPStimeUTC_def condor_asked_def)
  have "condor_pending ?c" using idle by (simp add: condor_pending_def condor_asked_def)
  then have "condor_pending c" using others_keep_pending ms by blast
  then obtain c2 c3 where c2: "condor_handle env ?z c = Some c2" "woken c2 = [Time_Caller]"
    "current_time c2 = Some (mktime env (zda_tm (tm_isdst (tm_junk env)) h mi sec d mo y), 0)" "nmea_caller_resumes c2 = Returned 0 c3"
    "gps_state c3 = GPS_READY" "current_time c3 = None" "blocked c3 = []" "woken c3 = []"
    using zda_msg_releases [OF range] by blast
  have valid: "\<forall>b\<in>set (ms @ [?z]). nmea_msg b \<and> length (nmea_frame b) \<le> 102"
    using ms(1) zda_msg_ok [OF range] by (auto simp: nmea_frame_def nmea_msg_def INST_BUF_SIZE_def)
  have "handle_all (condor_handle env) (ms @ [?z]) ?c = Some c2"
    using ms(2) c2(1) by (simp add: handle_all_append)
  then have "\<exists>s'. gps_rounds condor_read (nmea_process_msg env) rounds (s\<lparr>n_ctl := ?c\<rparr>) = Some s' \<and>
      contents (n_ring s') = [] \<and> n_ctl s' = c2"
    using idle by (intro condor.stream_handled [OF _ _ _ valid rounds]) (simp_all add: condor_asked_def)
  then show ?thesis using call c2 unfolding zda_tm_def by auto
qed

text \<open>C33: The Condor driver does not report that the fix was lost while a caller waits. A position line
  with quality \<^verbatim>\<open>0\<close> sets the state to \<^verbatim>\<open>GPS_SEARCH\<close>, but the test for \<^verbatim>\<open>GPS_QUERY\<close> that should release the waiting
  caller comes after that assignment and never holds: the caller stays blocked. The next time report,
  which the receiver also sends without a fix, then makes the state \<^verbatim>\<open>GPS_READY\<close> and the
  call returns \<^verbatim>\<open>0\<close> instead of the documented \<^verbatim>\<open>2\<close>.\<close>

theorem lost_fix_is_masked:
  assumes "condor_pending c" "gps_state c = GPS_QUERY"
    and "nmea_msg gga" "take 5 gga = MSG_STATUS_TIME_POS" "condor_handle env gga c = Some c1" "gps_state c1 = GPS_SEARCH"
    and "zda_range h mi sec d mo y"
  shows "blocked c1 = [Time_Caller] \<and> woken c1 = [] \<and>
    (\<exists>c2 c3. condor_handle env (zda_msg h mi sec d mo y) c1 = Some c2 \<and> nmea_caller_resumes c2 = Returned 0 c3 \<and>
      gps_state c3 = GPS_READY)"
proof -
  have "length MSG_TIME = 5" "MSG_STATUS_TIME_POS \<noteq> MSG_TIME" by (simp_all add: MSG_TIME_def MSG_STATUS_TIME_POS_def)
  then have "take (length MSG_TIME) gga \<noteq> MSG_TIME" using assms(4) by simp
  then have "condor_pending c1"
    using other_messages_keep [OF assms(3) _ assms(5)] assms(1) by (simp add: condor_pending_def)
  then show ?thesis
    using zda_msg_releases [OF assms(7), of c1 env] by (auto simp: condor_pending_def)
qed

section \<open>Concrete instances\<close>

definition nmea_exact_env :: nmea_env where
  "nmea_exact_env = \<lparr>wr = \<lambda>m. int (length m), pick = \<lambda>_. 0, nm_rnd64 = Some,
     mktime = \<lambda>t. of_int (tm_sec t + 60 * tm_min t + 3600 * tm_hour t),
     tm_junk = \<lparr>tm_sec = 0, tm_min = 0, tm_hour = 0, tm_mday = 0, tm_mon = 0, tm_year = 0, tm_isdst = 0\<rparr>\<rparr>"

definition ready_condor :: condor where
  "ready_condor = \<lparr>n_ring = gps_ring0, n_ctl = condor_ctl0\<lparr>gps_state := GPS_READY\<rparr>\<rparr>"

text \<open>\<^verbatim>\<open>PMTKANT,1*44\<close> and \<^verbatim>\<open>GPGGA,1,2,N,3,W,0,4,5,6*54\<close>\<close>

definition antenna_line :: "u8 list" where
  "antenna_line = with_checksum [80, 77, 84, 75, 65, 78, 84, 44, 49]"

definition no_fix_line :: "u8 list" where
  "no_fix_line = with_checksum [71, 80, 71, 71, 65, 44, 49, 44, 50, 44, 78, 44, 51, 44, 87, 44, 48, 44, 52, 44, 53, 44, 54]"

lemma antenna_line_bytes: "antenna_line = [80, 77, 84, 75, 65, 78, 84, 44, 49, 42, 52, 52]"
  by (simp add: antenna_line_def with_checksum_def Let_def hex_char_def)

lemma no_fix_line_bytes:
  "no_fix_line = [71, 80, 71, 71, 65, 44, 49, 44, 50, 44, 78, 44, 51, 44, 87, 44, 48, 44, 52, 44, 53, 44, 54, 42, 53, 52]"
  by (simp add: no_fix_line_def with_checksum_def Let_def hex_char_def)

lemma antenna_line_handled:
  "condor_handle env antenna_line c = Some (c\<lparr>inst_buf := fill_inst antenna_line (inst_buf c), gps_fault := GPS_OK\<rparr>)"
proof -
  have "valid_NMEA_checksum (fill_inst antenna_line (inst_buf c))"
    unfolding fill_inst_def antenna_line_def by (rule with_checksum_valid) simp_all
  then show ?thesis
    by (simp add: condor_handle_def handle_inst_def handle_antenna_def fill_inst_def antenna_line_bytes MSG_ANTENNA_def
        c_str_def c_atoi_def c_sign_def c_isspace_def c_isdigit_def digits_value_def)
qed

lemma no_fix_line_handled:
  "\<exists>c1. condor_handle env no_fix_line c = Some c1 \<and> gps_state c1 = GPS_SEARCH"
proof -
  have "valid_NMEA_checksum (fill_inst no_fix_line (inst_buf c))"
    unfolding fill_inst_def no_fix_line_def by (rule with_checksum_valid) simp_all
  then show ?thesis
    by (simp add: condor_handle_def handle_inst_def handle_gga_def fill_inst_def no_fix_line_bytes MSG_ANTENNA_def
        MSG_STATUS_TIME_POS_def c_str_def c_at_def next_comma_def Let_def)
qed

lemma ready_condor_ok: "gps_ring_ok (n_ring ready_condor)" "contents (n_ring ready_condor) = []"
  by (simp_all add: ready_condor_def gps_ring_ok_def gps_ring0_def contents_def used_def linear_end_def MSG_BUF_SIZE_def)

theorem nmea_time_request_answered_witness:
  "\<exists>c1 s' c'. nmea_getGPStimeUTC (0, 0) (n_ctl ready_condor) = Blocks c1 \<and>
    gps_rounds condor_read (nmea_process_msg nmea_exact_env)
      [[nmea_frame antenna_line], [nmea_frame (zda_msg 12 30 15 9 6 2011)]] (ready_condor\<lparr>n_ctl := c1\<rparr>) = Some s' \<and>
    woken (n_ctl s') = [Time_Caller] \<and> nmea_caller_resumes (n_ctl s') = Returned 0 c' \<and>
    current_time (n_ctl s') = Some (mktime nmea_exact_env \<lparr>tm_sec = int 15, tm_min = int 30, tm_hour = int 12,
      tm_mday = int 9, tm_mon = int 6, tm_year = int 2011 - 1900, tm_isdst = tm_isdst (tm_junk nmea_exact_env)\<rparr>, 0) \<and>
    gps_state c' = GPS_READY \<and> current_time c' = None \<and> blocked c' = [] \<and> woken c' = []"
proof (rule nmea_time_request_answered [where ms = "[antenna_line]"])
  show range: "zda_range 12 30 15 9 6 2011" by (simp add: zda_range_def)
  show "handle_all (condor_handle nmea_exact_env) [antenna_line] (condor_asked (0, 0) (n_ctl ready_condor)) =
      Some ((condor_asked (0, 0) (n_ctl ready_condor))\<lparr>inst_buf := fill_inst antenna_line (inst_buf (condor_asked (0, 0) (n_ctl ready_condor))),
        gps_fault := GPS_OK\<rparr>)"
    by (simp add: antenna_line_handled)
  show "\<forall>reads\<in>set [[nmea_frame antenna_line], [nmea_frame (zda_msg 12 30 15 9 6 2011)]].
      [] \<notin> set reads \<and> 102 + length (concat reads) < MSG_BUF_SIZE"
    using zda_msg_ok(2) [OF range] by (simp add: nmea_frame_def antenna_line_bytes MSG_BUF_SIZE_def)
qed (simp_all add: ready_condor_ok, simp_all add: ready_condor_def condor_ctl0_def antenna_line_bytes nmea_msg_def
      INST_BUF_SIZE_def MSG_TIME_def)

theorem lost_fix_is_masked_witness:
  "\<exists>c1. condor_handle nmea_exact_env no_fix_line (condor_asked (0, 0) condor_ctl0) = Some c1 \<and> gps_state c1 = GPS_SEARCH \<and>
    blocked c1 = [Time_Caller] \<and> woken c1 = [] \<and>
    (\<exists>c2 c3. condor_handle nmea_exact_env (zda_msg 12 30 15 9 6 2011) c1 = Some c2 \<and> nmea_caller_resumes c2 = Returned 0 c3 \<and>
      gps_state c3 = GPS_READY)"
proof -
  obtain c1 where c1: "condor_handle nmea_exact_env no_fix_line (condor_asked (0, 0) condor_ctl0) = Some c1"
    "gps_state c1 = GPS_SEARCH" using no_fix_line_handled by blast
  have "condor_pending (condor_asked (0, 0) condor_ctl0)" "gps_state (condor_asked (0, 0) condor_ctl0) = GPS_QUERY"
    "nmea_msg no_fix_line" "take 5 no_fix_line = MSG_STATUS_TIME_POS" "zda_range 12 30 15 9 6 2011"
    by (simp_all add: condor_pending_def condor_asked_def condor_ctl0_def nmea_msg_def no_fix_line_bytes INST_BUF_SIZE_def
        MSG_STATUS_TIME_POS_def zda_range_def)
  from lost_fix_is_masked [OF this(1-4) c1 this(5)] c1 show ?thesis by blast
qed

end
