(* ===== verification/Sync_Filters.thy ===== *)
theory Sync_Filters
  imports Byte_Buffer
begin

text \<open>
  The filters of the synchronisation protocol in the radio driver: the table of pointers of
  \<^verbatim>\<open>rt2501/sources/Module/filter_chains.c\<close>, kept here byte by byte as the memory has it, the proc file of
  \<^verbatim>\<open>proc_filters.c\<close> through which filters are registered, removed and listed, and the programs
  \<^verbatim>\<open>user/mkfilter.c\<close> and \<^verbatim>\<open>user/rmfilter.c\<close> that write to it.
\<close>

section \<open>State\<close>

record sfilter =
  sf_proto :: u8
  sf_dst_addr :: u32
  sf_src_addr :: u32
  sf_dst_port :: u16
  sf_src_port :: u16

text \<open>\<^verbatim>\<open>sizeof(filter)\<close> is 16: one byte, three bytes of padding, and the rest; fields in network order are
  kept as the words the machine reads.\<close>

definition filter_bytes :: "u8 list \<Rightarrow> sfilter \<Rightarrow> u8 list" where
  "filter_bytes gap f = [sf_proto f] @ gap @ word_bytes 4 (sf_dst_addr f) @ word_bytes 4 (sf_src_addr f) @
     word_bytes 2 (sf_dst_port f) @ word_bytes 2 (sf_src_port f)"

definition filter_of :: "u8 list \<Rightarrow> sfilter" where
  "filter_of bs = \<lparr>sf_proto = bs ! 0, sf_dst_addr = bytes_word (take 4 (drop 4 bs)),
     sf_src_addr = bytes_word (take 4 (drop 8 bs)), sf_dst_port = bytes_word (take 2 (drop 12 bs)),
     sf_src_port = bytes_word (take 2 (drop 14 bs))\<rparr>"

text \<open>\<^verbatim>\<open>chains\<close> is an array of 256 pointers of 4 bytes; \<^verbatim>\<open>heap\<close> holds the filters that are allocated.  The
  cache of the proc file is \<^verbatim>\<open>proc_contents\<close>; \<^verbatim>\<open>None\<close> is the null pointer.\<close>

record sync_filters =
  sf_chains :: "u8 list"
  nfilters :: u8
  sf_heap :: "u32 \<Rightarrow> sfilter option"
  pc_dirty :: bool
  pc_size :: nat
  pc_offset :: nat
  file_buffer :: "string option"

definition chain_ptr :: "sync_filters \<Rightarrow> nat \<Rightarrow> u32" where
  "chain_ptr st i = bytes_word (take 4 (drop (4 * i) (sf_chains st)))"

section \<open>filter_chains.c\<close>

definition mess_proc_filters :: "sync_filters \<Rightarrow> sync_filters" where
  "mess_proc_filters st = st\<lparr>pc_dirty := True\<rparr>"

definition sf_register_filter :: "u32 \<Rightarrow> sync_filters \<Rightarrow> sync_filters" where
  "sf_register_filter p st = (let i = 4 * unat (nfilters st) in
     mess_proc_filters (st\<lparr>sf_chains := take i (sf_chains st) @ word_bytes 4 p @ drop (i + 4) (sf_chains st),
       nfilters := nfilters st + 1\<rparr>))"

text \<open>\<^verbatim>\<open>memmove\<close>; \<^verbatim>\<open>None\<close> when it leaves the array.\<close>

definition memmove :: "nat \<Rightarrow> nat \<Rightarrow> nat \<Rightarrow> u8 list \<Rightarrow> u8 list option" where
  "memmove dst src n m = (if dst + n \<le> length m then Option.bind (bytes_at m src n) (\<lambda>bs. put_bytes dst bs m) else None)"

text \<open>The length passed to \<^verbatim>\<open>memmove\<close> is an \<^verbatim>\<open>int\<close> converted to \<^verbatim>\<open>size_t\<close>; a negative one is a move of almost
  all memory.  Freeing memory that is not allocated is an error too.\<close>

definition sf_unregister_filter :: "u8 \<Rightarrow> sync_filters \<Rightarrow> sync_filters option" where
  "sf_unregister_filter index st =
     (if chain_ptr st (unat index) = 0 then Some st
      else if sf_heap st (chain_ptr st (unat index)) = None then None
      else do {
        let n = nfilters st - 1;
        let len = int (unat n) - int (unat index);
        if len < 0 then None
        else do {
          m \<leftarrow> memmove (4 * unat index) (4 * (unat index + 1)) (nat len) (sf_chains st);
          Some (mess_proc_filters (st\<lparr>sf_heap := (sf_heap st)(chain_ptr st (unat index) := None), nfilters := n, sf_chains := m\<rparr>))
        }
      })"

definition clean_filters :: "sync_filters \<Rightarrow> sync_filters option" where
  "clean_filters st = fold (\<lambda>i r. Option.bind r (\<lambda>st. if sf_heap st (chain_ptr st i) = None then None
       else Some (st\<lparr>sf_heap := (sf_heap st)(chain_ptr st i := None)\<rparr>))) [0..<unat (nfilters st)] (Some st)"

text \<open>The packet is the IP packet; \<^verbatim>\<open>ihl\<close> is in the low half of its first byte.  \<^verbatim>\<open>None\<close> is a packet that ends before
  a field.\<close>

definition ip_ihl :: "u8 list \<Rightarrow> nat option" where
  "ip_ihl ip = map_option (\<lambda>bs. 4 * unat (hd bs AND 15)) (bytes_at ip 0 1)"

definition match_udp_ports :: "u16 \<Rightarrow> u16 \<Rightarrow> sfilter \<Rightarrow> bool" where
  "match_udp_ports source dest f =
     (\<not> (sf_dst_port f \<noteq> 0 \<and> dest \<noteq> sf_dst_port f) \<and> \<not> (sf_src_port f \<noteq> 0 \<and> source \<noteq> sf_src_port f))"

definition match_ip_ips :: "u32 \<Rightarrow> u32 \<Rightarrow> sfilter \<Rightarrow> bool" where
  "match_ip_ips saddr daddr f =
     (\<not> (sf_dst_addr f \<noteq> 0 \<and> daddr \<noteq> sf_dst_addr f) \<and> \<not> (sf_src_addr f \<noteq> 0 \<and> saddr \<noteq> sf_src_addr f))"

definition sf_match_filter :: "u8 list \<Rightarrow> sfilter \<Rightarrow> bool option" where
  "sf_match_filter ip f = do {
     saddr \<leftarrow> map_option bytes_word (bytes_at ip 12 4);
     daddr \<leftarrow> map_option bytes_word (bytes_at ip 16 4);
     u \<leftarrow> ip_ihl ip;
     source \<leftarrow> map_option bytes_word (bytes_at ip u 2);
     dest \<leftarrow> map_option bytes_word (bytes_at ip (u + 2) 2);
     Some (match_ip_ips saddr daddr f \<or> match_udp_ports source dest f)
   }"

section \<open>proc_filters.c\<close>

definition put_text :: "nat \<Rightarrow> string \<Rightarrow> string \<Rightarrow> string" where
  "put_text i s m = take i m @ s @ drop (i + length s) m"

text \<open>\<^verbatim>\<open>sprintf(buff + i, ...)\<close> followed by \<^verbatim>\<open>buff[strlen(buff)] = ' '\<close>\<close>

definition sprintf_blank :: "nat \<Rightarrow> string \<Rightarrow> string \<Rightarrow> string" where
  "sprintf_blank i s buff = (let b = put_text i (s @ [CHR 0x00]) buff
     in b[length (takeWhile (\<lambda>c. c \<noteq> CHR 0x00) b) := CHR '' ''])"

text \<open>\<^verbatim>\<open>%d.%d.%d.%d\<close> with \<^verbatim>\<open>NIPQUAD\<close>: the bytes of the address in memory order.\<close>

definition nipquad :: "u32 \<Rightarrow> string" where
  "nipquad a = (case map (\<lambda>b. print_nat (unat b)) (word_bytes 4 a) of
     [p, q, r, s] \<Rightarrow> p @ ''.'' @ q @ ''.'' @ r @ ''.'' @ s | _ \<Rightarrow> [])"

definition filter_line :: "nat \<Rightarrow> sfilter \<Rightarrow> string" where
  "filter_line i f = (
     let buff = replicate 48 (CHR '' '');
         buff = sprintf_blank 0 (print_nat i) buff;
         buff = (if sf_src_addr f \<noteq> 0 then sprintf_blank 4 (nipquad (sf_src_addr f)) buff else buff);
         buff = (if sf_dst_addr f \<noteq> 0 then sprintf_blank 20 (nipquad (sf_dst_addr f)) buff else buff);
         buff = (if sf_src_port f \<noteq> 0 then sprintf_blank 36 (print_nat (unat (swap_bytes (sf_src_port f)))) buff else buff)
     in if sf_dst_port f \<noteq> 0 then sprintf_blank 42 (print_nat (unat (swap_bytes (sf_dst_port f)))) buff else buff)"

text \<open>\<^verbatim>\<open>kmalloc\<close> may fail; then the pointer to the buffer is null and its size stays.  The new buffer is
  empty: the old contents are not copied.\<close>

definition realloc_proc_filters :: "bool \<Rightarrow> sync_filters \<Rightarrow> sync_filters" where
  "realloc_proc_filters mem st =
     (if mem then st\<lparr>pc_size := 2 * pc_size st, file_buffer := Some (replicate (2 * pc_size st) (CHR 0x00))\<rparr>
      else st\<lparr>file_buffer := None\<rparr>)"

definition sf_append_to_buffer :: "string \<Rightarrow> sync_filters \<Rightarrow> sync_filters option" where
  "sf_append_to_buffer s st = (case file_buffer st of None \<Rightarrow> None
   | Some b \<Rightarrow> if pc_offset st + length s \<le> length b
       then Some (st\<lparr>file_buffer := Some (put_text (pc_offset st) s b), pc_offset := pc_offset st + length s\<rparr>)
       else None)"

definition filters_header :: string where
  "filters_header = '' ID Src Address     Dst Address    SP   DP     '' @ [CHR 0x0A]"

definition append_filter :: "bool \<Rightarrow> nat \<Rightarrow> sync_filters \<Rightarrow> sync_filters option" where
  "append_filter mem i st = do {
     f \<leftarrow> sf_heap st (chain_ptr st i);
     let st = (if pc_offset st + 48 \<ge> pc_size st then realloc_proc_filters mem st else st);
     st \<leftarrow> sf_append_to_buffer (filter_line i f) st;
     let st = (if pc_offset st + 1 \<ge> pc_size st then realloc_proc_filters mem st else st);
     sf_append_to_buffer [CHR 0x0A] st
   }"

definition fill_filters :: "bool \<Rightarrow> sync_filters \<Rightarrow> sync_filters option" where
  "fill_filters mem st = do {
     b \<leftarrow> file_buffer st;
     st \<leftarrow> sf_append_to_buffer filters_header (st\<lparr>pc_offset := 0, file_buffer := Some (replicate (pc_size st) (CHR 0x00))\<rparr>);
     st \<leftarrow> fold (\<lambda>i st. Option.bind st (append_filter mem i)) [0..<unat (nfilters st)] (Some st);
     Some (st\<lparr>pc_dirty := False\<rparr>)
   }"

text \<open>The result is the bytes copied to the caller; an empty result is the end of the file. \<^verbatim>\<open>None\<close> is an access
  outside the cache.  The number of bytes is computed in 32 bits without a sign, as \<^verbatim>\<open>buffer_offset\<close> has none.\<close>

definition filters_read :: "bool \<Rightarrow> u32 \<Rightarrow> u32 \<Rightarrow> sync_filters \<Rightarrow> (string \<times> sync_filters) option" where
  "filters_read mem offset buffer_length st = do {
     st \<leftarrow> (if pc_dirty st then fill_filters mem st else Some st);
     b \<leftarrow> file_buffer st;
     let rest = of_nat (pc_offset st) + 1 - offset;
     let n = unat (if rest > buffer_length then buffer_length else rest);
     if n = 0 then Some ([], st)
     else if unat offset + n \<le> length b then Some (take n (drop (unat offset) b), st) else None
   }"

text \<open>The write: \<^verbatim>\<open>p\<close> is what \<^verbatim>\<open>kmalloc\<close> returns. More than 18 bytes overwrite the stack, which is \<^verbatim>\<open>None\<close>. The
  first result is the return value of the call.\<close>

definition filters_write :: "u32 \<Rightarrow> u8 list \<Rightarrow> sync_filters \<Rightarrow> (int \<times> sync_filters) option" where
  "filters_write p buffer st = (
     let count = length buffer; internal = buffer @ replicate (18 - count) 0 in
     if 18 < count then None
     else if internal ! 0 = 82 then
       (if int count - 2 \<noteq> 16 then Some (- 22, st)
        else if p = 0 then Some (0, st)
        else Some (int count, sf_register_filter p (st\<lparr>sf_heap := (sf_heap st)(p := Some (filter_of (take 16 (drop 2 internal))))\<rparr>)))
     else if internal ! 0 = 85 then
       (if internal ! 2 \<ge> nfilters st then Some (- 22, st)
        else map_option (\<lambda>st. (int count, st)) (sf_unregister_filter (internal ! 2) st))
     else Some (int count, st))"

definition initialize_proc_filters :: "bool \<Rightarrow> sync_filters \<Rightarrow> sync_filters" where
  "initialize_proc_filters mem st =
     (if mem then st\<lparr>pc_dirty := True, pc_offset := 0, pc_size := 1024, file_buffer := Some (replicate 1024 (CHR 0x00))\<rparr>
      else st\<lparr>pc_dirty := True, pc_offset := 0, pc_size := 0, file_buffer := None\<rparr>)"

definition teardown_proc_filters :: "sync_filters \<Rightarrow> sync_filters" where
  "teardown_proc_filters st = st\<lparr>file_buffer := None\<rparr>"

definition sync_filters0 :: sync_filters where
  "sync_filters0 = \<lparr>sf_chains = replicate 1024 0, nfilters = 0, sf_heap = (\<lambda>_. None), pc_dirty = False, pc_size = 0,
     pc_offset = 0, file_buffer = None\<rparr>"

section \<open>The user programs\<close>

text \<open>What \<^verbatim>\<open>write_to_proc_entry\<close> writes; \<^verbatim>\<open>gap\<close> is the content of the padding of the local structure.\<close>

definition write_register :: "u8 list \<Rightarrow> u32 \<Rightarrow> u32 \<Rightarrow> u16 \<Rightarrow> u16 \<Rightarrow> u8 list" where
  "write_register gap daddr saddr dport sport = [82, 0] @ filter_bytes gap \<lparr>sf_proto = 17, sf_dst_addr = daddr,
     sf_src_addr = saddr, sf_dst_port = dport, sf_src_port = sport\<rparr>"

definition write_unregister :: "u8 \<Rightarrow> u8 list" where
  "write_unregister index = [85, 0, index]"

text \<open>\<^verbatim>\<open>mkfilter\<close>: \<^verbatim>\<open>pton\<close> is \<^verbatim>\<open>inet_pton\<close>, which gives the new value of the variable, or \<^verbatim>\<open>None\<close> when it returns a negative
  number; \<^verbatim>\<open>num\<close> is \<^verbatim>\<open>atoi\<close>.  A missing argument is \<^verbatim>\<open>argv[argc]\<close>, the null pointer.\<close>

record mkfilter_opts =
  mf_daddr :: u32
  mf_saddr :: u32
  mf_dport :: u16
  mf_sport :: u16

fun mkfilter_args :: "(string \<Rightarrow> u32 \<Rightarrow> u32 option) \<Rightarrow> (string \<Rightarrow> int) \<Rightarrow> string list \<Rightarrow> mkfilter_opts \<Rightarrow> mkfilter_opts option" where
  "mkfilter_args pton num [] q = Some q"
| "mkfilter_args pton num (a # args) q =
     (if a = ''-da'' then
        (case args of [] \<Rightarrow> None | b # args \<Rightarrow>
           Option.bind (pton b (mf_daddr q)) (\<lambda>w. mkfilter_args pton num args (q\<lparr>mf_daddr := w\<rparr>)))
      else if a = ''-sa'' then
        (case args of [] \<Rightarrow> None | b # args \<Rightarrow>
           Option.bind (pton b (mf_saddr q)) (\<lambda>w. mkfilter_args pton num args (q\<lparr>mf_saddr := w\<rparr>)))
      else if a = ''-dp'' then
        (case args of [] \<Rightarrow> None | b # args \<Rightarrow> mkfilter_args pton num args (q\<lparr>mf_dport := swap_bytes (of_int (num b))\<rparr>))
      else if a = ''-sp'' then
        (case args of [] \<Rightarrow> None | b # args \<Rightarrow> mkfilter_args pton num args (q\<lparr>mf_sport := swap_bytes (of_int (num b))\<rparr>))
      else mkfilter_args pton num args q)"

definition mkfilter_main :: "(string \<Rightarrow> u32 \<Rightarrow> u32 option) \<Rightarrow> (string \<Rightarrow> int) \<Rightarrow> u8 list \<Rightarrow> string list \<Rightarrow> u8 list option" where
  "mkfilter_main pton num gap args =
     (if args = [] then None
      else map_option (\<lambda>q. write_register gap (mf_daddr q) (mf_saddr q) (mf_sport q) (mf_dport q))
        (mkfilter_args pton num args \<lparr>mf_daddr = 0, mf_saddr = 0, mf_dport = 0, mf_sport = 0\<rparr>))"

definition rmfilter_main :: "(string \<Rightarrow> int) \<Rightarrow> string list \<Rightarrow> u8 list option" where
  "rmfilter_main num args = (case args of [a] \<Rightarrow> Some (write_unregister (of_int (num a))) | _ \<Rightarrow> None)"

section \<open>The table of filters\<close>

lemma length_filter_bytes: "length gap = 3 \<Longrightarrow> length (filter_bytes gap f) = 16"
  by (simp add: filter_bytes_def del: word_bytes_numeral)

lemma filter_of_bytes:
  assumes "length gap = 3"
  shows "filter_of (filter_bytes gap f) = f"
proof -
  obtain a b c where "gap = [a, b, c]" using assms by (auto simp: length_Suc_conv numeral_3_eq_3)
  then show ?thesis
    by (simp add: filter_of_def filter_bytes_def bytes_word_word_bytes del: word_bytes_numeral bytes_word.simps)
qed

lemma length_register [simp]:
  "length (sf_chains st) = 1024 \<Longrightarrow> length (sf_chains (sf_register_filter p st)) = 1024"
  using unat_u8_less [of "nfilters st"]
  by (simp add: sf_register_filter_def mess_proc_filters_def Let_def del: word_bytes_numeral)

lemma register_fields [simp]:
  "nfilters (sf_register_filter p st) = nfilters st + 1" "sf_heap (sf_register_filter p st) = sf_heap st"
  "pc_dirty (sf_register_filter p st)"
  by (simp_all add: sf_register_filter_def mess_proc_filters_def Let_def)

lemma chain_ptr_register:
  assumes "length (sf_chains st) = 1024" "i < 256"
  shows "chain_ptr (sf_register_filter p st) i = (if i = unat (nfilters st) then p else chain_ptr st i)"
proof -
  let ?n = "unat (nfilters st)" and ?m = "sf_chains st"
  have n: "?n < 256" by (rule unat_u8_less)
  define ws where "ws = word_bytes 4 p"
  have ws: "length ws = 4" "bytes_word ws = p" by (simp_all add: ws_def bytes_word_word_bytes del: word_bytes_numeral)
  have "take 4 (drop (4 * i) (take (4 * ?n) ?m @ ws @ drop (4 * ?n + 4) ?m)) = (if i = ?n then ws else take 4 (drop (4 * i) ?m))"
  proof (cases i ?n rule: linorder_cases)
    case less
    then have "4 * i + 4 \<le> 4 * ?n" by simp
    then show ?thesis using assms n less ws(1) by (intro nth_equalityI) (auto simp: nth_append)
  next
    case equal
    then show ?thesis using assms n ws by simp
  next
    case greater
    then have "4 * i - 4 * ?n - 4 + (4 * ?n + 4) = 4 * i" by simp
    then show ?thesis using assms n ws greater by (simp add: add.commute)
  qed
  then show ?thesis
    using ws by (auto simp: chain_ptr_def sf_register_filter_def mess_proc_filters_def Let_def ws_def simp del: word_bytes_numeral)
qed

text \<open>A read that starts inside the text gets the rest of it and one byte more; one that starts behind it gets
  whatever follows in memory, as much as the caller asks for.\<close>

lemma filters_read_clean:
  assumes "\<not> pc_dirty st" "file_buffer st = Some b" "of_nat (pc_offset st) + 1 - offset = rest"
  shows "filters_read mem offset buffer_length st = (let n = unat (if rest > buffer_length then buffer_length else rest) in
    if n = 0 then Some ([], st)
    else if unat offset + n \<le> length b then Some (take n (drop (unat offset) b), st) else None)"
  unfolding filters_read_def assms(2) assms(3) [symmetric] using assms(1,2) by simp

lemma filters_read_inside:
  assumes "\<not> pc_dirty st" "file_buffer st = Some b" "pc_offset st < length b" "pc_offset st + 1 < 2 ^ 32"
    and "unat offset \<le> pc_offset st" "pc_offset st + 1 - unat offset \<le> unat buffer_length"
  shows "filters_read mem offset buffer_length st = Some (drop (unat offset) (take (pc_offset st + 1) b), st)"
proof -
  define rest where "rest = (of_nat (pc_offset st) + 1 - offset :: u32)"
  have "unat (of_nat (pc_offset st + 1) :: u32) = pc_offset st + 1"
    unfolding unat_of_nat using assms(4) by simp
  then have "unat (of_nat (pc_offset st) + 1 :: u32) = pc_offset st + 1" by (simp add: add.commute)
  then have r: "unat rest = pc_offset st + 1 - unat offset"
    using assms(5) unfolding rest_def by (subst unat_sub) (simp_all add: word_le_nat_alt)
  then have "\<not> buffer_length < rest" using assms(6) by (simp add: word_less_nat_alt)
  then show ?thesis
    using filters_read_clean [OF assms(1,2) rest_def [symmetric], of mem buffer_length] r assms(3,5) by (simp add: Let_def drop_take)
qed

lemma filters_read_behind:
  assumes "\<not> pc_dirty st" "file_buffer st = Some b" "unat offset = pc_offset st + 2" "0 < buffer_length" "buffer_length < 0xFFFFFFFF"
    and "length b < unat offset + unat buffer_length"
  shows "filters_read mem offset buffer_length st = None"
proof -
  have "offset = of_nat (pc_offset st) + 2"
    using arg_cong [OF assms(3), of "of_nat :: nat \<Rightarrow> u32"] by simp
  then have "of_nat (pc_offset st) + 1 - offset = 0xFFFFFFFF" by simp
  moreover have "unat buffer_length \<noteq> 0" using assms(4) by (simp add: unat_gt_0)
  ultimately show ?thesis
    using filters_read_clean [OF assms(1,2), of offset "0xFFFFFFFF" mem buffer_length] assms(5,6) by (simp add: Let_def)
qed

text \<open>C35: Removing a filter leaves a wrong pointer in the table. \<^verbatim>\<open>unregister_filter\<close> moves as many bytes as there
  are pointers behind the removed one, and a pointer has four bytes: with two filters registered and
  the first removed, one byte is moved. The remaining entry has the lowest byte of the second
  pointer and the other bytes of the first, whose filter has just been freed; it is the
  second pointer only if the two agree in their upper 24 bits.\<close>

theorem unregister_leaves_wrong_pointer:
  assumes "length (sf_chains st) = 1024" "nfilters st = 0" "p \<noteq> 0" "sf_heap st p = Some f" "sf_heap st q = Some g" "p \<noteq> q"
  shows "\<exists>st'. sf_unregister_filter 0 (sf_register_filter q (sf_register_filter p st)) = Some st' \<and>
    nfilters st' = 1 \<and> sf_heap st' p = None \<and> sf_heap st' q = Some g \<and>
    chain_ptr st' 0 = push_bit 8 (drop_bit 8 p) OR take_bit 8 q \<and>
    (chain_ptr st' 0 = q) = (drop_bit 8 p = drop_bit 8 q)"
proof -
  let ?s = "sf_register_filter q (sf_register_filter p st)"
  have n: "nfilters ?s = 2" using assms by simp
  have ptrs: "chain_ptr ?s 0 = p" using assms by (simp add: chain_ptr_register)
  define rest where "rest = drop 8 (sf_chains st)"
  have "sf_chains ?s = word_bytes 4 p @ word_bytes 4 q @ rest"
    using assms
    by (simp add: sf_register_filter_def mess_proc_filters_def Let_def rest_def del: word_bytes_numeral)
  then have mem: "sf_chains ?s = ucast p # word_bytes 3 (drop_bit 8 p) @ ucast q # word_bytes 3 (drop_bit 8 q) @ rest"
    by (simp add: numeral_eq_Suc del: word_bytes_numeral)
  have "memmove 0 4 1 (sf_chains ?s) = Some (ucast q # word_bytes 3 (drop_bit 8 p) @ ucast q # word_bytes 3 (drop_bit 8 q) @ rest)"
    unfolding mem by (simp add: memmove_def bytes_at_def put_bytes_def del: word_bytes_numeral)
  moreover define st' where "st' = mess_proc_filters (?s\<lparr>sf_heap := (sf_heap ?s)(p := None), nfilters := 1,
    sf_chains := ucast q # word_bytes 3 (drop_bit 8 p) @ ucast q # word_bytes 3 (drop_bit 8 q) @ rest\<rparr>)"
  ultimately have un: "sf_unregister_filter 0 ?s = Some st'"
    using assms n ptrs by (simp add: sf_unregister_filter_def)
  have "chain_ptr st' 0 = bytes_word (ucast q # word_bytes 3 (drop_bit 8 p))"
    by (simp add: chain_ptr_def st'_def mess_proc_filters_def del: word_bytes_numeral bytes_word.simps)
  also have "\<dots> = push_bit 8 (drop_bit 8 p) OR take_bit 8 q"
    by (rule bit_word_eqI)
       (auto simp: bytes_word_word_bytes_take bit_or_iff bit_push_bit_iff bit_unsigned_iff bit_take_bit_iff bit_drop_bit_eq
         simp del: word_bytes_numeral)
  finally have ptr: "chain_ptr st' 0 = push_bit 8 (drop_bit 8 p) OR take_bit 8 q" .
  have "(push_bit 8 (drop_bit 8 p) OR take_bit 8 q = q) = (drop_bit 8 p = drop_bit 8 q)"
  proof
    assume "push_bit 8 (drop_bit 8 p) OR take_bit 8 q = q"
    then have "drop_bit 8 (push_bit 8 (drop_bit 8 p) OR take_bit 8 q) = drop_bit 8 q" by simp
    moreover have "drop_bit 8 (push_bit 8 (drop_bit 8 p) OR take_bit 8 q) = drop_bit 8 p"
      by (rule bit_word_eqI) (auto simp: bit_or_iff bit_push_bit_iff bit_take_bit_iff bit_drop_bit_eq dest: bit_imp_le_length)
    ultimately show "drop_bit 8 p = drop_bit 8 q" by simp
  next
    assume eq: "drop_bit 8 p = drop_bit 8 q"
    show "push_bit 8 (drop_bit 8 p) OR take_bit 8 q = q"
      unfolding eq by (rule bit_word_eqI) (auto simp: bit_or_iff bit_push_bit_iff bit_take_bit_iff bit_drop_bit_eq not_less)
  qed
  with un ptr assms show ?thesis by (auto simp: st'_def mess_proc_filters_def)
qed

text \<open>The last filter is removed correctly, since nothing has to be moved.\<close>

lemma unregister_last_ok:
  assumes "length (sf_chains st) = 1024" "nfilters st < 255" "p \<noteq> 0" "sf_heap st p = Some f"
  shows "\<exists>st'. sf_unregister_filter (nfilters st) (sf_register_filter p st) = Some st' \<and> nfilters st' = nfilters st \<and>
    sf_heap st' = (sf_heap st)(p := None) \<and> (\<forall>i<unat (nfilters st). chain_ptr st' i = chain_ptr st i)"
proof -
  let ?s = "sf_register_filter p st" and ?n = "unat (nfilters st)"
  have n: "?n < 255" using assms(2) by (simp add: word_less_nat_alt)
  have ptr: "chain_ptr ?s ?n = p" using assms n by (simp add: chain_ptr_register)
  have "memmove (4 * ?n) (4 * (?n + 1)) 0 (sf_chains ?s) = Some (sf_chains ?s)"
    using length_register [OF assms(1), of p] n by (simp add: memmove_def bytes_at_def put_bytes_def)
  then have "sf_unregister_filter (nfilters st) ?s
      = Some (mess_proc_filters (?s\<lparr>sf_heap := (sf_heap st)(p := None), nfilters := nfilters st\<rparr>))"
    using assms ptr by (simp add: sf_unregister_filter_def)
  moreover have "chain_ptr ?s i = chain_ptr st i" if "i < ?n" for i
    using that n assms(1) by (simp add: chain_ptr_register)
  ultimately show ?thesis by (simp add: mess_proc_filters_def chain_ptr_def)
qed

text \<open>C36: A filter made with \<^verbatim>\<open>mkfilter\<close> has its ports exchanged: for the options \<^verbatim>\<open>-da a -sa b -dp c -sp d\<close> the program
  writes a command that the proc file accepts, and the filter that the driver then has in its
  table has the given addresses, the source port as its destination port and the destination port as its
  source port. (\<^verbatim>\<open>pton\<close> and \<^verbatim>\<open>num\<close> are \<^verbatim>\<open>inet_pton\<close> and \<^verbatim>\<open>atoi\<close>, \<^verbatim>\<open>p\<close> is the memory the driver allocates.)\<close>

theorem mkfilter_exchanges_ports:
  assumes "length gap = 3" "p \<noteq> 0" "length (sf_chains st) = 1024" "pton a 0 = Some da" "pton b 0 = Some sa"
  shows "\<exists>cmd st'. mkfilter_main pton num gap [''-da'', a, ''-sa'', b, ''-dp'', c, ''-sp'', d] = Some cmd \<and>
    filters_write p cmd st = Some (18, st') \<and> nfilters st' = nfilters st + 1 \<and>
    chain_ptr st' (unat (nfilters st)) = p \<and>
    sf_heap st' p = Some \<lparr>sf_proto = 17, sf_dst_addr = da, sf_src_addr = sa,
      sf_dst_port = swap_bytes (of_int (num d)), sf_src_port = swap_bytes (of_int (num c))\<rparr>"
proof -
  let ?f = "\<lparr>sf_proto = 17, sf_dst_addr = da, sf_src_addr = sa,
      sf_dst_port = swap_bytes (of_int (num d)), sf_src_port = swap_bytes (of_int (num c))\<rparr>"
  have mk: "mkfilter_main pton num gap [''-da'', a, ''-sa'', b, ''-dp'', c, ''-sp'', d] = Some ([82, 0] @ filter_bytes gap ?f)"
    using assms(4,5) by (simp add: mkfilter_main_def write_register_def)
  have len: "length ([82, 0] @ filter_bytes gap ?f) = 18" using length_filter_bytes [OF assms(1)] by simp
  let ?st = "st\<lparr>sf_heap := (sf_heap st)(p := Some ?f)\<rparr>"
  have "filters_write p ([82, 0] @ filter_bytes gap ?f) st = Some (18, sf_register_filter p ?st)"
    using len assms(1,2) length_filter_bytes [OF assms(1), of ?f] filter_of_bytes [OF assms(1), of ?f]
    by (simp add: filters_write_def Let_def)
  moreover have "chain_ptr (sf_register_filter p ?st) (unat (nfilters st)) = p"
    using assms(3) unat_u8_less [of "nfilters st"] by (simp add: chain_ptr_register)
  ultimately show ?thesis using mk by simp
qed

section \<open>Concrete instances\<close>

definition demo_filter :: sfilter where
  "demo_filter = \<lparr>sf_proto = 17, sf_dst_addr = 0, sf_src_addr = 0, sf_dst_port = 0x5713, sf_src_port = 0\<rparr>"

definition demo_filters :: sync_filters where
  "demo_filters = sync_filters0\<lparr>sf_heap := [0xC1001000 \<mapsto> demo_filter, 0xC1002040 \<mapsto> demo_filter]\<rparr>"

theorem unregister_leaves_wrong_pointer_witness:
  "\<exists>st'. sf_unregister_filter 0 (sf_register_filter 0xC1002040 (sf_register_filter 0xC1001000 demo_filters)) = Some st' \<and>
    nfilters st' = 1 \<and> sf_heap st' 0xC1001000 = None \<and> sf_heap st' 0xC1002040 = Some demo_filter \<and>
    chain_ptr st' 0 = push_bit 8 (drop_bit 8 0xC1001000) OR take_bit 8 0xC1002040 \<and>
    (chain_ptr st' 0 = 0xC1002040) = (drop_bit 8 (0xC1001000 :: u32) = drop_bit 8 0xC1002040)"
  by (rule unregister_leaves_wrong_pointer [where f = demo_filter]) (simp_all add: demo_filters_def sync_filters0_def)

theorem mkfilter_exchanges_ports_witness:
  "\<exists>cmd st'. mkfilter_main (\<lambda>s w. Some (of_nat (length s))) (\<lambda>s. int (length s)) [0, 0, 0]
      [''-da'', ''10.0.0.1'', ''-sa'', ''10.0.0.22'', ''-dp'', ''5000'', ''-sp'', ''57843''] = Some cmd \<and>
    filters_write 0xC1003000 cmd demo_filters = Some (18, st') \<and> nfilters st' = nfilters demo_filters + 1 \<and>
    chain_ptr st' (unat (nfilters demo_filters)) = 0xC1003000 \<and>
    sf_heap st' 0xC1003000 = Some \<lparr>sf_proto = 17, sf_dst_addr = of_nat (length ''10.0.0.1''), sf_src_addr = of_nat (length ''10.0.0.22''),
      sf_dst_port = swap_bytes (of_int (int (length ''57843''))), sf_src_port = swap_bytes (of_int (int (length ''5000'')))\<rparr>"
  by (rule mkfilter_exchanges_ports) (simp_all add: demo_filters_def sync_filters0_def)

end
