(* ===== verification/Sync_Proto.thy ===== *)
theory Sync_Proto
  imports Sync_Filters
begin

text \<open>
  The time synchronisation of the radio driver (\<^verbatim>\<open>rt2501/sources/Module/sync_proto.c\<close>): on its way out of a node the
  timestamp of a data packet is replaced by the time since then, on its way into the next one by the time
  of the clock there minus that age, so that the clocks need not agree.  The
  checksum of UDP is recomputed each time.
\<close>

section \<open>RTMPCalcDuration\<close>

definition RateIdTo500Kbps :: "u32 list" where
  "RateIdTo500Kbps = [2, 4, 11, 22, 12, 18, 24, 36, 48, 72, 96, 108, 144, 200]"

text \<open>Microseconds to send \<^verbatim>\<open>sz\<close> bytes; \<^verbatim>\<open>None\<close> is a rate outside the table.\<close>

definition RTMPCalcDuration :: "bool \<Rightarrow> u8 \<Rightarrow> u32 \<Rightarrow> u16 option" where
  "RTMPCalcDuration short_preamble rate sz = (
     if length RateIdTo500Kbps \<le> unat rate then None
     else let r = RateIdTo500Kbps ! unat rate in
       if rate < 4 then
         let d = (if rate > 0 \<and> short_preamble then 96 else 192);
             d = d + ucast (ucast (push_bit 4 sz div r) :: u16)
         in Some (ucast (if push_bit 4 sz mod r \<noteq> 0 then d + 1 else d :: u32))
       else
         let d = 26 + 4 * ucast (ucast ((11 + sz * 4) div r) :: u16)
         in Some (ucast (if (11 + sz * 4) mod r \<noteq> 0 then d + 4 else d :: u32)))"

section \<open>State and surroundings\<close>

text \<open>What a call finds in the kernel: the time of day, whether \<^verbatim>\<open>kmalloc\<close> succeeds, and the adapter.\<close>

record sync_env =
  adhoc_on :: bool
  timeofday :: "u32 \<times> u32"
  atomic_mem :: bool
  failed_count :: u32
  retry_count :: u32
  tx_rate :: u8
  short_preamble :: bool

text \<open>The static variables of \<^verbatim>\<open>synch_out_data_packet\<close>.\<close>

record sync_stat =
  last_fails :: u32
  last_retries :: u32

definition get_kernel_current_time :: "sync_env \<Rightarrow> u64" where
  "get_kernel_current_time env = scast (fst (timeofday env)) * 1000000000 + scast (snd (timeofday env)) * 1000"

section \<open>check_udp\<close>

text \<open>\<^verbatim>\<open>while(sum & 0x00010000)\<close>\<close>

function carry_loop :: "nat \<Rightarrow> nat" where
  "carry_loop acc = (if odd (acc div 65536) then carry_loop (acc mod 65536 + 1) else acc)"
  by pat_completeness auto
termination
proof (relation "measure id")
  fix acc :: nat
  assume "odd (acc div 65536)"
  then have "acc div 65536 \<noteq> 0" by (cases "acc div 65536 = 0") simp_all
  then have "65536 \<le> acc" by (simp add: div_eq_0_iff)
  moreover have "acc mod 65536 < 65536" by simp
  moreover have "acc mod 65536 + 1 \<noteq> acc"
  proof
    assume "acc mod 65536 + 1 = acc"
    with \<open>65536 \<le> acc\<close> \<open>acc mod 65536 < 65536\<close> have "acc = 65536" by simp
    then show False using \<open>acc mod 65536 + 1 = acc\<close> by simp
  qed
  ultimately show "(acc mod 65536 + 1, acc) \<in> measure id" by simp
qed simp

definition sum_words :: "u16 list \<Rightarrow> nat" where
  "sum_words ws = fold (\<lambda>w acc. carry_loop (acc + unat (swap_bytes w))) ws 0"

definition pseudo_hdr_len :: "u16 \<Rightarrow> nat" where
  "pseudo_hdr_len len = (let udp_data_len = unat (len - 8)
     in if odd udp_data_len then (udp_data_len + 21) div 2 else (udp_data_len + 20) div 2)"

text \<open>The memory the sum is taken over: the pseudo header, the UDP header and the data, in \<^verbatim>\<open>n\<close> words.\<close>

definition pseudo_hdr :: "nat \<Rightarrow> u32 \<Rightarrow> u32 \<Rightarrow> u8 list \<Rightarrow> u8 list \<Rightarrow> u8 list option" where
  "pseudo_hdr n saddr daddr raw_len udp = do {
     ph \<leftarrow> put_bytes 0 (word_bytes 4 saddr) (replicate (2 * n) 0);
     ph \<leftarrow> put_bytes 4 (word_bytes 4 daddr) ph;
     ph \<leftarrow> put_bytes 9 [17, 0] ph;
     ph \<leftarrow> put_bytes 10 raw_len ph;
     put_bytes 12 udp ph
   }"

text \<open>\<^verbatim>\<open>u\<close> is the offset of the UDP header in the packet.\<close>

definition check_udp :: "bool \<Rightarrow> nat \<Rightarrow> u32 \<Rightarrow> u32 \<Rightarrow> u8 list \<Rightarrow> u8 list option" where
  "check_udp mem u saddr daddr ip = do {
     raw_len \<leftarrow> bytes_at ip (u + 4) 2;
     let len = swap_bytes (bytes_word raw_len :: u16);
     if \<not> mem then Some ip
     else do {
       ip \<leftarrow> put_bytes (u + 6) [0, 0] ip;
       udp \<leftarrow> bytes_at ip u (unat len);
       ph \<leftarrow> pseudo_hdr (pseudo_hdr_len len) saddr daddr raw_len udp;
       let check = NOT (of_nat (sum_words (u16s ph)) :: u16);
       put_bytes (u + 6) (word_bytes 2 (if check = 0 then 0xFFFF else check)) ip
     }
   }"

text \<open>\<^verbatim>\<open>ntohs\<close> applied to an address: its lower half, swapped.\<close>

definition ntohs_addr :: "u32 \<Rightarrow> u32" where
  "ntohs_addr a = ucast (swap_bytes (ucast a :: u16))"

section \<open>The packet on its way\<close>

text \<open>The search for a matching filter; following a pointer to freed memory is \<^verbatim>\<open>None\<close>.\<close>

primrec match_any :: "sync_filters \<Rightarrow> u8 list \<Rightarrow> nat list \<Rightarrow> bool option" where
  "match_any fs ip [] = Some False"
| "match_any fs ip (i # is) = do {
     f \<leftarrow> sf_heap fs (chain_ptr fs i);
     b \<leftarrow> sf_match_filter ip f;
     if b then Some True else match_any fs ip is
   }"

definition some_filter_matches :: "sync_filters \<Rightarrow> u8 list \<Rightarrow> bool option" where
  "some_filter_matches fs ip = match_any fs ip [0..<unat (nfilters fs)]"

text \<open>\<^verbatim>\<open>pdu->timestamp = get_kernel_current_time() - be64_to_cpu(pdu->timestamp)\<close>; the payload is behind the UDP
  header, with the timestamp first and the time on the air next.\<close>

definition restamp :: "u64 \<Rightarrow> nat \<Rightarrow> u8 list \<Rightarrow> u8 list option" where
  "restamp now u ip = Option.bind (be64_at ip (u + 8)) (\<lambda>t. put_bytes (u + 8) (word_bytes 8 (swap_bytes (now - t))) ip)"

definition add_air :: "u64 \<Rightarrow> nat \<Rightarrow> u8 list \<Rightarrow> u8 list option" where
  "add_air d u ip = Option.bind (be64_at ip (u + 16)) (\<lambda>t. put_bytes (u + 16) (word_bytes 8 (swap_bytes (t + d))) ip)"

definition recheck :: "sync_env \<Rightarrow> nat \<Rightarrow> u8 list \<Rightarrow> u8 list option" where
  "recheck env u ip = do {
     s \<leftarrow> map_option bytes_word (bytes_at ip 12 4);
     d \<leftarrow> map_option bytes_word (bytes_at ip 16 4);
     check_udp (atomic_mem env) u (ntohs_addr s) (ntohs_addr d) ip
   }"

definition put_counts :: "sync_env \<Rightarrow> nat \<Rightarrow> sync_stat \<Rightarrow> u8 list \<Rightarrow> (sync_stat \<times> u8 list) option" where
  "put_counts env u st ip = do {
     ip \<leftarrow> (if last_fails st \<noteq> failed_count env then put_bytes (u + 28) [ucast (last_fails st - failed_count env)] ip else Some ip);
     ip \<leftarrow> (if last_retries st \<noteq> retry_count env then put_bytes (u + 29) [ucast (last_retries st - retry_count env)] ip else Some ip);
     Some (st\<lparr>last_fails := failed_count env, last_retries := retry_count env\<rparr>, ip)
   }"

text \<open>The part of \<^verbatim>\<open>synch_out_data_packet\<close> for an IP packet.\<close>

definition sync_out_ip :: "sync_env \<Rightarrow> sync_filters \<Rightarrow> sync_stat \<Rightarrow> u8 list \<Rightarrow> (sync_stat \<times> u8 list) option" where
  "sync_out_ip env fs st ip = do {
     u \<leftarrow> ip_ihl ip;
     proto \<leftarrow> bytes_at ip 9 1;
     if proto \<noteq> [17] then Some (st, ip)
     else do {
       b \<leftarrow> some_filter_matches fs ip;
       if \<not> b then Some (st, ip)
       else do {
         ip \<leftarrow> restamp (get_kernel_current_time env) u ip;
         tot \<leftarrow> map_option (\<lambda>bs. swap_bytes (bytes_word bs :: u16)) (bytes_at ip 2 2);
         d \<leftarrow> RTMPCalcDuration (short_preamble env) (tx_rate env) (24 + 8 + ucast tot);
         ip \<leftarrow> add_air (50 + ucast d) u ip;
         (st, ip) \<leftarrow> put_counts env u st ip;
         ip \<leftarrow> recheck env u ip;
         Some (st, ip)
       }
     }
   }"

text \<open>The transfer buffer has 24 bytes of control data, the 802.11 header of 24 bytes, and the logical link header
  of 8 bytes with the protocol number in its last two.\<close>

definition synch_out_data_packet :: "sync_env \<Rightarrow> sync_filters \<Rightarrow> sync_stat \<Rightarrow> u8 list \<Rightarrow> (sync_stat \<times> u8 list) option" where
  "synch_out_data_packet env fs st buf =
     (if \<not> adhoc_on env then Some (st, buf)
      else do {
        llc \<leftarrow> bytes_at buf 48 8;
        if llc ! 0 = 0xAA \<and> llc ! 1 = 0xAA \<and> swap_bytes (bytes_word (drop 6 llc) :: u16) = 0x0800
        then map_option (\<lambda>(st, ip). (st, take 56 buf @ ip)) (sync_out_ip env fs st (drop 56 buf))
        else Some (st, buf)
      })"

definition synch_in_data_packet :: "sync_env \<Rightarrow> sync_filters \<Rightarrow> u8 list \<Rightarrow> u8 list \<Rightarrow> u8 list option" where
  "synch_in_data_packet env fs hdr ip =
     (if \<not> adhoc_on env then Some ip
      else do {
        pid \<leftarrow> bytes_at hdr 12 2;
        if swap_bytes (bytes_word pid :: u16) \<noteq> 0x0800 then Some ip
        else do {
          u \<leftarrow> ip_ihl ip;
          proto \<leftarrow> bytes_at ip 9 1;
          if proto \<noteq> [17] then Some ip
          else do {
            b \<leftarrow> some_filter_matches fs ip;
            if \<not> b then Some ip
            else Option.bind (restamp (get_kernel_current_time env) u ip) (recheck env u)
          }
        }
      })"

section \<open>Fields of a packet\<close>

lemma put_bytes_split: "put_bytes i bs m = Some m' \<longleftrightarrow> i + length bs \<le> length m \<and> m' = take i m @ bs @ drop (i + length bs) m"
  by (auto simp: put_bytes_def)

lemma put_bytes_facts:
  assumes "put_bytes i bs m = Some m'"
  shows "length m' = length m" "bytes_at m' i (length bs) = Some bs"
    "\<And>j n. j + n \<le> i \<or> i + length bs \<le> j \<Longrightarrow> bytes_at m' j n = bytes_at m j n"
    "\<And>j. j < i \<or> i + length bs \<le> j \<Longrightarrow> j < length m \<Longrightarrow> m' ! j = m ! j"
proof -
  have m': "i + length bs \<le> length m" "m' = take i m @ bs @ drop (i + length bs) m"
    using assms by (simp_all add: put_bytes_split)
  then show len: "length m' = length m" by simp
  show "bytes_at m' i (length bs) = Some bs" using m' by (simp add: bytes_at_def)
  show nth: "m' ! j = m ! j" if "j < i \<or> i + length bs \<le> j" "j < length m" for j
    using that m' by (auto simp: nth_append)
  show "bytes_at m' j n = bytes_at m j n" if "j + n \<le> i \<or> i + length bs \<le> j" for j n
  proof -
    have "take n (drop j m') = take n (drop j m)" if "j + n \<le> length m"
      using that \<open>j + n \<le> i \<or> i + length bs \<le> j\<close> len nth by (intro nth_equalityI) auto
    then show ?thesis by (simp add: bytes_at_def len)
  qed
qed

lemma put_bytes_exists: "i + length bs \<le> length m \<Longrightarrow> \<exists>m'. put_bytes i bs m = Some m'"
  by (simp add: put_bytes_def)

lemma be64_at_put:
  assumes "put_bytes i (word_bytes 8 (swap_bytes x)) m = Some m'"
  shows "be64_at m' i = Some x"
  using put_bytes_facts(2) [OF assms]
  by (simp add: be64_at_def bytes_word_word_bytes swap_bytes_swap_bytes del: word_bytes_numeral)

text \<open>The fields of the header that decide what the protocol does: everything before the UDP checksum except what
  forwarding changes, the time to live and the checksum of the IP header.\<close>

definition head_eq :: "nat \<Rightarrow> u8 list \<Rightarrow> u8 list \<Rightarrow> bool" where
  "head_eq u ip ip' \<longleftrightarrow> length ip' = length ip \<and> (\<forall>i<u + 6. i \<notin> {8, 10, 11} \<longrightarrow> i < length ip \<longrightarrow> ip' ! i = ip ! i)"

lemma head_eq_refl: "head_eq u ip ip"
  by (simp add: head_eq_def)

lemma head_eq_trans: "head_eq u a b \<Longrightarrow> head_eq u b c \<Longrightarrow> head_eq u a c"
  by (auto simp: head_eq_def)

lemma head_eq_sym: "head_eq u a b \<Longrightarrow> head_eq u b a"
  by (auto simp: head_eq_def)

lemma head_eq_bytes_at:
  assumes "head_eq u ip ip'" "\<And>i. j \<le> i \<Longrightarrow> i < j + n \<Longrightarrow> i < u + 6 \<and> i \<notin> {8, 10, 11}"
  shows "bytes_at ip' j n = bytes_at ip j n"
proof -
  have "take n (drop j ip') = take n (drop j ip)" if "j + n \<le> length ip"
    using assms that by (intro nth_equalityI) (auto simp: head_eq_def)
  then show ?thesis using assms(1) by (simp add: bytes_at_def head_eq_def)
qed

text \<open>A UDP packet long enough for the payload of the sensors.\<close>

definition sensor_packet :: "nat \<Rightarrow> u8 list \<Rightarrow> bool" where
  "sensor_packet u ip \<longleftrightarrow> ip_ihl ip = Some u \<and> 20 \<le> u \<and> bytes_at ip 9 1 = Some [17] \<and> u + 43 \<le> length ip \<and>
     (case bytes_at ip (u + 4) 2 of None \<Rightarrow> False
      | Some raw \<Rightarrow> let len = unat (swap_bytes (bytes_word raw :: u16)) in 8 \<le> len \<and> u + len \<le> length ip)"

lemma head_eq_fields:
  assumes "head_eq u ip ip'" "20 \<le> u"
  shows "bytes_at ip' 0 1 = bytes_at ip 0 1" "bytes_at ip' 2 2 = bytes_at ip 2 2" "bytes_at ip' 9 1 = bytes_at ip 9 1"
    "bytes_at ip' 12 4 = bytes_at ip 12 4" "bytes_at ip' 16 4 = bytes_at ip 16 4" "bytes_at ip' u 2 = bytes_at ip u 2"
    "bytes_at ip' (u + 2) 2 = bytes_at ip (u + 2) 2" "bytes_at ip' (u + 4) 2 = bytes_at ip (u + 4) 2" "ip_ihl ip' = ip_ihl ip"
proof -
  show b: "bytes_at ip' 0 1 = bytes_at ip 0 1" using assms by (intro head_eq_bytes_at) auto
  then show "ip_ihl ip' = ip_ihl ip" by (simp add: ip_ihl_def)
qed (use assms in \<open>auto intro!: head_eq_bytes_at\<close>)

lemma head_eq_sensor_packet: "head_eq u ip ip' \<Longrightarrow> sensor_packet u ip \<Longrightarrow> sensor_packet u ip'"
  using head_eq_fields [of u ip ip']
  by (cases "bytes_at ip (u + 4) 2") (simp_all add: sensor_packet_def head_eq_def Let_def)

lemma head_eq_match:
  assumes "head_eq u ip ip'" "sensor_packet u ip"
  shows "some_filter_matches fs ip' = some_filter_matches fs ip"
proof -
  have u: "20 \<le> u" "ip_ihl ip = Some u" using assms(2) by (simp_all add: sensor_packet_def)
  note eq = head_eq_fields [OF assms(1) u(1)]
  have "sf_match_filter ip' f = sf_match_filter ip f" for f
    using u(2) eq by (simp add: sf_match_filter_def)
  then have "match_any fs ip' is = match_any fs ip is" for "is"
    by (induction "is") (simp_all cong: if_cong)
  then show ?thesis by (simp add: some_filter_matches_def)
qed

lemma put_bytes_head_eq:
  assumes "put_bytes i bs m = Some m'" "u + 6 \<le> i"
  shows "head_eq u m m'"
  using put_bytes_facts(1,4) [OF assms(1)] assms(2) by (simp add: head_eq_def)

section \<open>The steps of the protocol\<close>

text \<open>The timestamp and the time on the air.\<close>

abbreviation pdu_stamp :: "nat \<Rightarrow> u8 list \<Rightarrow> u64 option" where
  "pdu_stamp u ip \<equiv> be64_at ip (u + 8)"

abbreviation pdu_air :: "nat \<Rightarrow> u8 list \<Rightarrow> u64 option" where
  "pdu_air u ip \<equiv> be64_at ip (u + 16)"

lemma be64_at_other:
  assumes "put_bytes i bs m = Some m'" "j + 8 \<le> i \<or> i + length bs \<le> j"
  shows "be64_at m' j = be64_at m j"
  using put_bytes_facts(3) [OF assms(1,2)] by (simp add: be64_at_def)

lemma restamp_ok:
  assumes "u + 43 \<le> length ip" "pdu_stamp u ip = Some t"
  shows "\<exists>ip'. restamp now u ip = Some ip' \<and> head_eq u ip ip' \<and> pdu_stamp u ip' = Some (now - t) \<and> pdu_air u ip' = pdu_air u ip"
proof -
  obtain ip' where ip': "put_bytes (u + 8) (word_bytes 8 (swap_bytes (now - t))) ip = Some ip'"
    using put_bytes_exists [of "u + 8" "word_bytes 8 (swap_bytes (now - t))" ip] assms(1) by auto
  have "head_eq u ip ip'" "pdu_stamp u ip' = Some (now - t)" "pdu_air u ip' = pdu_air u ip"
    using put_bytes_head_eq [OF ip'] be64_at_put [OF ip'] be64_at_other [OF ip', of "u + 16"] by simp_all
  with ip' assms(2) show ?thesis by (simp add: restamp_def del: word_bytes_numeral)
qed

lemma add_air_ok:
  assumes "u + 43 \<le> length ip" "pdu_air u ip = Some a"
  shows "\<exists>ip'. add_air d u ip = Some ip' \<and> head_eq u ip ip' \<and> pdu_stamp u ip' = pdu_stamp u ip \<and> pdu_air u ip' = Some (a + d)"
proof -
  obtain ip' where ip': "put_bytes (u + 16) (word_bytes 8 (swap_bytes (a + d))) ip = Some ip'"
    using put_bytes_exists [of "u + 16" "word_bytes 8 (swap_bytes (a + d))" ip] assms(1) by auto
  have "head_eq u ip ip'" "pdu_stamp u ip' = pdu_stamp u ip" "pdu_air u ip' = Some (a + d)"
    using put_bytes_head_eq [OF ip'] be64_at_put [OF ip'] be64_at_other [OF ip', of "u + 8"] by simp_all
  with ip' assms(2) show ?thesis by (simp add: add_air_def del: word_bytes_numeral)
qed

lemma put_late_ok:
  assumes "u + 43 \<le> length ip" "u + 24 \<le> j" "j < u + 43"
  shows "\<exists>ip'. (if b then put_bytes j [x] ip else Some ip) = Some ip' \<and> head_eq u ip ip' \<and>
    pdu_stamp u ip' = pdu_stamp u ip \<and> pdu_air u ip' = pdu_air u ip"
proof (cases b)
  case True
  obtain ip' where ip': "put_bytes j [x] ip = Some ip'" using put_bytes_exists [of j "[x]" ip] assms by auto
  then show ?thesis
    using True assms put_bytes_head_eq [OF ip', of u] be64_at_other [OF ip', of "u + 8"] be64_at_other [OF ip', of "u + 16"] by simp
qed (simp add: head_eq_refl)

lemma put_counts_ok:
  assumes "u + 43 \<le> length ip"
  shows "\<exists>st' ip'. put_counts env u st ip = Some (st', ip') \<and> head_eq u ip ip' \<and>
    pdu_stamp u ip' = pdu_stamp u ip \<and> pdu_air u ip' = pdu_air u ip"
proof -
  obtain ip1 where 1: "(if last_fails st \<noteq> failed_count env
      then put_bytes (u + 28) [ucast (last_fails st - failed_count env)] ip else Some ip) = Some ip1"
    "head_eq u ip ip1" "pdu_stamp u ip1 = pdu_stamp u ip" "pdu_air u ip1 = pdu_air u ip"
    using put_late_ok [OF assms, of "u + 28" "last_fails st \<noteq> failed_count env" "ucast (last_fails st - failed_count env)"] by auto
  then have "u + 43 \<le> length ip1" using assms by (simp add: head_eq_def)
  then obtain ip2 where 2: "(if last_retries st \<noteq> retry_count env
      then put_bytes (u + 29) [ucast (last_retries st - retry_count env)] ip1 else Some ip1) = Some ip2"
    "head_eq u ip1 ip2" "pdu_stamp u ip2 = pdu_stamp u ip1" "pdu_air u ip2 = pdu_air u ip1"
    using put_late_ok [of u ip1 "u + 29" "last_retries st \<noteq> retry_count env" "ucast (last_retries st - retry_count env)"] by auto
  have "put_counts env u st ip = Some (st\<lparr>last_fails := failed_count env, last_retries := retry_count env\<rparr>, ip2)"
    by (simp only: put_counts_def 1(1) 2(1) Option.bind.bind_lunit)
  then show ?thesis using 1 2 head_eq_trans by auto
qed

lemma pseudo_hdr_exists:
  assumes "length udp + 12 \<le> 2 * n" "8 \<le> length udp" "length raw = 2"
  shows "\<exists>ph. pseudo_hdr n s d raw udp = Some ph"
proof -
  obtain p1 where p1: "put_bytes 0 (word_bytes 4 s) (replicate (2 * n) 0) = Some p1"
    using put_bytes_exists [of 0 "word_bytes 4 s" "replicate (2 * n) 0"] assms by auto
  obtain p2 where p2: "put_bytes 4 (word_bytes 4 d) p1 = Some p2"
    using put_bytes_exists [of 4 "word_bytes 4 d" p1] put_bytes_facts(1) [OF p1] assms by auto
  obtain p3 where p3: "put_bytes 9 [17, 0] p2 = Some p3"
    using put_bytes_exists [of 9 "[17, 0]" p2] put_bytes_facts(1) [OF p1] put_bytes_facts(1) [OF p2] assms by auto
  have lp3: "length p3 = 2 * n"
    using put_bytes_facts(1) [OF p1] put_bytes_facts(1) [OF p2] put_bytes_facts(1) [OF p3] by simp
  obtain p4 where p4: "put_bytes 10 raw p3 = Some p4"
    using put_bytes_exists [of 10 raw p3] lp3 assms by auto
  obtain p5 where "put_bytes 12 udp p4 = Some p5"
    using put_bytes_exists [of 12 udp p4] put_bytes_facts(1) [OF p4] lp3 assms by auto
  then show ?thesis using p1 p2 p3 p4 by (simp add: pseudo_hdr_def del: word_bytes_numeral)
qed

lemma check_udp_ok:
  assumes "sensor_packet u ip"
  shows "\<exists>ip'. check_udp mem u s d ip = Some ip' \<and> head_eq u ip ip' \<and>
    pdu_stamp u ip' = pdu_stamp u ip \<and> pdu_air u ip' = pdu_air u ip"
proof (cases mem)
  case False
  then show ?thesis using assms by (auto simp: check_udp_def sensor_packet_def head_eq_refl split: option.splits)
next
  case True
  obtain raw where raw: "bytes_at ip (u + 4) 2 = Some raw" "length raw = 2"
    using assms by (auto simp: sensor_packet_def bytes_at_def split: option.splits if_splits)
  define len where "len = swap_bytes (bytes_word raw :: u16)"
  have len: "8 \<le> unat len" "u + unat len \<le> length ip" "u + 43 \<le> length ip"
    using assms raw by (simp_all add: sensor_packet_def len_def Let_def)
  define n where "n = pseudo_hdr_len len"
  have "unat (len - 8) = unat len - 8" using len(1) by (simp add: unat_sub word_le_nat_alt)
  then have n: "unat len + 12 \<le> 2 * n" using len(1) by (auto simp: n_def pseudo_hdr_len_def Let_def elim!: oddE evenE)
  obtain ip1 where ip1: "put_bytes (u + 6) [0, 0] ip = Some ip1" using put_bytes_exists [of "u + 6" "[0, 0]" ip] len(3) by auto
  have l1: "length ip1 = length ip" by (rule put_bytes_facts(1) [OF ip1])
  obtain udp where udp: "bytes_at ip1 u (unat len) = Some udp" "length udp = unat len"
    using len(2) l1 by (simp add: bytes_at_def)
  obtain ph where ph: "pseudo_hdr n s d raw udp = Some ph"
    using pseudo_hdr_exists [of udp n raw s d] n len(1) udp(2) raw(2) by auto
  define check where "check = NOT (of_nat (sum_words (u16s ph)) :: u16)"
  obtain ip2 where ip2: "put_bytes (u + 6) (word_bytes 2 (if check = 0 then 0xFFFF else check)) ip1 = Some ip2"
    using put_bytes_exists [of "u + 6" "word_bytes 2 (if check = 0 then 0xFFFF else check)" ip1] len(3) l1 by auto
  have "check_udp mem u s d ip = Some ip2"
    using True raw ip1 udp ph ip2
    by (cases "check = 0") (simp_all add: check_udp_def Let_def len_def [symmetric] n_def [symmetric] check_def [symmetric] del: word_bytes_numeral)
  moreover have "head_eq u ip ip2"
    using put_bytes_head_eq [OF ip1, of u] put_bytes_head_eq [OF ip2, of u] head_eq_trans [of u ip ip1 ip2] by simp
  moreover have "pdu_stamp u ip2 = pdu_stamp u ip" "pdu_air u ip2 = pdu_air u ip"
    using be64_at_other [OF ip1, of "u + 8"] be64_at_other [OF ip1, of "u + 16"]
      be64_at_other [OF ip2, of "u + 8"] be64_at_other [OF ip2, of "u + 16"] by (simp_all del: word_bytes_numeral)
  ultimately show ?thesis by blast
qed

lemma recheck_ok:
  assumes "sensor_packet u ip"
  shows "\<exists>ip'. recheck env u ip = Some ip' \<and> head_eq u ip ip' \<and> pdu_stamp u ip' = pdu_stamp u ip \<and> pdu_air u ip' = pdu_air u ip"
proof -
  have "20 \<le> length ip" using assms by (auto simp: sensor_packet_def)
  then obtain s d where "bytes_at ip 12 4 = Some s" "bytes_at ip 16 4 = Some d" by (simp add: bytes_at_def)
  then show ?thesis using check_udp_ok [OF assms] by (simp add: recheck_def)
qed

section \<open>A packet over several hops\<close>

lemma RTMPCalcDuration_rate: "unat rate < 14 \<Longrightarrow> \<exists>d. RTMPCalcDuration p rate sz = Some d"
  by (auto simp: RTMPCalcDuration_def RateIdTo500Kbps_def Let_def)

text \<open>The estimated time on the air of a packet.\<close>

definition air_time :: "sync_env \<Rightarrow> u8 list \<Rightarrow> u64" where
  "air_time env ip = 50 + ucast (the (RTMPCalcDuration (short_preamble env) (tx_rate env)
     (24 + 8 + ucast (swap_bytes (bytes_word (take 2 (drop 2 ip)) :: u16)))))"

lemma sync_out_ip_ok:
  assumes p: "sensor_packet u ip" and m: "some_filter_matches fs ip = Some True" and r: "unat (tx_rate env) < 14"
    and t: "pdu_stamp u ip = Some t" and a: "pdu_air u ip = Some a"
  shows "\<exists>st' ip'. sync_out_ip env fs st ip = Some (st', ip') \<and> head_eq u ip ip' \<and>
    pdu_stamp u ip' = Some (get_kernel_current_time env - t) \<and> pdu_air u ip' = Some (a + air_time env ip)"
proof -
  have u: "ip_ihl ip = Some u" "20 \<le> u" "bytes_at ip 9 1 = Some [17]" "u + 43 \<le> length ip"
    using p by (simp_all add: sensor_packet_def)
  obtain ip1 where 1: "restamp (get_kernel_current_time env) u ip = Some ip1" "head_eq u ip ip1"
    "pdu_stamp u ip1 = Some (get_kernel_current_time env - t)" "pdu_air u ip1 = Some a"
    using restamp_ok [OF u(4) t] a by auto
  define sz where "sz = (24 + 8 + ucast (swap_bytes (bytes_word (take 2 (drop 2 ip)) :: u16)) :: u32)"
  obtain d where d: "RTMPCalcDuration (short_preamble env) (tx_rate env) sz = Some d" using RTMPCalcDuration_rate [OF r] by blast
  have tot: "bytes_at ip1 2 2 = Some (take 2 (drop 2 ip))"
    using head_eq_fields(2) [OF 1(2) u(2)] u(4) by (simp add: bytes_at_def)
  have "u + 43 \<le> length ip1" using 1(2) u(4) by (simp add: head_eq_def)
  from add_air_ok [OF this 1(4), of "50 + ucast d"] obtain ip2 where 2: "add_air (50 + ucast d) u ip1 = Some ip2"
    "head_eq u ip1 ip2" "pdu_stamp u ip2 = pdu_stamp u ip1" "pdu_air u ip2 = Some (a + (50 + ucast d))" by blast
  have "u + 43 \<le> length ip2" using 1(2) 2(2) u(4) by (simp add: head_eq_def)
  then obtain st' ip3 where 3: "put_counts env u st ip2 = Some (st', ip3)" "head_eq u ip2 ip3"
    "pdu_stamp u ip3 = pdu_stamp u ip2" "pdu_air u ip3 = pdu_air u ip2" using put_counts_ok by blast
  have h3: "head_eq u ip ip3" using 1(2) 2(2) 3(2) head_eq_trans by blast
  then obtain ip4 where 4: "recheck env u ip3 = Some ip4" "head_eq u ip3 ip4"
    "pdu_stamp u ip4 = pdu_stamp u ip3" "pdu_air u ip4 = pdu_air u ip3"
    using recheck_ok [OF head_eq_sensor_packet [OF h3 p]] by blast
  have "sync_out_ip env fs st ip = Some (st', ip4)"
    using u m 1(1) tot d 2(1) 3(1) 4(1) by (simp add: sync_out_ip_def sz_def)
  moreover have "air_time env ip = 50 + ucast d" by (simp only: air_time_def sz_def [symmetric] d option.sel)
  moreover have "head_eq u ip ip4" by (rule head_eq_trans [OF h3 4(2)])
  ultimately show ?thesis using 4(3,4) 3(3,4) 2(3,4) 1(3) by simp
qed

lemma synch_in_ok:
  assumes p: "sensor_packet u ip" and m: "some_filter_matches fs ip = Some True" and t: "pdu_stamp u ip = Some t"
    and h: "adhoc_on env" "bytes_at hdr 12 2 = Some [8, 0]"
  shows "\<exists>ip'. synch_in_data_packet env fs hdr ip = Some ip' \<and> head_eq u ip ip' \<and>
    pdu_stamp u ip' = Some (get_kernel_current_time env - t) \<and> pdu_air u ip' = pdu_air u ip"
proof -
  have u: "ip_ihl ip = Some u" "bytes_at ip 9 1 = Some [17]" "u + 43 \<le> length ip"
    using p by (simp_all add: sensor_packet_def)
  obtain ip1 where 1: "restamp (get_kernel_current_time env) u ip = Some ip1" "head_eq u ip ip1"
    "pdu_stamp u ip1 = Some (get_kernel_current_time env - t)" "pdu_air u ip1 = pdu_air u ip"
    using restamp_ok [OF u(3) t] by blast
  obtain ip2 where 2: "recheck env u ip1 = Some ip2" "head_eq u ip1 ip2"
    "pdu_stamp u ip2 = pdu_stamp u ip1" "pdu_air u ip2 = pdu_air u ip1"
    using recheck_ok [OF head_eq_sensor_packet [OF 1(2) p]] by blast
  have "swap_bytes (bytes_word [8, 0] :: u16) = 0x0800" by (simp add: swap_bytes_def)
  then have "synch_in_data_packet env fs hdr ip = Some ip2"
    using h u m 1(1) 2(1) by (simp add: synch_in_data_packet_def)
  moreover have "head_eq u ip ip2" by (rule head_eq_trans [OF 1(2) 2(2)])
  ultimately show ?thesis using 1(3,4) 2(3,4) by simp
qed

text \<open>One hop: the node sends the packet, after forwarding it when it came from another one, and the next one
  receives it; \<^verbatim>\<open>h_hdr\<close> are the control data and headers in front of the packet in the sender's buffer and \<^verbatim>\<open>h_eth\<close> is
  the header the receiver makes.\<close>

record sync_hop =
  h_fwd :: "u8 list \<Rightarrow> u8 list"
  h_out :: sync_env
  h_ofs :: sync_filters
  h_stat :: sync_stat
  h_hdr :: "u8 list"
  h_in :: sync_env
  h_ifs :: sync_filters
  h_eth :: "u8 list"

primrec travel :: "sync_hop list \<Rightarrow> u8 list \<Rightarrow> u8 list option" where
  "travel [] ip = Some ip"
| "travel (h # hs) ip = do {
     (_, buf) \<leftarrow> synch_out_data_packet (h_out h) (h_ofs h) (h_stat h) (h_hdr h @ h_fwd h ip);
     ip \<leftarrow> synch_in_data_packet (h_in h) (h_ifs h) (h_eth h) (drop 56 buf);
     travel hs ip
   }"

text \<open>Forwarding changes nothing but the time to live and the checksum of the header.\<close>

definition forwards :: "(u8 list \<Rightarrow> u8 list) \<Rightarrow> bool" where
  "forwards fwd \<longleftrightarrow> (\<forall>ip. length (fwd ip) = length ip \<and> (\<forall>i<length ip. i \<notin> {8, 10, 11} \<longrightarrow> fwd ip ! i = ip ! i))"

definition hop_ok :: "u8 list \<Rightarrow> sync_hop \<Rightarrow> bool" where
  "hop_ok ip h \<longleftrightarrow> forwards (h_fwd h) \<and> adhoc_on (h_out h) \<and> adhoc_on (h_in h) \<and> length (h_hdr h) = 56 \<and>
     h_hdr h ! 48 = 0xAA \<and> h_hdr h ! 49 = 0xAA \<and> drop 54 (h_hdr h) = [8, 0] \<and> bytes_at (h_eth h) 12 2 = Some [8, 0] \<and>
     unat (tx_rate (h_out h)) < 14 \<and>
     some_filter_matches (h_ofs h) ip = Some True \<and> some_filter_matches (h_ifs h) ip = Some True"

lemma forwards_keeps:
  assumes "forwards fwd" "12 \<le> u"
  shows "head_eq u ip (fwd ip)" "be64_at (fwd ip) (u + k) = be64_at ip (u + k)"
proof -
  show "head_eq u ip (fwd ip)" using assms by (simp add: forwards_def head_eq_def)
  have "take 8 (drop (u + k) (fwd ip)) = take 8 (drop (u + k) ip)"
    using assms by (intro nth_equalityI) (auto simp: forwards_def)
  then show "be64_at (fwd ip) (u + k) = be64_at ip (u + k)"
    using assms(1) by (simp add: be64_at_def bytes_at_def forwards_def)
qed

definition hop_gain :: "sync_hop \<Rightarrow> u64" where
  "hop_gain h = get_kernel_current_time (h_in h) - get_kernel_current_time (h_out h)"

lemma hop_out_ok:
  assumes h: "hop_ok ip0 h" and eq: "head_eq u ip0 ip" and p: "sensor_packet u ip0"
    and t: "pdu_stamp u ip = Some t" and a: "pdu_air u ip = Some a"
  shows "\<exists>st buf ip'. synch_out_data_packet (h_out h) (h_ofs h) (h_stat h) (h_hdr h @ h_fwd h ip) = Some (st, buf) \<and>
    drop 56 buf = ip' \<and> head_eq u ip0 ip' \<and> pdu_stamp u ip' = Some (get_kernel_current_time (h_out h) - t) \<and>
    pdu_air u ip' = Some (a + air_time (h_out h) ip0)"
proof -
  let ?ip = "h_fwd h ip"
  have u: "20 \<le> u" "u + 43 \<le> length ip0" using p by (simp_all add: sensor_packet_def)
  have fwd: "head_eq u ip ?ip" "pdu_stamp u ?ip = Some t" "pdu_air u ?ip = Some a"
    using forwards_keeps [of "h_fwd h" u ip] h u t a by (simp_all add: hop_ok_def)
  have eq': "head_eq u ip0 ?ip" by (rule head_eq_trans [OF eq fwd(1)])
  have m: "some_filter_matches (h_ofs h) ?ip = Some True" using head_eq_match [OF eq' p] h by (simp add: hop_ok_def)
  have "bytes_at ?ip 2 2 = bytes_at ip0 2 2" by (rule head_eq_fields(2) [OF eq' u(1)])
  then have air: "air_time (h_out h) ?ip = air_time (h_out h) ip0"
    using u eq' by (simp add: bytes_at_def air_time_def head_eq_def)
  obtain st ip' where out: "sync_out_ip (h_out h) (h_ofs h) (h_stat h) ?ip = Some (st, ip')" "head_eq u ?ip ip'"
    "pdu_stamp u ip' = Some (get_kernel_current_time (h_out h) - t)" "pdu_air u ip' = Some (a + air_time (h_out h) ip0)"
    using sync_out_ip_ok [OF head_eq_sensor_packet [OF eq' p] m _ fwd(2,3), of "h_out h" "h_stat h"] h air by (auto simp: hop_ok_def)
  have hdr: "length (h_hdr h) = 56" "h_hdr h ! 48 = 0xAA" "h_hdr h ! 49 = 0xAA" "drop 54 (h_hdr h) = [8, 0]" "adhoc_on (h_out h)"
    using h by (simp_all add: hop_ok_def)
  have llc: "bytes_at (h_hdr h @ ?ip) 48 8 = Some (drop 48 (h_hdr h))" using hdr(1) by (simp add: bytes_at_def)
  have "swap_bytes (bytes_word [8, 0] :: u16) = 0x0800" by (simp add: swap_bytes_def)
  then have "synch_out_data_packet (h_out h) (h_ofs h) (h_stat h) (h_hdr h @ ?ip) = Some (st, h_hdr h @ ip')"
    using hdr llc out(1) by (simp add: synch_out_data_packet_def)
  then show ?thesis using hdr(1) out head_eq_trans [OF eq' out(2)] by simp
qed

lemma travel_step:
  assumes h: "hop_ok ip0 h" and eq: "head_eq u ip0 ip" and p: "sensor_packet u ip0"
    and t: "pdu_stamp u ip = Some t" and a: "pdu_air u ip = Some a"
  shows "\<exists>ip'. travel (h # hs) ip = travel hs ip' \<and> head_eq u ip0 ip' \<and> pdu_stamp u ip' = Some (t + hop_gain h) \<and>
    pdu_air u ip' = Some (a + air_time (h_out h) ip0)"
proof -
  obtain st buf ip1 where 1: "synch_out_data_packet (h_out h) (h_ofs h) (h_stat h) (h_hdr h @ h_fwd h ip) = Some (st, buf)"
    "drop 56 buf = ip1" "head_eq u ip0 ip1" "pdu_stamp u ip1 = Some (get_kernel_current_time (h_out h) - t)"
    "pdu_air u ip1 = Some (a + air_time (h_out h) ip0)" using hop_out_ok [OF assms] by blast
  have m: "some_filter_matches (h_ifs h) ip1 = Some True" using head_eq_match [OF 1(3) p] h by (simp add: hop_ok_def)
  obtain ip2 where 2: "synch_in_data_packet (h_in h) (h_ifs h) (h_eth h) ip1 = Some ip2" "head_eq u ip1 ip2"
    "pdu_stamp u ip2 = Some (get_kernel_current_time (h_in h) - (get_kernel_current_time (h_out h) - t))"
    "pdu_air u ip2 = pdu_air u ip1"
    using synch_in_ok [OF head_eq_sensor_packet [OF 1(3) p] m 1(4)] h by (auto simp: hop_ok_def)
  have "travel (h # hs) ip = travel hs ip2" using 1(1,2) 2(1) by simp
  moreover have "head_eq u ip0 ip2" by (rule head_eq_trans [OF 1(3) 2(2)])
  moreover have "get_kernel_current_time (h_in h) - (get_kernel_current_time (h_out h) - t) = t + hop_gain h"
    by (simp add: hop_gain_def)
  ultimately show ?thesis using 1(5) 2(3,4) by auto
qed

lemma travel_sums:
  assumes "\<forall>h\<in>set hs. hop_ok ip0 h" "head_eq u ip0 ip" "sensor_packet u ip0" "pdu_stamp u ip = Some t" "pdu_air u ip = Some a"
  shows "\<exists>ip'. travel hs ip = Some ip' \<and> pdu_stamp u ip' = Some (t + sum_list (map hop_gain hs)) \<and>
    pdu_air u ip' = Some (a + sum_list (map (\<lambda>h. air_time (h_out h) ip0) hs))"
  using assms
proof (induction hs arbitrary: ip t a)
  case (Cons h hs)
  then obtain ip1 where 1: "travel (h # hs) ip = travel hs ip1" "head_eq u ip0 ip1" "pdu_stamp u ip1 = Some (t + hop_gain h)"
    "pdu_air u ip1 = Some (a + air_time (h_out h) ip0)" using travel_step [of ip0 h u ip t a hs] by auto
  from Cons.IH [OF _ 1(2) Cons.prems(3) 1(3,4)] Cons.prems(1) 1(1) show ?case by (simp add: add.assoc)
qed simp

text \<open>C4: The timestamp of a packet is the time of its creation on the clock of the node that has it, no matter how the
  clocks are set. A packet created at \<^verbatim>\<open>t\<close> on the clock of its first node travels over any number of hops; the
  clock of the \<^verbatim>\<open>k\<close>-th node is \<^verbatim>\<open>off k\<close> ahead of real time, and hop \<^verbatim>\<open>k\<close> leaves at the real time \<^verbatim>\<open>T k\<close> and takes \<^verbatim>\<open>D k\<close>.
  At the last node the timestamp is \<^verbatim>\<open>t\<close> moved to the clock there, late by exactly the sum of the times on the air, and the
  field \<^verbatim>\<open>air\<close> has grown by the estimates of these times. All arithmetic is that of 64 bits.\<close>

theorem timestamp_follows_the_clock:
  assumes "sensor_packet u ip" "be64_at ip (u + 8) = Some t" "be64_at ip (u + 16) = Some a" "\<forall>h\<in>set hs. hop_ok ip h"
    and "\<forall>k<length hs. get_kernel_current_time (h_out (hs ! k)) = T k + off k \<and>
      get_kernel_current_time (h_in (hs ! k)) = T k + D k + off (Suc k)"
  shows "\<exists>ip'. travel hs ip = Some ip' \<and>
    be64_at ip' (u + 8) = Some (t + (off (length hs) - off 0) + (\<Sum>k<length hs. D k)) \<and>
    be64_at ip' (u + 16) = Some (a + (\<Sum>k<length hs. air_time (h_out (hs ! k)) ip))"
proof -
  have "sum_list (map hop_gain hs) = (\<Sum>k<length hs. hop_gain (hs ! k))"
    by (simp add: sum_list_sum_nth atLeast0LessThan)
  also have "\<dots> = (\<Sum>k<length hs. D k + (off (Suc k) - off k))"
    using assms(5) by (intro sum.cong) (simp_all add: hop_gain_def)
  also have "\<dots> = (\<Sum>k<length hs. D k) + (off (length hs) - off 0)"
    by (simp only: sum.distrib sum_lessThan_telescope)
  finally have gain: "sum_list (map hop_gain hs) = (\<Sum>k<length hs. D k) + (off (length hs) - off 0)" .
  have "sum_list (map (\<lambda>h. air_time (h_out h) ip) hs) = (\<Sum>k<length hs. air_time (h_out (hs ! k)) ip)"
    by (simp add: sum_list_sum_nth atLeast0LessThan)
  then show ?thesis
    using travel_sums [OF assms(4) head_eq_refl assms(1,2,3)] gain by (simp add: add_ac)
qed

section \<open>Two hops\<close>

text \<open>Three nodes whose clocks are 0, 100 and 50 seconds ahead; the hops take 5 seconds and 1 second.\<close>

definition hop_packet :: "u8 list" where
  "hop_packet = [0x45, 0, 0, 63, 0, 0, 0, 0, 64, 17, 0, 0, 10, 0, 0, 1, 10, 0, 0, 22, 0x13, 0x88, 0xE1, 0xF3, 0, 43, 0, 0,
     0, 0, 0, 0, 0, 0, 0, 7, 0, 0, 0, 0, 0, 0, 0, 3] @ replicate 19 0"

definition demo_env :: "u32 \<Rightarrow> sync_env" where
  "demo_env secs = \<lparr>adhoc_on = True, timeofday = (secs, 0), atomic_mem = True, failed_count = 2, retry_count = 0,
     tx_rate = 3, short_preamble = False\<rparr>"

definition demo_hop :: "u32 \<Rightarrow> u32 \<Rightarrow> sync_hop" where
  "demo_hop out inn = (let fs = sf_register_filter 0xC1001000 demo_filters in
     \<lparr>h_fwd = id, h_out = demo_env out, h_ofs = fs, h_stat = \<lparr>last_fails = 0, last_retries = 0\<rparr>,
      h_hdr = replicate 48 0 @ [0xAA, 0xAA, 3, 0, 0, 0, 8, 0], h_in = demo_env inn, h_ifs = fs, h_eth = replicate 12 0 @ [8, 0]\<rparr>)"

lemma hop_sensor_packet: "sensor_packet 20 hop_packet" "be64_at hop_packet 28 = Some 7" "be64_at hop_packet 36 = Some 3"
  by (simp_all add: hop_packet_def sensor_packet_def ip_ihl_def be64_at_def bytes_at_def swap_bytes_def)

lemma demo_matches: "some_filter_matches (sf_register_filter 0xC1001000 demo_filters) hop_packet = Some True"
  by (simp add: hop_packet_def some_filter_matches_def sf_register_filter_def demo_filters_def sync_filters0_def demo_filter_def
      mess_proc_filters_def chain_ptr_def sf_match_filter_def ip_ihl_def bytes_at_def match_ip_ips_def)

lemma demo_hop_ok: "hop_ok hop_packet (demo_hop out inn)"
  by (simp add: hop_ok_def demo_hop_def demo_env_def Let_def demo_matches forwards_def bytes_at_def nth_append)

lemma demo_clocks:
  "get_kernel_current_time (h_out (demo_hop out inn)) = scast out * 1000000000"
  "get_kernel_current_time (h_in (demo_hop out inn)) = scast inn * 1000000000"
  by (simp_all add: demo_hop_def demo_env_def Let_def get_kernel_current_time_def)

lemma demo_air_time: "air_time (h_out (demo_hop out inn)) hop_packet = 312"
  by (simp add: demo_hop_def demo_env_def Let_def air_time_def hop_packet_def RTMPCalcDuration_def RateIdTo500Kbps_def swap_bytes_def)

theorem timestamp_follows_the_clock_witness:
  "\<exists>ip'. travel [demo_hop 200 305, demo_hop 310 261] hop_packet = Some ip' \<and>
    be64_at ip' (20 + 8) = Some (7 + 50000000000 + 6000000000) \<and>
    be64_at ip' (20 + 16) = Some (3 + 2 * (50 + 262))"
  using timestamp_follows_the_clock [of 20 hop_packet 7 3 "[demo_hop 200 305, demo_hop 310 261]"
      "\<lambda>k. if k = 0 then 200000000000 else 210000000000" "\<lambda>k. if k = 0 then 0 else if k = 1 then 100000000000 else 50000000000"
      "\<lambda>k. if k = 0 then 5000000000 else 1000000000"]
  by (simp add: hop_sensor_packet demo_hop_ok demo_clocks demo_air_time less_Suc_eq all_conj_distrib del: travel.simps)

end
