(* ===== verification/Java_Float.thy ===== *)
theory Java_Float
  imports Complex_Main "HOL-Library.Log_Nat"
begin

text \<open>
  The arithmetic of Java the results reader uses: integers of 32 and 64 bits that wrap around, and \<^verbatim>\<open>float\<close>, the
  binary32 numbers of IEEE 754 with rounding to the nearest, ties to even.  A finite number is
  kept as the rational it stands for; the two zeros are one.
\<close>

section \<open>Integers\<close>

definition java_int :: "int \<Rightarrow> int" where
  "java_int x = signed_take_bit 31 x"

definition java_long :: "int \<Rightarrow> int" where
  "java_long x = signed_take_bit 63 x"

lemma java_long_id: "- (2 ^ 63) \<le> x \<Longrightarrow> x < 2 ^ 63 \<Longrightarrow> java_long x = x"
  by (simp add: java_long_def signed_take_bit_int_eq_self)

section \<open>Rounding\<close>

datatype jfloat = Fin rat | Inf bool | NaN

definition round_even :: "rat \<Rightarrow> int" where
  "round_even x = (let f = \<lfloor>x\<rfloor>; d = x - of_int f in
     if d < 1 / 2 then f else if d > 1 / 2 then f + 1 else if even f then f else f + 1)"

text \<open>The exponent of the leading binary digit.\<close>

definition float_exp :: "rat \<Rightarrow> int" where
  "float_exp x = (let (p, q) = quotient_of \<bar>x\<bar>; k = bitlen p - bitlen q in if 2 powi k \<le> \<bar>x\<bar> then k else k - 1)"

definition round32 :: "rat \<Rightarrow> jfloat" where
  "round32 x = (if x = 0 then Fin 0
     else let s = max (- 149) (float_exp x - 23); y = of_int (round_even (x / 2 powi s)) * 2 powi s
       in if 2 ^ 128 \<le> \<bar>y\<bar> then Inf (0 < y) else Fin y)"

section \<open>Operations\<close>

fun j_abs :: "jfloat \<Rightarrow> jfloat" where
  "j_abs (Fin x) = Fin \<bar>x\<bar>"
| "j_abs (Inf p) = Inf True"
| "j_abs NaN = NaN"

fun j_neg :: "jfloat \<Rightarrow> jfloat" where
  "j_neg (Fin x) = Fin (- x)"
| "j_neg (Inf p) = Inf (\<not> p)"
| "j_neg NaN = NaN"

fun j_add :: "jfloat \<Rightarrow> jfloat \<Rightarrow> jfloat" where
  "j_add (Fin x) (Fin y) = round32 (x + y)"
| "j_add (Inf p) (Inf q) = (if p = q then Inf p else NaN)"
| "j_add (Inf p) (Fin y) = Inf p"
| "j_add (Fin x) (Inf q) = Inf q"
| "j_add _ _ = NaN"

definition j_sub :: "jfloat \<Rightarrow> jfloat \<Rightarrow> jfloat" where
  "j_sub x y = j_add x (j_neg y)"

fun j_mul :: "jfloat \<Rightarrow> jfloat \<Rightarrow> jfloat" where
  "j_mul (Fin x) (Fin y) = round32 (x * y)"
| "j_mul (Inf p) (Inf q) = Inf (p = q)"
| "j_mul (Inf p) (Fin y) = (if y = 0 then NaN else Inf (p = (0 < y)))"
| "j_mul (Fin x) (Inf q) = (if x = 0 then NaN else Inf ((0 < x) = q))"
| "j_mul _ _ = NaN"

fun j_div :: "jfloat \<Rightarrow> jfloat \<Rightarrow> jfloat" where
  "j_div (Fin x) (Fin y) = (if y \<noteq> 0 then round32 (x / y) else if x = 0 then NaN else Inf (0 < x))"
| "j_div (Inf p) (Fin y) = Inf (p = (0 \<le> y))"
| "j_div (Fin x) (Inf q) = Fin 0"
| "j_div _ _ = NaN"

fun j_less :: "jfloat \<Rightarrow> jfloat \<Rightarrow> bool" where
  "j_less (Fin x) (Fin y) = (x < y)"
| "j_less (Inf p) (Inf q) = (\<not> p \<and> q)"
| "j_less (Inf p) (Fin y) = (\<not> p)"
| "j_less (Fin x) (Inf q) = q"
| "j_less _ _ = False"

definition j_of_int :: "int \<Rightarrow> jfloat" where
  "j_of_int i = round32 (of_int i)"

section \<open>Exact results\<close>

lemma round_even_int [simp]: "round_even (of_int n) = n"
  by (simp add: round_even_def)

lemma float_exp_int:
  assumes "n \<noteq> 0" "\<bar>n\<bar> < 2 ^ m"
  shows "float_exp (of_int n) < int m"
proof -
  have "quotient_of \<bar>of_int n\<bar> = (\<bar>n\<bar>, 1)"
    using quotient_of_Fract [of "\<bar>n\<bar>" 1] by (simp add: Fract_of_int_eq [symmetric] normalize_def flip: of_int_abs)
  moreover have "bitlen \<bar>n\<bar> \<le> int m" using assms(2) by (simp add: bitlen_le_iff_power)
  moreover have "bitlen 1 = 1" by (simp add: bitlen_def floorlog_def)
  ultimately show ?thesis by (simp add: float_exp_def Let_def)
qed

text \<open>An integer of at most 24 significant bits is a \<^verbatim>\<open>float\<close>.\<close>

lemma round32_exact:
  assumes n: "\<bar>n\<bar> < 2 ^ (24 + j)" and dvd: "2 ^ j dvd n" and j: "j < 104"
  shows "round32 (of_int n) = Fin (of_int n)"
proof (cases "n = 0")
  case False
  define s where "s = max (- 149) (float_exp (of_int n) - 23)"
  have s: "s \<le> int j" using float_exp_int [OF False n] by (simp add: s_def)
  have "\<exists>k. of_int n / (2 :: rat) powi s = of_int k"
  proof (cases "s \<le> 0")
    case True
    then obtain i where "s = - int i" by (metis nonpos_int_cases)
    then have "of_int n / (2 :: rat) powi s = of_int (n * 2 ^ i)" by (simp add: power_int_minus divide_inverse)
    then show ?thesis by blast
  next
    case False
    then obtain i where i: "s = int i" by (metis nonneg_int_cases linear)
    then have "2 ^ i dvd n" using s dvd by (meson dvd_trans le_imp_power_dvd of_nat_le_iff)
    then obtain k where "n = 2 ^ i * k" by blast
    then have "of_int n / (2 :: rat) powi s = of_int k" by (simp add: i)
    then show ?thesis by blast
  qed
  then have "of_int (round_even (of_int n / (2 :: rat) powi s)) * 2 powi s = (of_int n :: rat)"
    by (metis nonzero_eq_divide_eq power_int_eq_0_iff round_even_int zero_neq_numeral)
  moreover have "\<not> (2 :: rat) ^ 128 \<le> \<bar>of_int n\<bar>"
  proof -
    have "\<bar>of_int n :: rat\<bar> < of_int (2 ^ (24 + j))" using n by (metis of_int_abs of_int_less_iff)
    also have "\<dots> \<le> of_int (2 ^ 128)" using j by (intro of_int_le_iff [THEN iffD2] power_increasing) simp_all
    finally show ?thesis by simp
  qed
  ultimately show ?thesis using False by (simp add: round32_def s_def [symmetric] Let_def)
qed (simp add: round32_def)

lemmas round32_int = round32_exact [of _ 0, simplified]

lemmas j_of_int_exact = round32_int [folded j_of_int_def]

lemma j_add_int: "\<bar>m + n\<bar> < 2 ^ 24 \<Longrightarrow> j_add (Fin (of_int m)) (Fin (of_int n)) = Fin (of_int (m + n))"
  using round32_int [of "m + n"] by simp

lemma j_sub_int: "\<bar>m - n\<bar> < 2 ^ 24 \<Longrightarrow> j_sub (Fin (of_int m)) (Fin (of_int n)) = Fin (of_int (m - n))"
  using j_add_int [of m "- n"] by (simp add: j_sub_def)

lemma j_double_int: "\<bar>n\<bar> < 2 ^ 24 \<Longrightarrow> j_mul (Fin (of_int n)) (Fin 2) = Fin (of_int (2 * n))"
  using round32_exact [of "2 * n" 1] by (simp add: mult.commute)

end
