(* ===== verification/Json_Reader.thy ===== *)
theory Json_Reader
  imports Receiver Java_Float
begin

text \<open>
  The part of the results reader that reads the file of the sink
  (\<^verbatim>\<open>results/resultsReader/.../ReadJson.java\<close> and \<^verbatim>\<open>Sample.java\<close>): every line is searched for a record
  with a regular expression, and the timestamp and one channel of it become a sample.  A time is
  the number of milliseconds of a \<^verbatim>\<open>Date\<close>.
\<close>

section \<open>Exceptions and samples\<close>

datatype java_exn = IllegalState | IndexOutOfBounds | NumberFormat | ArithmeticExn | ClassCast | FileNotFound | Exit int

primrec and_then :: "'e + 'a \<Rightarrow> ('a \<Rightarrow> 'e + 'b) \<Rightarrow> 'e + 'b" where
  "and_then (Inl e) f = Inl e"
| "and_then (Inr x) f = f x"

record jsample =
  js_ts :: int
  js_v :: jfloat
  js_sn :: int

text \<open>The constructor; the state is the static counter \<^verbatim>\<open>numberSamples\<close>.\<close>

definition new_sample :: "int \<Rightarrow> jfloat \<Rightarrow> int \<Rightarrow> jsample \<times> int" where
  "new_sample ts v n = (\<lparr>js_ts = ts, js_v = v, js_sn = n\<rparr>, java_int (n + 1))"

text \<open>Two samples are equal when their times are.\<close>

definition sample_equals :: "jsample \<Rightarrow> jsample \<Rightarrow> bool" where
  "sample_equals s t \<longleftrightarrow> js_ts s = js_ts t"

section \<open>The regular expression\<close>

text \<open>A literal, one or more digits, and an optional sign before digits.  Every run of digits in the expression is
  followed by a literal that is no digit, so a run is always the longest one.\<close>

definition eat :: "string \<Rightarrow> string \<Rightarrow> string option" where
  "eat lit s = (if take (length lit) s = lit then Some (drop (length lit) s) else None)"

definition digits1 :: "string \<Rightarrow> (string \<times> string) option" where
  "digits1 s = (let d = takeWhile is_digit s in if d = [] then None else Some (d, dropWhile is_digit s))"

definition signed_digits1 :: "string \<Rightarrow> (string \<times> string) option" where
  "signed_digits1 s = (case s of [] \<Rightarrow> None
   | c # t \<Rightarrow> if c = CHR ''-'' then map_option (\<lambda>(d, r). (c # d, r)) (digits1 t) else digits1 s)"

text \<open>The groups of a match at the start of the text, group 0 being the match.\<close>

definition match_record :: "string \<Rightarrow> string list option" where
  "match_record s = do {
     r \<leftarrow> eat [DQ] s;
     (g1, r) \<leftarrow> digits1 r;
     r \<leftarrow> eat '':'' r;
     (g2, r) \<leftarrow> digits1 r;
     r \<leftarrow> eat ([DQ] @ '':{'' @ [DQ] @ ''ts'' @ [DQ] @ '':'') r;
     (g3, r) \<leftarrow> digits1 r;
     r \<leftarrow> eat ('','' @ [DQ] @ ''1'' @ [DQ] @ '':'') r;
     (g4, r) \<leftarrow> signed_digits1 r;
     r \<leftarrow> eat ('','' @ [DQ] @ ''2'' @ [DQ] @ '':'') r;
     (g5, r) \<leftarrow> signed_digits1 r;
     r \<leftarrow> eat ('','' @ [DQ] @ ''3'' @ [DQ] @ '':'') r;
     (g6, r) \<leftarrow> signed_digits1 r;
     r \<leftarrow> eat ('','' @ [DQ] @ ''4'' @ [DQ] @ '': '') r;
     (g7, r) \<leftarrow> signed_digits1 r;
     r \<leftarrow> eat ''}'' r;
     let r = (case eat '','' r of Some r' \<Rightarrow> r' | None \<Rightarrow> r);
     Some [take (length s - length r) s, g1, g2, g3, g4, g5, g6, g7]
   }"

text \<open>\<^verbatim>\<open>m.find()\<close>\<close>

fun find_record :: "string \<Rightarrow> string list option" where
  "find_record s = (case match_record s of Some g \<Rightarrow> Some g
   | None \<Rightarrow> (case s of [] \<Rightarrow> None | c # t \<Rightarrow> find_record t))"

declare find_record.simps [simp del]

text \<open>\<^verbatim>\<open>m.group(i)\<close>\<close>

definition group_of :: "string list option \<Rightarrow> int \<Rightarrow> java_exn + string" where
  "group_of m i = (case m of None \<Rightarrow> Inl IllegalState
   | Some g \<Rightarrow> if 0 \<le> i \<and> i < int (length g) then Inr (g ! nat i) else Inl IndexOutOfBounds)"

text \<open>\<^verbatim>\<open>Float.parseFloat\<close> on a group: group 0 begins with a quotation mark, the others are decimal integers.\<close>

definition float_of_group :: "string \<Rightarrow> java_exn + jfloat" where
  "float_of_group g = (if map_option snd (signed_digits1 g) = Some [] then Inr (round32 (of_int (simple_strtol g))) else Inl NumberFormat)"

section \<open>Reading the file\<close>

text \<open>\<^verbatim>\<open>readLine\<close>: a line ends with a line feed, a carriage return, or both.\<close>

definition line_end :: "char \<Rightarrow> bool" where
  "line_end c \<longleftrightarrow> c = NL \<or> c = CHR 0x0D"

definition skip_line_end :: "string \<Rightarrow> string" where
  "skip_line_end s = (case s of [] \<Rightarrow> [] | c # t \<Rightarrow> if c = CHR 0x0D \<and> t \<noteq> [] \<and> hd t = NL then tl t else t)"

lemma length_skip_line_end: "s \<noteq> [] \<Longrightarrow> length (skip_line_end s) < length s"
  by (cases s) (auto simp: skip_line_end_def less_Suc_eq_le)

function java_lines :: "string \<Rightarrow> string list" where
  "java_lines s = (if s = [] then []
     else takeWhile (\<lambda>c. \<not> line_end c) s # java_lines (skip_line_end (dropWhile (\<lambda>c. \<not> line_end c) s)))"
  by pat_completeness auto
termination
proof (relation "measure length")
  fix s :: string
  assume s: "s \<noteq> []"
  show "(skip_line_end (dropWhile (\<lambda>c. \<not> line_end c) s), s) \<in> measure length"
  proof (cases "dropWhile (\<lambda>c. \<not> line_end c) s = []")
    case True
    show ?thesis unfolding True using s by (simp add: skip_line_end_def)
  next
    case False
    have "length (dropWhile (\<lambda>c. \<not> line_end c) s) \<le> length s" by (rule length_dropWhile_le)
    then show ?thesis using length_skip_line_end [OF False] by simp
  qed
qed simp

declare java_lines.simps [simp del]

text \<open>The body of the loop: the time loses an hour, and a line of at most four characters is skipped.\<close>

definition sample_of_line :: "int \<Rightarrow> string \<Rightarrow> int \<Rightarrow> java_exn + (jsample \<times> int)" where
  "sample_of_line channel line n = (let m = find_record line in
     and_then (group_of m 3) (\<lambda>ts.
     and_then (group_of m (java_int (channel + 3))) (\<lambda>g.
     and_then (float_of_group g) (\<lambda>v.
       Inr (new_sample (java_long (java_long (int (read_digits 0 ts div 1000)) - 1000 * 60 * 60)) v n)))))"

fun samples_of_lines :: "int \<Rightarrow> string list \<Rightarrow> int \<Rightarrow> java_exn + (jsample list \<times> int)" where
  "samples_of_lines channel [] n = Inr ([], n)"
| "samples_of_lines channel (l # ls) n =
     (if length l > 4 then and_then (sample_of_line channel l n) (\<lambda>(s, n).
        and_then (samples_of_lines channel ls n) (\<lambda>(ss, n). Inr (s # ss, n)))
      else samples_of_lines channel ls n)"

text \<open>The samples per second, from the first two samples of the file.\<close>

definition guess_SPS :: "jsample list \<Rightarrow> java_exn + jfloat" where
  "guess_SPS ss = (case ss of s # t # _ \<Rightarrow> Inr (j_div (Fin 1000) (j_of_int (java_long (js_ts t - js_ts s)))) | _ \<Rightarrow> Inl IndexOutOfBounds)"

text \<open>\<^verbatim>\<open>None\<close> is a file that cannot be opened or read; the sort is stable.\<close>

definition getAllSamples :: "int \<Rightarrow> string option \<Rightarrow> int \<Rightarrow> java_exn + (jfloat \<times> jsample list \<times> int)" where
  "getAllSamples channel file n = (case file of None \<Rightarrow> Inl FileNotFound
   | Some text \<Rightarrow> and_then (samples_of_lines channel (java_lines text) n) (\<lambda>(ss, n).
       and_then (guess_SPS ss) (\<lambda>sps. Inr (sps, sort_key js_ts ss, n))))"

section \<open>A record of the sink is read back\<close>

lemma eat_append [simp]: "eat lit (lit @ r) = Some r"
  by (simp add: eat_def)

lemma eat_Cons [simp]: "eat [c] (c # r) = Some r" "eat [c] (d # r) = (if c = d then Some r else None)" "eat [c] [] = None"
  by (auto simp: eat_def)

lemma digits1_print_nat: "\<not> is_digit c \<Longrightarrow> digits1 (print_nat n @ c # r) = Some (print_nat n, c # r)"
  using print_nat_digits [of _ n] by (simp add: digits1_def takeWhile_append2 dropWhile_append2 Let_def)

lemma signed_digits1_print_int:
  assumes "\<not> is_digit c"
  shows "signed_digits1 (print_int i @ c # r) = Some (print_int i, c # r)"
proof (cases "i < 0")
  case True
  then show ?thesis by (simp add: print_int_def signed_digits1_def digits1_print_nat [OF assms])
next
  case False
  obtain d t where n: "print_nat (nat i) = d # t" by (meson list.exhaust print_nat_nonempty)
  then have "is_digit d" using print_nat_digits [of d "nat i"] by simp
  then have "d \<noteq> CHR ''-''" by (auto simp: is_digit_def)
  then show ?thesis
    using False digits1_print_nat [OF assms, of "nat i" r] n by (simp add: print_int_def signed_digits1_def)
qed

lemma not_digit_brace [simp]: "\<not> is_digit CHR ''}''"
  by (simp add: is_digit_def)

lemma json_record_groups:
  "\<exists>whole. find_record (json_record node q ts ch) =
     Some [whole, print_nat node, print_nat q, print_nat ts, print_int (ch ! 0), print_int (ch ! 1), print_int (ch ! 2), print_int (ch ! 3)]"
proof -
  have e: "eat (DQ # xs) (DQ # r) = eat xs r" "eat (CHR '','' # xs) (CHR '','' # r) = eat xs r" "eat [] r = Some r"
    "eat (CHR '':'' # xs) (CHR '':'' # r) = eat xs r" "eat (c # xs) (c # r) = eat xs r" for c xs r
    by (simp_all add: eat_def)
  have "\<exists>whole. match_record (json_record node q ts ch) =
     Some [whole, print_nat node, print_nat q, print_nat ts, print_int (ch ! 0), print_int (ch ! 1), print_int (ch ! 2), print_int (ch ! 3)]"
    by (simp add: match_record_def json_record_def e digits1_print_nat signed_digits1_print_int)
  then show ?thesis by (auto simp: find_record.simps)
qed

lemma float_of_group_print_int: "float_of_group (print_int i) = Inr (round32 (of_int i))"
proof -
  have "signed_digits1 (print_int i) = Some (print_int i, [])"
  proof (cases "i < 0")
    case True
    then show ?thesis using print_nat_digits
      by (auto simp: print_int_def signed_digits1_def digits1_def Let_def dropWhile_eq_Nil_conv)
  next
    case False
    obtain d t where n: "print_nat (nat i) = d # t" by (meson list.exhaust print_nat_nonempty)
    then have "is_digit d" using print_nat_digits [of d "nat i"] by simp
    then have "d \<noteq> CHR ''-''" by (auto simp: is_digit_def)
    moreover have "takeWhile is_digit (d # t) = d # t" "dropWhile is_digit (d # t) = []"
      using n takeWhile_print_nat [of "nat i"] print_nat_digits [of _ "nat i"] by (simp_all only: n [symmetric] dropWhile_eq_Nil_conv) simp
    ultimately show ?thesis using False n by (simp add: print_int_def signed_digits1_def digits1_def Let_def)
  qed
  then show ?thesis by (simp add: float_of_group_def)
qed

text \<open>The time and the value of a channel of a packet, and the samples made of a list of them.\<close>

definition packet_sample :: "nat \<Rightarrow> packet_t \<Rightarrow> int \<times> jfloat" where
  "packet_sample c p = (int (unat (p_timestamp (ntohpkt p)) div 1000) - 3600000,
     Fin (of_int (sint (sign_extend (packet_channels p ! c)))))"

primrec number_samples :: "int \<Rightarrow> (int \<times> jfloat) list \<Rightarrow> jsample list" where
  "number_samples n [] = []"
| "number_samples n (x # xs) = \<lparr>js_ts = fst x, js_v = snd x, js_sn = n\<rparr> # number_samples (java_int (n + 1)) xs"

lemma channel_24_bits:
  assumes "c < 4"
  shows "\<bar>sint (sign_extend (packet_channels p ! c))\<bar> < 16777216"
proof -
  have "length (packet_channels p) = 4" by (simp add: packet_channels_def Let_def)
  then have "packet_channels p ! c \<in> set (packet_channels p)" using assms by simp
  then have "unat (packet_channels p ! c) < 0x1000000" using sample_word_less by (auto simp: packet_channels_def Let_def)
  then show ?thesis by (simp add: sign_extend_signed24 signed24_def del: of_nat_unat)
qed

lemma sample_of_packet_text:
  assumes "c < 4"
  shows "sample_of_line (int c + 1) (packet_text p) n = Inr (new_sample (fst (packet_sample c p)) (snd (packet_sample c p)) n)"
proof -
  let ?ts = "unat (p_timestamp (ntohpkt p))" and ?ch = "map sint (map sign_extend (packet_channels p))"
  obtain whole where f: "find_record (packet_text p) = Some [whole, print_nat (unat (p_id (ntohpkt p))), print_nat (unat (p_seq (ntohpkt p))),
      print_nat ?ts, print_int (?ch ! 0), print_int (?ch ! 1), print_int (?ch ! 2), print_int (?ch ! 3)]"
    using json_record_groups by (metis packet_text_def)
  have len: "length (packet_channels p) = 4" by (simp add: packet_channels_def Let_def)
  have "java_int (int c + 1 + 3) = int c + 4" using assms by (simp add: java_int_def signed_take_bit_int_eq_self)
  then have g: "group_of (find_record (packet_text p)) 3 = Inr (print_nat ?ts)"
    "group_of (find_record (packet_text p)) (java_int (int c + 1 + 3)) = Inr (print_int (sint (sign_extend (packet_channels p ! c))))"
    using assms len unfolding f group_of_def by (auto simp: less_Suc_eq numeral_eq_Suc nat_add_distrib)
  have v: "float_of_group (print_int (sint (sign_extend (packet_channels p ! c)))) = Inr (snd (packet_sample c p))"
    using round32_int [OF channel_24_bits [OF assms, of p]] by (simp add: float_of_group_print_int packet_sample_def)
  have "?ts < 2 ^ LENGTH(64)" by (rule unsigned_less)
  then have "int (?ts div 1000) < 2 ^ 63" by simp
  then have "java_long (java_long (int (?ts div 1000)) - 1000 * 60 * 60) = fst (packet_sample c p)"
    by (simp add: java_long_id packet_sample_def del: of_nat_div)
  then show ?thesis unfolding sample_of_line_def Let_def g v by (simp add: g v)
qed

lemma packet_text_line: "\<forall>x\<in>set (packet_text p). \<not> line_end x" "4 < length (packet_text p)"
proof -
  have n: "\<not> line_end x" if "x \<in> set (print_nat k)" for x k
    using print_nat_digits [OF that] by (auto simp: is_digit_def line_end_def)
  then have "\<not> line_end x" if "x \<in> set (print_int k)" for x k
    using that by (auto simp: print_int_def line_end_def split: if_splits)
  with n show "\<forall>x\<in>set (packet_text p). \<not> line_end x"
    by (auto simp: packet_text_def json_record_def Let_def line_end_def)
  show "4 < length (packet_text p)" by (simp add: packet_text_def json_record_def Let_def)
qed

lemma java_lines_line:
  assumes "\<forall>x\<in>set l. \<not> line_end x"
  shows "java_lines (l @ NL # r) = l # java_lines r" "l \<noteq> [] \<Longrightarrow> java_lines l = [l]"
proof -
  have "line_end NL" by (simp add: line_end_def)
  then have "takeWhile (\<lambda>c. \<not> line_end c) (l @ NL # r) = l" "dropWhile (\<lambda>c. \<not> line_end c) (l @ NL # r) = NL # r"
    using assms by (simp_all add: takeWhile_append2 dropWhile_append2)
  then show "java_lines (l @ NL # r) = l # java_lines r"
    using java_lines.simps [of "l @ NL # r"] by (simp add: skip_line_end_def)
  have "takeWhile (\<lambda>c. \<not> line_end c) l = l" "dropWhile (\<lambda>c. \<not> line_end c) l = []"
    using assms by (simp_all add: takeWhile_eq_all_conv dropWhile_eq_Nil_conv)
  then have "java_lines l = l # java_lines (skip_line_end [])" if "l \<noteq> []"
    using that java_lines.simps [of l] by argo
  then show "java_lines l = [l]" if "l \<noteq> []"
    using that java_lines.simps [of "[]"] by (simp add: skip_line_end_def)
qed

lemma java_lines_records:
  "java_lines (packet_text (recv_packet d) @ serve_text True ds) = map (packet_text \<circ> recv_packet) (d # ds)"
proof (induction ds arbitrary: d)
  case Nil
  have "packet_text (recv_packet d) \<noteq> []" using packet_text_line(2) [of "recv_packet d"] by auto
  then show ?case by (simp add: java_lines_line(2) packet_text_line(1))
qed (simp add: java_lines_line(1) packet_text_line(1))

lemma java_lines_file:
  "ds \<noteq> [] \<Longrightarrow> java_lines (''{'' @ serve_text False ds) = ''{,'' # map (packet_text \<circ> recv_packet) ds"
  using java_lines_line(1) [of "''{,''"] java_lines_records by (cases ds) (simp_all add: line_end_def)

lemma samples_of_records:
  assumes "c < 4"
  shows "\<exists>n'. samples_of_lines (int c + 1) (map packet_text ps) n = Inr (number_samples n (map (packet_sample c) ps), n')"
proof (induction ps arbitrary: n)
  case (Cons p ps)
  from Cons.IH [of "java_int (n + 1)"] show ?case
    by (auto simp: sample_of_packet_text [OF assms] packet_text_line(2) new_sample_def)
qed simp

lemma length_number_samples [simp]: "length (number_samples n xs) = length xs"
  by (induction xs arbitrary: n) simp_all

text \<open>The results reader reads back what the sink wrote. From the file of the sink for any two or more datagrams, the
  reader gets one sample for every packet: the timestamp in milliseconds, less one hour, and the value of
  the chosen channel, which a \<^verbatim>\<open>float\<close> holds exactly, numbered in the order of the file and then sorted by time. The line that holds only the
  brace and the misplaced comma is skipped, and no exception is thrown.\<close>

lemma getAllSamples_file:
  assumes "c < 4" "2 \<le> length ds"
  shows "\<exists>sps n'. getAllSamples (int c + 1) (Some (''{'' @ serve_text False ds)) n =
    Inr (sps, sort_key js_ts (number_samples n (map (packet_sample c \<circ> recv_packet) ds)), n')"
proof -
  let ?ss = "number_samples n (map (packet_sample c \<circ> recv_packet) ds)"
  obtain n' where n': "samples_of_lines (int c + 1) (map (packet_text \<circ> recv_packet) ds) n = Inr (?ss, n')"
    using samples_of_records [OF assms(1), of "map recv_packet ds" n] by (auto simp: comp_def)
  have "2 \<le> length ?ss" using assms(2) by simp
  then obtain sps where "guess_SPS ?ss = Inr sps"
    by (auto simp: guess_SPS_def numeral_2_eq_2 Suc_le_length_iff split: list.splits)
  then show ?thesis
    using java_lines_file [of ds] assms(2) n' by (cases "ds = []") (auto simp: getAllSamples_def)
qed

end
