(* ===== verification/Outliers.thy ===== *)
theory Outliers
  imports Json_Reader
begin

text \<open>
  The check of the samples in the results reader (\<^verbatim>\<open>SampleBuffer.java\<close>, \<^verbatim>\<open>SlidingWindow.java\<close> and \<^verbatim>\<open>App.java\<close>): a window
  of ten samples on each side of a middle one slides over the list; the middle one is an outlier when twice its
  magnitude exceeds the sum of the magnitudes on each side.  The sums are kept in a \<^verbatim>\<open>float\<close> that
  is updated with every sample.  Gaps and repeated times are counted, outliers are removed, and the rest is written.
\<close>

section \<open>SampleBuffer\<close>

text \<open>The operations of \<^verbatim>\<open>CircularFifoBuffer\<close> of the Commons Collections; \<^verbatim>\<open>get\<close> on an empty buffer throws.\<close>

record 'b fifo_ops =
  fb_new :: "nat \<Rightarrow> 'b"
  fb_maxSize :: "'b \<Rightarrow> nat"
  fb_size :: "'b \<Rightarrow> nat"
  fb_isFull :: "'b \<Rightarrow> bool"
  fb_get :: "'b \<Rightarrow> jsample option"
  fb_add :: "jsample \<Rightarrow> 'b \<Rightarrow> 'b"

text \<open>What its documentation says, for a buffer of \<^verbatim>\<open>n\<close> elements: first in, first out, and the oldest element is
  replaced when the buffer is full.\<close>

definition circular_fifo :: "'b fifo_ops \<Rightarrow> ('b \<Rightarrow> jsample list \<Rightarrow> bool) \<Rightarrow> nat \<Rightarrow> bool" where
  "circular_fifo ops holds n \<longleftrightarrow> 0 < n \<and> holds (fb_new ops n) [] \<and>
     (\<forall>b xs. holds b xs \<longrightarrow> fb_maxSize ops b = n \<and> fb_size ops b = length xs \<and> fb_isFull ops b = (length xs = n) \<and>
        fb_get ops b = (case xs of [] \<Rightarrow> None | x # _ \<Rightarrow> Some x) \<and>
        (\<forall>s. holds (fb_add ops s b) (if length xs = n then tl xs @ [s] else xs @ [s])))"

record 'b sample_buffer =
  sb_buff :: 'b
  sb_sums :: jfloat

definition sb_new :: "'b fifo_ops \<Rightarrow> nat \<Rightarrow> 'b sample_buffer" where
  "sb_new ops n = \<lparr>sb_buff = fb_new ops n, sb_sums = Fin 0\<rparr>"

definition sb_add :: "'b fifo_ops \<Rightarrow> jsample \<Rightarrow> 'b sample_buffer \<Rightarrow> 'b sample_buffer option" where
  "sb_add ops s b = do {
     acc \<leftarrow> (if fb_maxSize ops (sb_buff b) > fb_size ops (sb_buff b) then Some (sb_sums b)
       else map_option (\<lambda>old. j_sub (sb_sums b) (j_abs (js_v old))) (fb_get ops (sb_buff b)));
     Some \<lparr>sb_buff = fb_add ops s (sb_buff b), sb_sums = j_add acc (j_abs (js_v s))\<rparr>
   }"

section \<open>SlidingWindow\<close>

record 'b sliding_window =
  sw_before :: "'b sample_buffer"
  sw_after :: "'b sample_buffer"
  sw_middle :: "jsample option"

definition sw_new :: "'b fifo_ops \<Rightarrow> nat \<Rightarrow> 'b sliding_window" where
  "sw_new ops n = \<lparr>sw_before = sb_new ops n, sw_after = sb_new ops n, sw_middle = None\<rparr>"

definition sw_add :: "'b fifo_ops \<Rightarrow> jsample \<Rightarrow> 'b sliding_window \<Rightarrow> 'b sliding_window option" where
  "sw_add ops s w =
     (if \<not> fb_isFull ops (sb_buff (sw_before w)) then map_option (\<lambda>b. w\<lparr>sw_before := b\<rparr>) (sb_add ops s (sw_before w))
      else case sw_middle w of
        None \<Rightarrow> Some (w\<lparr>sw_middle := Some s\<rparr>)
      | Some mid \<Rightarrow>
          if \<not> fb_isFull ops (sb_buff (sw_after w)) then map_option (\<lambda>b. w\<lparr>sw_after := b\<rparr>) (sb_add ops s (sw_after w))
          else do {
            b \<leftarrow> sb_add ops mid (sw_before w);
            m \<leftarrow> fb_get ops (sb_buff (sw_after w));
            a \<leftarrow> sb_add ops s (sw_after w);
            Some \<lparr>sw_before = b, sw_after = a, sw_middle = Some m\<rparr>
          })"

definition isMiddleOutlier :: "'b sliding_window \<Rightarrow> bool" where
  "isMiddleOutlier w = (case sw_middle w of None \<Rightarrow> False
   | Some m \<Rightarrow> j_less (sb_sums (sw_before w)) (j_mul (j_abs (js_v m)) (Fin 2)) \<and>
       j_less (sb_sums (sw_after w)) (j_mul (j_abs (js_v m)) (Fin 2)))"

section \<open>App\<close>

text \<open>The local variables of \<^verbatim>\<open>validSampleList\<close> with the two static counters.\<close>

record 'b check_state =
  ck_last :: int
  ck_first :: bool
  ck_valid :: bool
  ck_gaps :: int
  ck_overlaps :: int
  ck_window :: "'b sliding_window"
  ck_outliers :: "jsample list"

definition is_gap :: "jfloat \<Rightarrow> int \<Rightarrow> int \<Rightarrow> bool" where
  "is_gap sps prev now = j_less (j_add (j_div (Fin 1000) sps) (Fin 15)) (j_of_int (java_long (now - prev)))"

definition check_gap :: "jfloat \<Rightarrow> int \<Rightarrow> 'b check_state \<Rightarrow> 'b check_state" where
  "check_gap sps now c = (if is_gap sps (ck_last c) now \<and> \<not> ck_first c
     then c\<lparr>ck_gaps := java_int (ck_gaps c + 1), ck_valid := False\<rparr> else c)"

definition check_repeated :: "int \<Rightarrow> 'b check_state \<Rightarrow> 'b check_state" where
  "check_repeated now c = (if now = ck_last c \<and> \<not> ck_first c
     then c\<lparr>ck_overlaps := java_int (ck_overlaps c + 1), ck_valid := False\<rparr> else c)"

definition check_outlier :: "'b fifo_ops \<Rightarrow> jsample \<Rightarrow> 'b check_state \<Rightarrow> 'b check_state option" where
  "check_outlier ops s c = do {
     w \<leftarrow> sw_add ops s (ck_window c);
     Some (if isMiddleOutlier w then c\<lparr>ck_window := w, ck_outliers := ck_outliers c @ [the (sw_middle w)]\<rparr> else c\<lparr>ck_window := w\<rparr>)
   }"

primrec check_samples :: "'b fifo_ops \<Rightarrow> jfloat \<Rightarrow> jsample list \<Rightarrow> 'b check_state \<Rightarrow> 'b check_state option" where
  "check_samples ops sps [] c = Some c"
| "check_samples ops sps (s # ss) c =
     Option.bind (check_outlier ops s ((check_repeated (js_ts s) (check_gap sps (js_ts s) c))\<lparr>ck_last := js_ts s, ck_first := False\<rparr>))
       (check_samples ops sps ss)"

text \<open>\<^verbatim>\<open>sampleList.removeAll(outlierList)\<close>, which compares with \<^verbatim>\<open>equals\<close>.\<close>

definition removeAll_samples :: "jsample list \<Rightarrow> jsample list \<Rightarrow> jsample list" where
  "removeAll_samples out ss = filter (\<lambda>s. \<not> list_ex (sample_equals s) out) ss"

text \<open>The results are whether the list is valid, the list that is left, the outliers, and the counters; an exception of the
  buffer is \<^verbatim>\<open>IllegalState\<close>.\<close>

definition validSampleList :: "'b fifo_ops \<Rightarrow> jfloat \<Rightarrow> jsample list \<Rightarrow> int \<Rightarrow> int \<Rightarrow> java_exn + (bool \<times> jsample list \<times> jsample list \<times> int \<times> int)" where
  "validSampleList ops sps ss overlaps gaps = (case ss of [] \<Rightarrow> Inl IndexOutOfBounds
   | s # _ \<Rightarrow> (case check_samples ops sps ss \<lparr>ck_last = js_ts s, ck_first = True, ck_valid = True, ck_gaps = gaps,
        ck_overlaps = overlaps, ck_window = sw_new ops 10, ck_outliers = []\<rparr> of
        None \<Rightarrow> Inl IllegalState
      | Some c \<Rightarrow> Inr (ck_valid c, removeAll_samples (ck_outliers c) ss, ck_outliers c, ck_overlaps c, ck_gaps c)))"

text \<open>The lines of the file; \<^verbatim>\<open>shown\<close> is \<^verbatim>\<open>Sample.toString\<close>.\<close>

fun write_lines :: "(jsample \<Rightarrow> string) \<Rightarrow> bool \<Rightarrow> int \<Rightarrow> int \<Rightarrow> jsample list \<Rightarrow> string" where
  "write_lines shown limited limit lines [] = []"
| "write_lines shown limited limit lines (s # ss) = (let lines = java_int (lines + 1) in
     shown s @ [NL] @ (if limited \<and> lines > limit then [] else write_lines shown limited limit lines ss))"

text \<open>\<^verbatim>\<open>Sample.toString(boolean)\<close>; the formats of a date and of a \<^verbatim>\<open>float\<close> depend on the time zone and the locale.\<close>

definition sample_toString :: "(int \<Rightarrow> string) \<Rightarrow> (jfloat \<Rightarrow> string) \<Rightarrow> bool \<Rightarrow> jsample \<Rightarrow> string" where
  "sample_toString date flt withTime s =
     (if withTime then print_int (js_ts s) else date (js_ts s)) @ [CHR 0x09] @ flt (js_v s)"

definition writeSampleList :: "(int \<Rightarrow> string) \<Rightarrow> (jfloat \<Rightarrow> string) \<Rightarrow> jsample list \<Rightarrow> bool \<Rightarrow> int \<Rightarrow> bool \<Rightarrow> string" where
  "writeSampleList date flt ss limited limit withTime = write_lines (sample_toString date flt withTime) limited limit 0 ss"

section \<open>The running sums\<close>

text \<open>The magnitude of a sample, and samples whose sums over a window a \<^verbatim>\<open>float\<close> holds exactly.\<close>

definition mag :: "jsample \<Rightarrow> int" where
  "mag s = (case js_v s of Fin x \<Rightarrow> \<lfloor>\<bar>x\<bar>\<rfloor> | _ \<Rightarrow> 0)"

definition msum :: "jsample list \<Rightarrow> int" where
  "msum xs = sum_list (map mag xs)"

definition small :: "jsample \<Rightarrow> bool" where
  "small s \<longleftrightarrow> (case js_v s of Fin x \<Rightarrow> x = of_int \<lfloor>x\<rfloor> \<and> \<bar>x\<bar> \<le> 1048576 | _ \<Rightarrow> False)"

lemma small_mag:
  assumes "small s"
  shows "j_abs (js_v s) = Fin (of_int (mag s))" "0 \<le> mag s" "mag s \<le> 1048576"
proof -
  obtain k :: int where k: "js_v s = Fin (of_int k)" "\<bar>of_int k :: rat\<bar> \<le> 1048576"
    using assms by (auto simp: small_def split: jfloat.splits)
  then have "mag s = \<bar>k\<bar>" by (simp add: mag_def flip: of_int_abs)
  with k show "j_abs (js_v s) = Fin (of_int (mag s))" "0 \<le> mag s" "mag s \<le> 1048576"
    by (simp_all flip: of_int_abs)
qed

lemma msum_bounds: "\<forall>s\<in>set xs. small s \<Longrightarrow> 0 \<le> msum xs \<and> msum xs \<le> 1048576 * int (length xs)"
  by (induction xs) (auto simp: msum_def small_mag add_nonneg_nonneg algebra_simps intro: add_mono)

lemma msum_simps [simp]: "msum [] = 0" "msum (x # xs) = mag x + msum xs" "msum (xs @ ys) = msum xs + msum ys"
  by (simp_all add: msum_def)

text \<open>A buffer that holds the samples \<^verbatim>\<open>xs\<close> with their exact sum.\<close>

definition buffer_rep :: "('b \<Rightarrow> jsample list \<Rightarrow> bool) \<Rightarrow> 'b sample_buffer \<Rightarrow> jsample list \<Rightarrow> bool" where
  "buffer_rep holds b xs \<longleftrightarrow> holds (sb_buff b) xs \<and> sb_sums b = Fin (of_int (msum xs)) \<and> (\<forall>s\<in>set xs. small s) \<and> length xs \<le> 10"

lemma sb_new_rep: "circular_fifo ops holds n \<Longrightarrow> buffer_rep holds (sb_new ops n) []"
  by (simp add: buffer_rep_def sb_new_def circular_fifo_def)

lemma sb_add_rep:
  assumes f: "circular_fifo ops holds 10" and b: "buffer_rep holds b xs" and s: "small s"
  shows "\<exists>b'. sb_add ops s b = Some b' \<and> buffer_rep holds b' (if length xs = 10 then tl xs @ [s] else xs @ [s])"
proof -
  have h: "holds (sb_buff b) xs" "sb_sums b = Fin (of_int (msum xs))" "\<forall>s\<in>set xs. small s" "length xs \<le> 10"
    using b by (simp_all add: buffer_rep_def)
  then have ops: "fb_maxSize ops (sb_buff b) = 10" "fb_size ops (sb_buff b) = length xs"
    "fb_get ops (sb_buff b) = (case xs of [] \<Rightarrow> None | x # _ \<Rightarrow> Some x)"
    "holds (fb_add ops s (sb_buff b)) (if length xs = 10 then tl xs @ [s] else xs @ [s])"
    using f by (simp_all add: circular_fifo_def)
  have sum: "j_add (Fin (of_int (msum ys))) (j_abs (js_v s)) = Fin (of_int (msum (ys @ [s])))"
    if "\<forall>s\<in>set ys. small s" "length ys \<le> 9" for ys
    using msum_bounds [OF that(1)] that(2) small_mag [OF s] by (simp add: j_add_int del: of_int_add j_add.simps)
  show ?thesis
  proof (cases "length xs = 10")
    case True
    then obtain x ys where xs: "xs = x # ys" by (cases xs) auto
    then have ys: "small x" "\<forall>s\<in>set ys. small s" "length ys \<le> 9" using h(3) True by simp_all
    have "j_sub (sb_sums b) (j_abs (js_v x)) = Fin (of_int (msum ys))"
      using msum_bounds [OF ys(2)] ys(3) j_sub_int [of "msum xs" "mag x"] by (simp add: h(2) xs small_mag(1) [OF ys(1)])
    then have "sb_add ops s b = Some \<lparr>sb_buff = fb_add ops s (sb_buff b), sb_sums = Fin (of_int (msum (ys @ [s])))\<rparr>"
      using ops True xs sum [OF ys(2,3)] by (simp add: sb_add_def del: msum_simps)
    then show ?thesis using ops(4) True xs ys s by (simp add: buffer_rep_def)
  next
    case False
    then have "sb_add ops s b = Some \<lparr>sb_buff = fb_add ops s (sb_buff b), sb_sums = Fin (of_int (msum (xs @ [s])))\<rparr>"
      using ops h sum [OF h(3)] by (simp add: sb_add_def del: msum_simps)
    then show ?thesis using ops(4) False h s by (simp add: buffer_rep_def)
  qed
qed

section \<open>The window\<close>

text \<open>After \<^verbatim>\<open>k\<close> samples the middle is the eleventh one, and from the twenty-second on the one eleven places back.\<close>

definition mid_index :: "nat \<Rightarrow> nat" where
  "mid_index k = max 10 (k - 11)"

definition window_rep :: "('b \<Rightarrow> jsample list \<Rightarrow> bool) \<Rightarrow> 'b sliding_window \<Rightarrow> jsample list \<Rightarrow> bool" where
  "window_rep holds w xs \<longleftrightarrow> (let m = mid_index (length xs) in
     if length xs \<le> 10 then buffer_rep holds (sw_before w) xs \<and> sw_middle w = None \<and> buffer_rep holds (sw_after w) []
     else buffer_rep holds (sw_before w) (take 10 (drop (m - 10) xs)) \<and> sw_middle w = Some (xs ! m) \<and>
       buffer_rep holds (sw_after w) (drop (m + 1) xs))"

lemma isFull_rep: "circular_fifo ops holds n \<Longrightarrow> buffer_rep holds b xs \<Longrightarrow> fb_isFull ops (sb_buff b) = (length xs = n)"
  by (simp add: circular_fifo_def buffer_rep_def)

lemma get_rep: "circular_fifo ops holds n \<Longrightarrow> buffer_rep holds b (x # xs) \<Longrightarrow> fb_get ops (sb_buff b) = Some x"
  unfolding circular_fifo_def buffer_rep_def by (metis list.simps(5))

lemma sw_new_rep: "circular_fifo ops holds n \<Longrightarrow> window_rep holds (sw_new ops n) []"
  by (simp add: window_rep_def sw_new_def sb_new_rep)

text \<open>The step of a full window on its slices.\<close>

lemma slide:
  assumes "21 \<le> length xs" "m = length xs - 11"
  shows "tl (take 10 (drop (m - 10) xs)) @ [xs ! m] = take 10 (drop (m + 1 - 10) (xs @ [s]))"
    "drop (m + 1) xs = xs ! (m + 1) # drop (m + 2) xs" "mid_index (Suc (length xs)) = m + 1"
proof -
  show "tl (take 10 (drop (m - 10) xs)) @ [xs ! m] = take 10 (drop (m + 1 - 10) (xs @ [s]))"
  proof -
    obtain j where j: "length xs = j + 21" "m = j + 10" using assms le_Suc_ex [of 21 "length xs"] by auto
    show ?thesis unfolding j(2) using j(1) by (intro nth_equalityI) (auto simp: nth_append nth_tl less_Suc_eq numeral_eq_Suc)
  qed
  show "drop (m + 1) xs = xs ! (m + 1) # drop (m + 2) xs" using assms by (simp add: Cons_nth_drop_Suc)
  show "mid_index (Suc (length xs)) = m + 1" using assms by (simp add: mid_index_def)
qed

lemma sw_add_full:
  assumes f: "circular_fifo ops holds 10" and w: "window_rep holds w xs" and s: "small s" and xs: "\<forall>x\<in>set xs. small x"
    and 4: "21 \<le> length xs"
  shows "\<exists>w'. sw_add ops s w = Some w' \<and> window_rep holds w' (xs @ [s])"
proof -
  define m where "m = length xs - 11"
  note sl = slide [OF 4 m_def]
  have "mid_index (length xs) = m" using 4 by (simp add: mid_index_def m_def)
  then have r: "buffer_rep holds (sw_before w) (take 10 (drop (m - 10) xs))" "sw_middle w = Some (xs ! m)"
    "buffer_rep holds (sw_after w) (drop (m + 1) xs)" using w 4 by (simp_all add: window_rep_def)
  have l: "length (take 10 (drop (m - 10) xs)) = 10" "length (drop (m + 1) xs) = 10" using 4 by (simp_all add: m_def)
  have full: "fb_isFull ops (sb_buff (sw_before w))" "fb_isFull ops (sb_buff (sw_after w))"
    using isFull_rep [OF f r(1)] isFull_rep [OF f r(3)] l by simp_all
  have "small (xs ! m)" using xs 4 by (simp add: m_def)
  then obtain b where b: "sb_add ops (xs ! m) (sw_before w) = Some b" "buffer_rep holds b (take 10 (drop (m + 1 - 10) (xs @ [s])))"
    using sb_add_rep [OF f r(1), of "xs ! m"] l(1) sl(1) [of s] by auto
  obtain a where a: "sb_add ops s (sw_after w) = Some a" "buffer_rep holds a (drop (m + 2) xs @ [s])"
    using sb_add_rep [OF f r(3) s] l(2) sl(2) by auto
  have "fb_get ops (sb_buff (sw_after w)) = Some (xs ! (m + 1))" using get_rep [OF f] r(3) sl(2) by metis
  then have "sw_add ops s w = Some \<lparr>sw_before = b, sw_after = a, sw_middle = Some (xs ! (m + 1))\<rparr>"
    using full r(2) a(1) b(1) by (simp add: sw_add_def)
  then show ?thesis using a(2) b(2) sl(3) 4 by (simp add: window_rep_def nth_append m_def)
qed

lemma sw_add_rep:
  assumes f: "circular_fifo ops holds 10" and w: "window_rep holds w xs" and s: "small s" and xs: "\<forall>x\<in>set xs. small x"
  shows "\<exists>w'. sw_add ops s w = Some w' \<and> window_rep holds w' (xs @ [s])"
proof -
  consider "length xs < 10" | "length xs = 10" | "10 < length xs" "length xs < 21" | "21 \<le> length xs" by linarith
  then show ?thesis
  proof cases
    case 1
    then have "buffer_rep holds (sw_before w) xs" using w by (simp add: window_rep_def)
    then show ?thesis using sb_add_rep [OF f _ s, of "sw_before w" xs] isFull_rep [OF f, of "sw_before w" xs] w 1
      by (auto simp: sw_add_def window_rep_def)
  next
    case 2
    then have "buffer_rep holds (sw_before w) xs" using w by (simp add: window_rep_def)
    then show ?thesis using isFull_rep [OF f, of "sw_before w" xs] w 2
      by (auto simp: sw_add_def window_rep_def mid_index_def nth_append)
  next
    case 3
    then have m: "mid_index (length xs) = 10" "mid_index (Suc (length xs)) = 10" by (simp_all add: mid_index_def)
    then have r: "buffer_rep holds (sw_before w) (take 10 xs)" "sw_middle w = Some (xs ! 10)" "buffer_rep holds (sw_after w) (drop 11 xs)"
      using w 3 by (simp_all add: window_rep_def)
    have full: "fb_isFull ops (sb_buff (sw_before w))" "\<not> fb_isFull ops (sb_buff (sw_after w))"
      using isFull_rep [OF f r(1)] isFull_rep [OF f r(3)] 3 by simp_all
    obtain a where a: "sb_add ops s (sw_after w) = Some a" "buffer_rep holds a (drop 11 xs @ [s])"
      using sb_add_rep [OF f r(3) s] 3 by (auto split: if_splits)
    then have "sw_add ops s w = Some (w\<lparr>sw_after := a\<rparr>)" using full r(2) by (simp add: sw_add_def)
    then show ?thesis using r a(2) m 3 by (simp add: window_rep_def nth_append)
  next
    case 4
    then show ?thesis by (rule sw_add_full [OF f w s xs])
  qed
qed

text \<open>The test of the middle, on exact sums.\<close>

definition flagged :: "jsample list \<Rightarrow> bool" where
  "flagged xs \<longleftrightarrow> (let m = mid_index (length xs) in 10 < length xs \<and>
     msum (take 10 (drop (m - 10) xs)) < 2 * mag (xs ! m) \<and> msum (drop (m + 1) xs) < 2 * mag (xs ! m))"

lemma isMiddleOutlier_rep:
  assumes w: "window_rep holds w xs" and xs: "\<forall>x\<in>set xs. small x"
  shows "isMiddleOutlier w \<longleftrightarrow> flagged xs"
proof (cases "10 < length xs")
  case True
  define m where "m = mid_index (length xs)"
  have "m < length xs" using True by (auto simp: m_def mid_index_def)
  then have m: "small (xs ! m)" using xs by simp
  have r: "sb_sums (sw_before w) = Fin (of_int (msum (take 10 (drop (m - 10) xs))))" "sw_middle w = Some (xs ! m)"
    "sb_sums (sw_after w) = Fin (of_int (msum (drop (m + 1) xs)))"
    using w True by (simp_all add: window_rep_def buffer_rep_def m_def Let_def)
  have "j_mul (j_abs (js_v (xs ! m))) (Fin 2) = Fin (of_int (2 * mag (xs ! m)))"
    using j_double_int [of "mag (xs ! m)"] small_mag [OF m] by simp
  then show ?thesis using r True by (simp add: isMiddleOutlier_def flagged_def m_def [symmetric] Let_def del: of_int_mult)
qed (use w in \<open>simp add: window_rep_def isMiddleOutlier_def flagged_def\<close>)

section \<open>The whole list\<close>

definition flags :: "jsample list \<Rightarrow> nat \<Rightarrow> nat \<Rightarrow> jsample list" where
  "flags zs i j = map (\<lambda>k. zs ! mid_index k) (filter (\<lambda>k. flagged (take k zs)) [i..<j])"

text \<open>The number of neighbours in a list of times for which \<^verbatim>\<open>P\<close> holds.\<close>

primrec adjacent :: "(int \<Rightarrow> int \<Rightarrow> bool) \<Rightarrow> int \<Rightarrow> int list \<Rightarrow> nat" where
  "adjacent P t [] = 0"
| "adjacent P t (u # us) = (if P t u then 1 else 0) + adjacent P u us"

lemma java_int_id: "0 \<le> x \<Longrightarrow> x < 2 ^ 31 \<Longrightarrow> java_int x = x"
  by (simp add: java_int_def signed_take_bit_int_eq_self)

lemma check_step:
  assumes f: "circular_fifo ops holds 10" and w: "window_rep holds (ck_window c) xs" and s: "small s" and xs: "\<forall>x\<in>set xs. small x"
  shows "\<exists>w'. check_outlier ops s c = Some (c\<lparr>ck_window := w', ck_outliers := ck_outliers c @ (if flagged (xs @ [s]) then [(xs @ [s]) ! mid_index (Suc (length xs))] else [])\<rparr>) \<and>
    window_rep holds w' (xs @ [s])"
proof -
  obtain w' where w': "sw_add ops s (ck_window c) = Some w'" "window_rep holds w' (xs @ [s])"
    using sw_add_rep [OF f w s xs] by blast
  have "isMiddleOutlier w' \<longleftrightarrow> flagged (xs @ [s])" using isMiddleOutlier_rep [OF w'(2)] xs s by simp
  moreover have "sw_middle w' = Some ((xs @ [s]) ! mid_index (Suc (length xs)))" if "flagged (xs @ [s])"
    using that w'(2) by (auto simp: flagged_def window_rep_def Let_def)
  ultimately show ?thesis using w' by (auto simp: check_outlier_def)
qed

lemma flags_Cons:
  "i < j \<Longrightarrow> flags zs i j = (if flagged (take i zs) then [zs ! mid_index i] else []) @ flags zs (Suc i) j"
  by (simp add: flags_def upt_conv_Cons)

lemma check_samples_rep:
  assumes "circular_fifo ops holds 10" "window_rep holds (ck_window c) xs" "\<forall>x\<in>set (xs @ ys). small x" "\<not> ck_first c"
    and "0 \<le> ck_gaps c" "ck_gaps c + int (length ys) < 2 ^ 31" "0 \<le> ck_overlaps c" "ck_overlaps c + int (length ys) < 2 ^ 31"
  shows "\<exists>c'. check_samples ops sps ys c = Some c' \<and>
    ck_outliers c' = ck_outliers c @ flags (xs @ ys) (Suc (length xs)) (Suc (length (xs @ ys))) \<and>
    ck_gaps c' = ck_gaps c + int (adjacent (is_gap sps) (ck_last c) (map js_ts ys)) \<and>
    ck_overlaps c' = ck_overlaps c + int (adjacent (=) (ck_last c) (map js_ts ys)) \<and>
    (ck_valid c' \<longleftrightarrow> ck_valid c \<and> adjacent (is_gap sps) (ck_last c) (map js_ts ys) = 0 \<and> adjacent (=) (ck_last c) (map js_ts ys) = 0)"
  using assms
proof (induction ys arbitrary: xs c)
  case Nil
  then show ?case by (simp add: flags_def)
next
  case (Cons s ys)
  define c1 where "c1 = (check_repeated (js_ts s) (check_gap sps (js_ts s) c))\<lparr>ck_last := js_ts s, ck_first := False\<rparr>"
  have c1: "ck_window c1 = ck_window c" "ck_outliers c1 = ck_outliers c" "ck_last c1 = js_ts s" "\<not> ck_first c1"
    "ck_gaps c1 = ck_gaps c + (if is_gap sps (ck_last c) (js_ts s) then 1 else 0)"
    "ck_overlaps c1 = ck_overlaps c + (if ck_last c = js_ts s then 1 else 0)"
    "ck_valid c1 \<longleftrightarrow> ck_valid c \<and> \<not> is_gap sps (ck_last c) (js_ts s) \<and> ck_last c \<noteq> js_ts s"
    using Cons.prems(4-8) by (auto simp: c1_def check_repeated_def check_gap_def java_int_id)
  obtain w' where w': "check_outlier ops s c1 = Some (c1\<lparr>ck_window := w',
      ck_outliers := ck_outliers c1 @ (if flagged (xs @ [s]) then [(xs @ [s]) ! mid_index (Suc (length xs))] else [])\<rparr>)"
    "window_rep holds w' (xs @ [s])"
    using check_step [OF Cons.prems(1), of c1 xs s] Cons.prems(2,3) c1(1) by auto
  have mid: "(xs @ [s]) ! mid_index (Suc (length xs)) = (xs @ s # ys) ! mid_index (Suc (length xs))" if "flagged (xs @ [s])"
    using that by (auto simp: flagged_def mid_index_def nth_append Let_def)
  have fl: "flags (xs @ s # ys) (Suc (length xs)) (Suc (length (xs @ s # ys))) =
      (if flagged (xs @ [s]) then [(xs @ s # ys) ! mid_index (Suc (length xs))] else []) @
      flags (xs @ s # ys) (Suc (Suc (length xs))) (Suc (length (xs @ s # ys)))"
    by (subst flags_Cons) simp_all
  define c2 where "c2 = c1\<lparr>ck_window := w',
      ck_outliers := ck_outliers c1 @ (if flagged (xs @ [s]) then [(xs @ [s]) ! mid_index (Suc (length xs))] else [])\<rparr>"
  have "check_samples ops sps (s # ys) c = check_samples ops sps ys c2"
    using w'(1) by (simp add: c1_def [symmetric] c2_def)
  moreover have "window_rep holds (ck_window c2) (xs @ [s])" "\<forall>x\<in>set ((xs @ [s]) @ ys). small x" "\<not> ck_first c2"
    "0 \<le> ck_gaps c2" "ck_gaps c2 + int (length ys) < 2 ^ 31" "0 \<le> ck_overlaps c2" "ck_overlaps c2 + int (length ys) < 2 ^ 31"
    using w'(2) Cons.prems(3-8) c1 by (simp_all add: c2_def)
  note Cons.IH [OF Cons.prems(1) this]
  ultimately show ?case using c1 fl mid by (auto simp: c2_def)
qed

lemma validSampleList_result:
  assumes f: "circular_fifo ops holds 10" and ss: "ss \<noteq> []" "\<forall>s\<in>set ss. small s" "length ss < 2147483648"
  defines "ts \<equiv> map js_ts ss" and "out \<equiv> flags ss 1 (Suc (length ss))"
  shows "validSampleList ops sps ss 0 0 = Inr (adjacent (is_gap sps) (hd ts) (tl ts) = 0 \<and> adjacent (=) (hd ts) (tl ts) = 0,
    removeAll_samples out ss, out, int (adjacent (=) (hd ts) (tl ts)), int (adjacent (is_gap sps) (hd ts) (tl ts)))"
proof -
  obtain s ys where sy: "ss = s # ys" using ss(1) by (cases ss) auto
  define c0 where "c0 = \<lparr>ck_last = js_ts s, ck_first = True, ck_valid = True, ck_gaps = 0, ck_overlaps = 0,
      ck_window = sw_new ops 10, ck_outliers = []\<rparr>"
  define c1 where "c1 = c0\<lparr>ck_first := False\<rparr>"
  have "(check_repeated (js_ts s) (check_gap sps (js_ts s) c0))\<lparr>ck_last := js_ts s, ck_first := False\<rparr> = c1"
    by (simp add: c1_def c0_def check_repeated_def check_gap_def)
  moreover obtain w' where w': "check_outlier ops s c1 = Some (c1\<lparr>ck_window := w', ck_outliers := []\<rparr>)" "window_rep holds w' [s]"
    using check_step [OF f, of c1 "[]" s] sw_new_rep [OF f] ss(2) by (auto simp: c1_def c0_def sy flagged_def)
  ultimately have step: "check_samples ops sps ss c0 = check_samples ops sps ys (c1\<lparr>ck_window := w', ck_outliers := []\<rparr>)"
    by (simp add: sy)
  have "flags ss 1 (Suc (length ss)) = flags ss (Suc (Suc 0)) (Suc (length ss))"
    by (subst flags_Cons) (simp_all add: sy flagged_def)
  then obtain c' where "check_samples ops sps ss c0 = Some c'" "ck_outliers c' = out"
    "ck_gaps c' = int (adjacent (is_gap sps) (hd ts) (tl ts))" "ck_overlaps c' = int (adjacent (=) (hd ts) (tl ts))"
    "ck_valid c' \<longleftrightarrow> adjacent (is_gap sps) (hd ts) (tl ts) = 0 \<and> adjacent (=) (hd ts) (tl ts) = 0"
    using check_samples_rep [OF f, of "c1\<lparr>ck_window := w', ck_outliers := []\<rparr>" "[s]" ys sps] w'(2) ss(2,3) step
    by (auto simp: sy c1_def c0_def ts_def out_def)
  then show ?thesis by (simp add: validSampleList_def sy c0_def [symmetric])
qed

text \<open>The definition the window implements: a sample with ten others on each side.\<close>

definition is_outlier :: "jsample list \<Rightarrow> nat \<Rightarrow> bool" where
  "is_outlier zs m \<longleftrightarrow> 10 \<le> m \<and> m + 10 < length zs \<and> msum (take 10 (drop (m - 10) zs)) < 2 * mag (zs ! m) \<and>
     msum (take 10 (drop (m + 1) zs)) < 2 * mag (zs ! m)"

lemma flagged_take:
  assumes "10 < k" "k \<le> length zs"
  shows "flagged (take k zs) \<longleftrightarrow> (let m = mid_index k in msum (take 10 (drop (m - 10) zs)) < 2 * mag (zs ! m) \<and>
    msum (take (k - (m + 1)) (drop (m + 1) zs)) < 2 * mag (zs ! m))"
proof -
  have "mid_index k < k" "10 \<le> mid_index k" using assms(1) by (auto simp: mid_index_def)
  moreover from this have "10 \<le> k - (mid_index k - 10)" by linarith
  ultimately have "take 10 (drop (mid_index k - 10) (take k zs)) = take 10 (drop (mid_index k - 10) zs)" "take k zs ! mid_index k = zs ! mid_index k"
    by (simp_all add: drop_take min_def)
  then show ?thesis using assms by (simp add: flagged_def Let_def drop_take)
qed

lemma set_flags:
  assumes small: "\<forall>s\<in>set zs. small s"
  shows "set (flags zs 1 (Suc (length zs))) = {zs ! m | m. is_outlier zs m} \<union>
    {zs ! m | m. m = 10 \<and> 10 < length zs \<and> msum (take 10 zs) < 2 * mag (zs ! 10)}"
proof (intro equalityI subsetI)
  fix x
  assume "x \<in> set (flags zs 1 (Suc (length zs)))"
  then obtain k where k: "x = zs ! mid_index k" "flagged (take k zs)" "k \<le> length zs" by (auto simp: flags_def)
  then have "10 < k" by (auto simp: flagged_def Let_def)
  note fl = k(2) [unfolded flagged_take [OF this k(3)] Let_def]
  show "x \<in> {zs ! m | m. is_outlier zs m} \<union> {zs ! m | m. m = 10 \<and> 10 < length zs \<and> msum (take 10 zs) < 2 * mag (zs ! 10)}"
  proof (cases "k \<le> 21")
    case True
    then have "mid_index k = 10" by (simp add: mid_index_def)
    then show ?thesis using k(1,3) \<open>10 < k\<close> fl by simp
  next
    case False
    then have "mid_index k = k - 11" "10 \<le> k - 11" "k - 11 + 10 < length zs" "k - (k - 11 + 1) = 10"
      using k(3) by (simp add: mid_index_def, linarith+)
    then have "is_outlier zs (mid_index k)" using fl by (simp add: is_outlier_def)
    then show ?thesis using k(1) by blast
  qed
next
  fix x
  assume x: "x \<in> {zs ! m | m. is_outlier zs m} \<union> {zs ! m | m. m = 10 \<and> 10 < length zs \<and> msum (take 10 zs) < 2 * mag (zs ! 10)}"
  have "\<exists>k>10. k \<le> length zs \<and> x = zs ! mid_index k \<and> flagged (take k zs)"
  proof (cases "x = zs ! 10 \<and> 10 < length zs \<and> msum (take 10 zs) < 2 * mag (zs ! 10)")
    case True
    have "0 \<le> msum (take 10 zs)" using msum_bounds [of "take 10 zs"] small by (auto dest: in_set_takeD)
    then show ?thesis using True flagged_take [of 11 zs] by (intro exI [of _ 11]) (auto simp: mid_index_def)
  next
    case False
    then obtain m where m: "x = zs ! m" "is_outlier zs m" using x by auto
    then have "mid_index (m + 11) = m" "10 < m + 11" "m + 11 \<le> length zs" by (simp_all add: is_outlier_def mid_index_def)
    then show ?thesis using m flagged_take [of "m + 11" zs] by (intro exI [of _ "m + 11"]) (simp add: is_outlier_def)
  qed
  then obtain k where k: "10 < k" "k \<le> length zs" "x = zs ! mid_index k" "flagged (take k zs)" by blast
  then have "k \<in> set (filter (\<lambda>k. flagged (take k zs)) [1..<Suc (length zs)])" by (simp del: upt_Suc)
  with k(3)
  show "x \<in> set (flags zs 1 (Suc (length zs)))" unfolding flags_def set_map by (rule image_eqI)
qed

lemma removeAll_samples_ts: "removeAll_samples out ss = filter (\<lambda>s. js_ts s \<notin> js_ts ` set out) ss"
  by (auto simp: removeAll_samples_def sample_equals_def list_ex_iff intro: filter_cong)

lemma adjacent_eq_sorted: "sorted (t # ts) \<Longrightarrow> adjacent (=) t ts + card (set (t # ts)) = Suc (length ts)"
proof (induction ts arbitrary: t)
  case (Cons u us)
  then have "t = u \<or> t \<notin> set (u # us)" by fastforce
  then show ?case using Cons.IH [of u] Cons.prems by (auto simp: insert_absorb card_insert_if)
qed simp

text \<open>A buffer kept as a list.\<close>

definition list_fifo :: "jsample list fifo_ops" where
  "list_fifo = \<lparr>fb_new = (\<lambda>n. []), fb_maxSize = (\<lambda>b. 10), fb_size = length, fb_isFull = (\<lambda>b. length b = 10),
     fb_get = (\<lambda>b. case b of [] \<Rightarrow> None | x # _ \<Rightarrow> Some x), fb_add = (\<lambda>s b. if length b = 10 then tl b @ [s] else b @ [s])\<rparr>"

lemma list_fifo_circular: "circular_fifo list_fifo (=) 10"
  by (simp add: circular_fifo_def list_fifo_def)

text \<open>C13: The outliers the program finds. For samples whose sums a \<^verbatim>\<open>float\<close> holds exactly, the list of outliers is, as a set, the
  samples with ten others on each side and magnitudes on each side that add up to less than twice their own, and,
  against that definition, also the eleventh sample when only the ten before it do: the window tests it as soon as
  it is there. The list that is left is the one without the times of the outliers, so a sample with the same time
  as an outlier goes with it.\<close>

theorem outliers_are_found:
  assumes "circular_fifo ops holds 10" "ss \<noteq> []" "\<forall>s\<in>set ss. small s" "length ss < 2147483648"
  shows "\<exists>valid out overlaps gaps. validSampleList ops sps ss 0 0 = Inr (valid, filter (\<lambda>s. js_ts s \<notin> js_ts ` set out) ss, out, overlaps, gaps) \<and>
    set out = {ss ! m | m. is_outlier ss m} \<union> {ss ! m | m. m = 10 \<and> 10 < length ss \<and> msum (take 10 ss) < 2 * mag (ss ! 10)}"
  using validSampleList_result [OF assms, of sps] set_flags [OF assms(3)] by (auto simp: removeAll_samples_ts)

text \<open>The counts of the check. For samples sorted by time, the number of overlaps is the number of samples less the number of
  different times, the number of gaps is the number of neighbours that are further apart than the rate allows, and
  the list is valid if both are zero.\<close>

theorem repeated_times_are_counted:
  assumes "circular_fifo ops holds 10" "ss \<noteq> []" "\<forall>s\<in>set ss. small s" "length ss < 2147483648" "sorted (map js_ts ss)"
  shows "\<exists>kept out gaps. validSampleList ops sps ss 0 0 =
      Inr (distinct (map js_ts ss) \<and> gaps = 0, kept, out, int (length ss) - int (card (js_ts ` set ss)), int gaps) \<and>
    gaps = adjacent (is_gap sps) (js_ts (hd ss)) (map js_ts (tl ss))"
proof -
  obtain s ys where ss: "ss = s # ys" using assms(2) by (cases ss) auto
  have e: "adjacent (=) (js_ts s) (map js_ts ys) + card (js_ts ` set ss) = length ss"
    using adjacent_eq_sorted [of "js_ts s" "map js_ts ys"] assms(5) by (simp add: ss)
  have "distinct (map js_ts ss) \<longleftrightarrow> card (js_ts ` set ss) = length ss"
    using card_distinct [of "map js_ts ss"] distinct_card [of "map js_ts ss"] by auto
  then have "distinct (map js_ts ss) \<longleftrightarrow> adjacent (=) (js_ts s) (map js_ts ys) = 0" using e by linarith
  moreover have "int (adjacent (=) (js_ts s) (map js_ts ys)) = int (length ss) - int (card (js_ts ` set ss))" using e by linarith
  ultimately show ?thesis using validSampleList_result [OF assms(1-4), of sps] by (auto simp: ss)
qed

definition demo_sample :: "int \<Rightarrow> int \<Rightarrow> jsample" where
  "demo_sample t v = \<lparr>js_ts = t, js_v = Fin (of_int v), js_sn = 0\<rparr>"

definition demo_samples :: "jsample list" where
  "demo_samples = map (\<lambda>i. demo_sample (20 * i) 1) [2..12] @ [demo_sample 260 100, demo_sample 260 1] @ map (\<lambda>i. demo_sample (20 * i) 1) [14..30]"

lemma demo_samples_small: "\<forall>s\<in>set demo_samples. small s"
  by (auto simp: demo_samples_def demo_sample_def small_def)

lemma demo_samples_length: "demo_samples \<noteq> []" "length demo_samples < 2147483648"
proof -
  have "length demo_samples = 30" unfolding demo_samples_def length_append length_map length_upto by simp
  then show "demo_samples \<noteq> []" "length demo_samples < 2147483648" by auto
qed

theorem outliers_are_found_witness:
  "\<exists>valid out overlaps gaps. validSampleList list_fifo (Fin 50) demo_samples 0 0 =
      Inr (valid, filter (\<lambda>s. js_ts s \<notin> js_ts ` set out) demo_samples, out, overlaps, gaps) \<and>
    set out = {demo_samples ! m | m. is_outlier demo_samples m} \<union>
      {demo_samples ! m | m. m = 10 \<and> 10 < length demo_samples \<and> msum (take 10 demo_samples) < 2 * mag (demo_samples ! 10)}"
  by (rule outliers_are_found [OF list_fifo_circular demo_samples_length(1) demo_samples_small demo_samples_length(2)])

theorem repeated_times_are_counted_witness:
  "\<exists>kept out gaps. validSampleList list_fifo (Fin 50) demo_samples 0 0 =
      Inr (distinct (map js_ts demo_samples) \<and> gaps = 0, kept, out, int (length demo_samples) - int (card (js_ts ` set demo_samples)), int gaps) \<and>
    gaps = adjacent (is_gap (Fin 50)) (js_ts (hd demo_samples)) (map js_ts (tl demo_samples))"
proof -
  have "sorted (map js_ts demo_samples)" by (simp add: demo_samples_def demo_sample_def upto_rec_numeral)
  then show ?thesis
    by (rule repeated_times_are_counted [OF list_fifo_circular demo_samples_length(1) demo_samples_small demo_samples_length(2)])
qed

section \<open>The sums drift\<close>

text \<open>Any buffer behaves as the list does.\<close>

definition buffer_sim :: "('b \<Rightarrow> jsample list \<Rightarrow> bool) \<Rightarrow> 'b sample_buffer \<Rightarrow> jsample list sample_buffer \<Rightarrow> bool" where
  "buffer_sim holds b l \<longleftrightarrow> holds (sb_buff b) (sb_buff l) \<and> sb_sums b = sb_sums l \<and> length (sb_buff l) \<le> 10"

definition window_sim :: "('b \<Rightarrow> jsample list \<Rightarrow> bool) \<Rightarrow> 'b sliding_window \<Rightarrow> jsample list sliding_window \<Rightarrow> bool" where
  "window_sim holds w l \<longleftrightarrow> buffer_sim holds (sw_before w) (sw_before l) \<and> buffer_sim holds (sw_after w) (sw_after l) \<and>
     sw_middle w = sw_middle l"

lemma sb_add_sim:
  assumes f: "circular_fifo ops holds 10" and b: "buffer_sim holds b l"
  shows "rel_option (buffer_sim holds) (sb_add ops s b) (sb_add list_fifo s l)"
proof -
  have h: "holds (sb_buff b) (sb_buff l)" "sb_sums b = sb_sums l" "length (sb_buff l) \<le> 10" using b by (simp_all add: buffer_sim_def)
  have o: "fb_maxSize ops (sb_buff b) = 10" "fb_size ops (sb_buff b) = length (sb_buff l)"
    "fb_get ops (sb_buff b) = (case sb_buff l of [] \<Rightarrow> None | x # _ \<Rightarrow> Some x)"
    "holds (fb_add ops s (sb_buff b)) (if length (sb_buff l) = 10 then tl (sb_buff l) @ [s] else sb_buff l @ [s])"
    using f h(1) by (simp_all add: circular_fifo_def)
  show ?thesis
  proof (cases "length (sb_buff l) = 10")
    case True
    then obtain x xs where "sb_buff l = x # xs" by (cases "sb_buff l") auto
    then show ?thesis using o h True by (simp add: sb_add_def list_fifo_def buffer_sim_def)
  next
    case False
    then show ?thesis using o h by (simp add: sb_add_def list_fifo_def buffer_sim_def)
  qed
qed

lemma sw_add_sim:
  assumes f: "circular_fifo ops holds 10" and w: "window_sim holds w l"
  shows "rel_option (window_sim holds) (sw_add ops s w) (sw_add list_fifo s l)"
proof -
  have b: "buffer_sim holds (sw_before w) (sw_before l)" "buffer_sim holds (sw_after w) (sw_after l)" "sw_middle w = sw_middle l"
    using w by (simp_all add: window_sim_def)
  have q: "fb_isFull ops (sb_buff c) = fb_isFull list_fifo (sb_buff k)" "fb_get ops (sb_buff c) = fb_get list_fifo (sb_buff k)"
    if "buffer_sim holds c k" for c k
    using that f by (simp_all add: buffer_sim_def circular_fifo_def list_fifo_def)
  have m: "rel_option (window_sim holds) (map_option (\<lambda>b. w\<lparr>sw_before := b\<rparr>) (sb_add ops s (sw_before w)))
      (map_option (\<lambda>b. l\<lparr>sw_before := b\<rparr>) (sb_add list_fifo s (sw_before l)))"
    "rel_option (window_sim holds) (map_option (\<lambda>b. w\<lparr>sw_after := b\<rparr>) (sb_add ops s (sw_after w)))
      (map_option (\<lambda>b. l\<lparr>sw_after := b\<rparr>) (sb_add list_fifo s (sw_after l)))"
    using b by (auto simp: option.rel_map window_sim_def intro: option.rel_mono_strong [OF sb_add_sim [OF f]])
  have "rel_option (window_sim holds)
      (do { b \<leftarrow> sb_add ops mid (sw_before w); m \<leftarrow> g; a \<leftarrow> sb_add ops s (sw_after w); Some \<lparr>sw_before = b, sw_after = a, sw_middle = Some m\<rparr> })
      (do { b \<leftarrow> sb_add list_fifo mid (sw_before l); m \<leftarrow> g; a \<leftarrow> sb_add list_fifo s (sw_after l); Some \<lparr>sw_before = b, sw_after = a, sw_middle = Some m\<rparr> })"
    for mid g
    using sb_add_sim [OF f b(1), of mid] sb_add_sim [OF f b(2), of s]
    by (cases g) (auto simp: window_sim_def elim!: option.rel_cases)
  then show ?thesis
    using m by (cases "sw_middle l") (simp_all add: sw_add_def b(3) q [OF b(1)] q [OF b(2)] window_sim_def b(1,2))
qed

primrec sw_adds :: "'b fifo_ops \<Rightarrow> jsample list \<Rightarrow> 'b sliding_window \<Rightarrow> 'b sliding_window option" where
  "sw_adds ops [] w = Some w"
| "sw_adds ops (s # ss) w = Option.bind (sw_add ops s w) (sw_adds ops ss)"

lemma sw_adds_append: "sw_adds ops (xs @ ys) w = Option.bind (sw_adds ops xs w) (sw_adds ops ys)"
proof (induction xs arbitrary: w)
  case (Cons x xs)
  then show ?case by (cases "sw_add ops x w") simp_all
qed simp

lemma sw_adds_sim:
  "circular_fifo ops holds 10 \<Longrightarrow> window_sim holds w l \<Longrightarrow> rel_option (window_sim holds) (sw_adds ops ss w) (sw_adds list_fifo ss l)"
proof (induction ss arbitrary: w l)
  case (Cons s ss)
  with sw_add_sim [OF Cons.prems, of s] show ?case by (auto elim!: option.rel_cases)
qed simp

lemma isMiddleOutlier_sim: "window_sim holds w l \<Longrightarrow> isMiddleOutlier w = isMiddleOutlier l"
  by (simp add: window_sim_def buffer_sim_def isMiddleOutlier_def split: option.split)

text \<open>A full window of zeros whose two sums are both \<^verbatim>\<open>x\<close>.\<close>

definition level :: "rat \<Rightarrow> jsample list sliding_window \<Rightarrow> bool" where
  "level x w \<longleftrightarrow> length (sb_buff (sw_before w)) = 10 \<and> length (sb_buff (sw_after w)) = 10 \<and>
     (\<forall>s\<in>set (sb_buff (sw_before w)) \<union> set (sb_buff (sw_after w)). js_v s = Fin 0) \<and>
     sb_sums (sw_before w) = Fin x \<and> sb_sums (sw_after w) = Fin x \<and>
     (case sw_middle w of None \<Rightarrow> False | Some m \<Rightarrow> js_v m = Fin 0)"

lemma round32_minus_1 [simp]: "round32 (- 1) = Fin (- 1)"
  using round32_int [of "- 1"] by simp

lemma round32_zero [simp]: "round32 0 = Fin 0"
  using round32_int [of 0] by simp

lemma sb_add_zero:
  assumes "length (sb_buff b) = 10" "\<forall>s\<in>set (sb_buff b). js_v s = Fin 0" "sb_sums b = Fin x" "js_v z = Fin 0" "round32 x = Fin x"
  shows "sb_add list_fifo z b = Some \<lparr>sb_buff = tl (sb_buff b) @ [z], sb_sums = Fin x\<rparr>"
  using assms by (cases "sb_buff b") (simp_all add: sb_add_def list_fifo_def j_sub_def)

lemma level_step:
  assumes "level x w" "js_v z = Fin 0" "round32 x = Fin x"
  shows "\<exists>w'. sw_add list_fifo z w = Some w' \<and> level x w'"
proof -
  obtain m where m: "sw_middle w = Some m" "js_v m = Fin 0" using assms(1) by (auto simp: level_def split: option.splits)
  obtain y ys where y: "sb_buff (sw_after w) = y # ys" using assms(1) by (cases "sb_buff (sw_after w)") (simp_all add: level_def)
  have w: "length (sb_buff (sw_before w)) = 10" "length (sb_buff (sw_after w)) = 10" "sb_sums (sw_before w) = Fin x"
    "sb_sums (sw_after w) = Fin x" "\<forall>s\<in>set (sb_buff (sw_before w)). js_v s = Fin 0" "\<forall>s\<in>set (sb_buff (sw_after w)). js_v s = Fin 0"
    using assms(1) by (auto simp: level_def)
  have "fb_isFull list_fifo (sb_buff (sw_before w))" "fb_isFull list_fifo (sb_buff (sw_after w))" "fb_get list_fifo (sb_buff (sw_after w)) = Some y"
    using w y by (simp_all add: list_fifo_def)
  then have "sw_add list_fifo z w = Some \<lparr>sw_before = \<lparr>sb_buff = tl (sb_buff (sw_before w)) @ [m], sb_sums = Fin x\<rparr>,
      sw_after = \<lparr>sb_buff = ys @ [z], sb_sums = Fin x\<rparr>, sw_middle = Some y\<rparr>"
    using m(1) sb_add_zero [OF w(1,5,3) m(2) assms(3)] sb_add_zero [OF w(2,6,4) assms(2,3)] y by (simp add: sw_add_def)
  then show ?thesis using w m y assms(2) by (cases "sb_buff (sw_before w)") (simp_all add: level_def ball_Un)
qed

lemma level_adds: "level x w \<Longrightarrow> \<forall>z\<in>set zs. js_v z = Fin 0 \<Longrightarrow> round32 x = Fin x \<Longrightarrow> \<exists>w'. sw_adds list_fifo zs w = Some w' \<and> level x w'"
proof (induction zs arbitrary: w)
  case (Cons z zs)
  then obtain w1 where "sw_add list_fifo z w = Some w1" "level x w1" using level_step [of x w z] by auto
  with Cons show ?case by simp
qed simp

lemma level_outlier: "level (- 1) w \<Longrightarrow> isMiddleOutlier w"
  by (auto simp: level_def isMiddleOutlier_def round32_def split: option.splits)

lemma round32_25165821: "round32 25165821 = Fin 25165820"
proof -
  have "bitlen 25165821 \<le> int 25" "\<not> bitlen 25165821 \<le> int 24" unfolding bitlen_le_iff_power by simp_all
  then have "bitlen 25165821 = 25" by simp
  moreover have "bitlen 1 = 1" by (simp add: bitlen_def floorlog_def)
  ultimately have "float_exp 25165821 = 24"
    using quotient_of_int [of 25165821] by (simp add: float_exp_def Let_def quotient_of_number)
  moreover have "round_even (25165821 / 2) = 12582910"
  proof -
    have "\<lfloor>25165821 / 2 :: rat\<rfloor> = 12582910" by (simp add: floor_unique)
    then show ?thesis by (simp add: round_even_def Let_def)
  qed
  ultimately show ?thesis by (simp add: round32_def Let_def power_int_numeral_neg_numeral)
qed

lemmas loud_sums = round32_25165821 round32_exact [of 25165820 1, simplified] round32_int [of 8388607, simplified] round32_int [of 16777214, simplified]
  round32_int [of 16777213, simplified] round32_int [of 8388606, simplified]

text \<open>A list of zeros as a function of the index that is zero everywhere.\<close>

lemma zeros_prefix:
  assumes "\<forall>z\<in>set zs. js_v z = Fin 0" "n \<le> length zs" "0 < n"
  obtains q where "take n zs = map q [0..<n]" "\<forall>i. js_v (q i) = Fin 0"
proof
  let ?q = "\<lambda>i. zs ! (if i < length zs then i else 0)"
  show "take n zs = map ?q [0..<n]" using assms(2) by (intro nth_equalityI) simp_all
  have "zs ! (if i < length zs then i else 0) \<in> set zs" for i using assms(2,3) by (intro nth_mem) (auto split: if_splits)
  then show "\<forall>i. js_v (?q i) = Fin 0" using assms(1) by blast
qed

text \<open>The samples a full window shows, and how they move on.\<close>

definition window_list :: "jsample list sliding_window \<Rightarrow> jsample list" where
  "window_list w = sb_buff (sw_before w) @ (case sw_middle w of None \<Rightarrow> [] | Some m \<Rightarrow> [m]) @ sb_buff (sw_after w)"

definition full_window :: "jsample list sliding_window \<Rightarrow> bool" where
  "full_window w \<longleftrightarrow> length (sb_buff (sw_before w)) = 10 \<and> length (sb_buff (sw_after w)) = 10 \<and> sw_middle w \<noteq> None"

lemma full_window_step:
  assumes "full_window w" "sw_add list_fifo s w = Some w'"
  shows "full_window w' \<and> window_list w' = tl (window_list w) @ [s]"
proof -
  obtain m where m: "sw_middle w = Some m" using assms(1) by (auto simp: full_window_def)
  obtain x xs where x: "sb_buff (sw_before w) = x # xs" using assms(1) by (cases "sb_buff (sw_before w)") (simp_all add: full_window_def)
  obtain y ys where y: "sb_buff (sw_after w) = y # ys" using assms(1) by (cases "sb_buff (sw_after w)") (simp_all add: full_window_def)
  show ?thesis
    using assms by (auto simp: full_window_def window_list_def m x y sw_add_def sb_add_def list_fifo_def)
qed

lemma full_window_adds:
  "full_window w \<Longrightarrow> sw_adds list_fifo ss w = Some w' \<Longrightarrow> full_window w' \<and> window_list w' = drop (length ss) (window_list w @ ss)"
proof (induction ss arbitrary: w)
  case (Cons s ss)
  from Cons.prems(2) obtain w1 where w1: "sw_add list_fifo s w = Some w1" "sw_adds list_fifo ss w1 = Some w'" by (auto split: bind_splits)
  have "window_list w \<noteq> []" using Cons.prems(1) by (auto simp: full_window_def window_list_def)
  with Cons.IH [OF _ w1(2)] full_window_step [OF Cons.prems(1) w1(1)] show ?case
    by (cases "window_list w") simp_all
qed simp

lemma level_full: "level x w \<Longrightarrow> full_window w"
  by (auto simp: level_def full_window_def split: option.splits)

lemma full_window_middle: "full_window w \<Longrightarrow> sw_middle w = Some (window_list w ! 10)"
  by (auto simp: full_window_def window_list_def nth_append)

text \<open>Silence at the start of the recording, then three samples of full scale and twenty-one of zero.\<close>

lemma quiet_start:
  assumes "\<And>i. js_v (q i) = Fin 0"
  shows "\<exists>w. sw_adds list_fifo (map q [0..<21]) (sw_new list_fifo 10) = Some w \<and> level 0 w"
  by (simp add: assms upt_rec sw_new_def sb_new_def sw_add_def sb_add_def list_fifo_def j_sub_def level_def)

lemma loud_passes:
  assumes "\<And>i. js_v (x i) = Fin 0" "\<And>i. js_v (y i) = Fin 0" "\<And>i. js_v (z i) = Fin 0" "js_v m = Fin 0"
    and "js_v a = Fin 8388607" "js_v b = Fin 8388607" "js_v c = Fin 8388607"
  shows "\<exists>w. sw_adds list_fifo ([a, b, c] @ map z [0..<21]) \<lparr>sw_before = \<lparr>sb_buff = map x [0..<10], sb_sums = Fin 0\<rparr>,
      sw_after = \<lparr>sb_buff = map y [0..<10], sb_sums = Fin 0\<rparr>, sw_middle = Some m\<rparr> = Some w \<and> level (- 1) w"
  by (simp add: assms upt_rec sw_add_def sb_add_def list_fifo_def j_sub_def level_def loud_sums)

lemma loud_leaves_level:
  assumes "level 0 w" "\<forall>z\<in>set zs. js_v z = Fin 0" "21 \<le> length zs"
    and "js_v a = Fin 8388607" "js_v b = Fin 8388607" "js_v c = Fin 8388607"
  shows "\<exists>w'. sw_adds list_fifo ([a, b, c] @ zs) w = Some w' \<and> level (- 1) w'"
proof -
  obtain z where z: "take 21 zs = map z [0..<21]" "\<forall>i. js_v (z i) = Fin 0" using zeros_prefix [OF assms(2,3)] by (metis zero_less_numeral)
  obtain m where m: "sw_middle w = Some m" "js_v m = Fin 0" using assms(1) by (auto simp: level_def split: option.splits)
  have len: "length (sb_buff (sw_before w)) = 10" "length (sb_buff (sw_after w)) = 10" and zero: "\<forall>s\<in>set (sb_buff (sw_before w)). js_v s = Fin 0"
    "\<forall>s\<in>set (sb_buff (sw_after w)). js_v s = Fin 0" using assms(1) by (auto simp: level_def)
  obtain x where x: "take 10 (sb_buff (sw_before w)) = map x [0..<10]" "\<forall>i. js_v (x i) = Fin 0" using zeros_prefix [OF zero(1)] len(1) by (metis order_refl zero_less_numeral)
  obtain y where y: "take 10 (sb_buff (sw_after w)) = map y [0..<10]" "\<forall>i. js_v (y i) = Fin 0" using zeros_prefix [OF zero(2)] len(2) by (metis order_refl zero_less_numeral)
  have xy: "sb_buff (sw_before w) = map x [0..<10]" "sb_buff (sw_after w) = map y [0..<10]" using x(1) y(1) len by (metis order_refl take_all)+
  have w: "w = \<lparr>sw_before = \<lparr>sb_buff = map x [0..<10], sb_sums = Fin 0\<rparr>, sw_after = \<lparr>sb_buff = map y [0..<10], sb_sums = Fin 0\<rparr>, sw_middle = Some m\<rparr>"
    using assms(1) xy(1,2) m(1) by (simp add: level_def)
  obtain w1 where w1: "sw_adds list_fifo ([a, b, c] @ map z [0..<21]) w = Some w1" "level (- 1) w1"
    unfolding w using loud_passes [of x y z m a b c] x(2) y(2) z(2) m(2) assms(4-6) by blast
  have "\<forall>z\<in>set (drop 21 zs). js_v z = Fin 0" using assms(2) by (meson in_set_dropD)
  with level_adds [OF w1(2)] obtain w' where "sw_adds list_fifo (drop 21 zs) w1 = Some w'" "level (- 1) w'" by auto
  moreover have "sw_adds list_fifo ([a, b, c] @ zs) w = sw_adds list_fifo (([a, b, c] @ map z [0..<21]) @ drop 21 zs) w"
    unfolding z(1) [symmetric] append_assoc append_take_drop_id ..
  then have "sw_adds list_fifo ([a, b, c] @ zs) w = Option.bind (Some w1) (sw_adds list_fifo (drop 21 zs))"
    unfolding sw_adds_append [of _ "[a, b, c] @ map z [0..<21]"] w1(1) .
  ultimately show ?thesis by (metis bind.bind_lunit)
qed

lemma quiet_level:
  assumes "\<forall>q\<in>set qs. js_v q = Fin 0" "21 \<le> length qs"
  shows "\<exists>w. sw_adds list_fifo qs (sw_new list_fifo 10) = Some w \<and> level 0 w"
proof -
  obtain q where q: "take 21 qs = map q [0..<21]" "\<forall>i. js_v (q i) = Fin 0" using zeros_prefix [OF assms] by (metis zero_less_numeral)
  obtain w1 where w1: "sw_adds list_fifo (map q [0..<21]) (sw_new list_fifo 10) = Some w1" "level 0 w1" using quiet_start [of q] q(2) by blast
  have "\<forall>z\<in>set (drop 21 qs). js_v z = Fin 0" using assms(1) by (meson in_set_dropD)
  with level_adds [OF w1(2)] obtain w' where "sw_adds list_fifo (drop 21 qs) w1 = Some w'" "level 0 w'" by auto
  then have "sw_adds list_fifo (take 21 qs @ drop 21 qs) (sw_new list_fifo 10) = Some w'" using w1(1) by (simp only: sw_adds_append q(1) bind.bind_lunit)
  with \<open>level 0 w'\<close> show ?thesis by simp
qed

text \<open>C29: After a strong signal, silence is an outlier. A recording starts with at least twenty-one samples of value zero, then has three of
  full scale, and then zeros again. From the twenty-first of these on, when none of the three is in the window any more, both sums, kept in 24 bits, are
  not zero but -1, for as long as the signal is zero; so the sample in the middle of the window, the one added ten samples before, is found to be an outlier
  although it and all its neighbours are zero: from the eleventh zero on every zero is, once ten more have been added.\<close>

theorem silence_after_strong_signal_is_an_outlier:
  assumes "circular_fifo ops holds 10" "\<forall>q\<in>set qs. js_v q = Fin 0" "21 \<le> length qs" "\<forall>z\<in>set zs. js_v z = Fin 0" "21 \<le> length zs"
    and "js_v a = Fin 8388607" "js_v b = Fin 8388607" "js_v c = Fin 8388607"
  shows "\<exists>w. sw_adds ops (qs @ [a, b, c] @ zs) (sw_new ops 10) = Some w \<and> isMiddleOutlier w \<and> sw_middle w = Some (zs ! (length zs - 11)) \<and>
    sb_sums (sw_before w) = Fin (- 1) \<and> sb_sums (sw_after w) = Fin (- 1)"
proof -
  obtain w0 where w0: "sw_adds list_fifo qs (sw_new list_fifo 10) = Some w0" "level 0 w0" using quiet_level [OF assms(2,3)] by blast
  obtain l where l: "sw_adds list_fifo ([a, b, c] @ zs) w0 = Some l" "level (- 1) l" using loud_leaves_level [OF w0(2) assms(4-8)] by blast
  have "window_list l = drop (length ([a, b, c] @ zs)) ((window_list w0 @ [a, b, c]) @ zs)" using full_window_adds [OF level_full [OF w0(2)] l(1)] by simp
  moreover have "length (window_list w0 @ [a, b, c]) = 24" using w0(2) by (auto simp: level_def window_list_def split: option.splits)
  ultimately have "window_list l = drop (length zs - 21) zs" using assms(5) unfolding drop_append by simp
  then have mid: "sw_middle l = Some (zs ! (length zs - 11))"
    using full_window_middle [OF level_full [OF l(2)]] assms(5) by simp
  have run: "sw_adds list_fifo (qs @ [a, b, c] @ zs) (sw_new list_fifo 10) = Some l" using w0(1) l(1) by (subst sw_adds_append) simp
  have "window_sim holds (sw_new ops 10) (sw_new list_fifo 10)"
    using assms(1) by (simp add: window_sim_def buffer_sim_def sw_new_def sb_new_def circular_fifo_def list_fifo_def)
  from sw_adds_sim [OF assms(1) this, of "qs @ [a, b, c] @ zs"] run
  obtain w where w: "sw_adds ops (qs @ [a, b, c] @ zs) (sw_new ops 10) = Some w" "window_sim holds w l" by (auto elim: option.rel_cases)
  then show ?thesis
    using isMiddleOutlier_sim [OF w(2)] level_outlier [OF l(2)] l(2) mid by (auto simp: window_sim_def buffer_sim_def level_def)
qed

theorem silence_after_strong_signal_is_an_outlier_witness:
  "\<exists>w. sw_adds list_fifo (replicate 30 (demo_sample 0 0) @ [demo_sample 1 8388607, demo_sample 2 8388607, demo_sample 3 8388607] @ replicate 50 (demo_sample 4 0))
      (sw_new list_fifo 10) = Some w \<and> isMiddleOutlier w \<and> sw_middle w = Some (demo_sample 4 0)"
proof -
  have "js_v (demo_sample t 0) = Fin 0" "js_v (demo_sample t 8388607) = Fin 8388607" for t by (simp_all add: demo_sample_def)
  then show ?thesis
    using silence_after_strong_signal_is_an_outlier [OF list_fifo_circular, of "replicate 30 (demo_sample 0 0)" "replicate 50 (demo_sample 4 0)"
        "demo_sample 1 8388607" "demo_sample 2 8388607" "demo_sample 3 8388607"] by (auto simp: nth_replicate)
qed

section \<open>The output\<close>

text \<open>With a limit, one line more than the limit is written.\<close>

lemma write_lines_limit:
  assumes "0 \<le> n" "n + int (length ss) < 2 ^ 31" "n \<le> limit"
  shows "write_lines shown True limit n ss = concat (map (\<lambda>s. shown s @ [NL]) (take (nat (limit - n) + 1) ss))"
  using assms
proof (induction ss arbitrary: n)
  case (Cons s ss)
  have i: "java_int (n + 1) = n + 1" using Cons.prems by (simp add: java_int_id)
  show ?case
  proof (cases "n + 1 > limit")
    case True
    then have "nat (limit - n) = 0" using Cons.prems by simp
    then show ?thesis using True i by simp
  next
    case False
    then have "nat (limit - n) = Suc (nat (limit - (n + 1)))" by simp
    then show ?thesis using False i Cons.IH [of "n + 1"] Cons.prems by simp
  qed
qed simp

end
