(* ===== verification/Results_Reader.thy ===== *)
theory Results_Reader
  imports Outliers "HOL-Library.Signed_Division"
begin

text \<open>
  The rest of the results reader: miniSEED files (\<^verbatim>\<open>ReadMSeed.java\<close>), the options of the command line
  (\<^verbatim>\<open>ReaderCliOptions.java\<close>) and the program (\<^verbatim>\<open>App.java\<close>).  The libraries that read the files and the
  command line are parameters: a record is given by what its accessors return.
\<close>

section \<open>ReadMSeed\<close>

text \<open>\<^verbatim>\<open>dr_data\<close> is what the codec returns, \<^verbatim>\<open>None\<close> for an exception it throws.\<close>

record data_record =
  dr_start :: string
  dr_num :: nat
  dr_factor :: int
  dr_rate :: jfloat
  dr_data :: "jfloat list option"

datatype seed_read = Seed_data data_record | Seed_control | Seed_io | Seed_format

text \<open>The data of a record that cannot be decoded are zeros.\<close>

definition decompressDataRecord :: "data_record \<Rightarrow> java_exn + jfloat list" where
  "decompressDataRecord dr = (case dr_data dr of
     None \<Rightarrow> Inr (replicate (dr_num dr) (Fin 0))
   | Some temp \<Rightarrow> if length temp \<le> dr_num dr then Inr (temp @ replicate (dr_num dr - length temp) (Fin 0)) else Inl IndexOutOfBounds)"

text \<open>\<^verbatim>\<open>TreeMap.put\<close> with a comparator: a key that compares equal stays and gets the new value.\<close>

fun tree_put :: "('k \<Rightarrow> 'k \<Rightarrow> int) \<Rightarrow> 'k \<Rightarrow> 'v \<Rightarrow> ('k \<times> 'v) list \<Rightarrow> ('k \<times> 'v) list" where
  "tree_put cmp k v [] = [(k, v)]"
| "tree_put cmp k v ((k', v') # m) =
     (if cmp k k' < 0 then (k, v) # (k', v') # m else if cmp k k' = 0 then (k', v) # m else (k', v') # tree_put cmp k v m)"

fun decompress_all ::
  "(data_record \<Rightarrow> data_record \<Rightarrow> int) \<Rightarrow> data_record list \<Rightarrow> (data_record \<times> jfloat list) list \<Rightarrow> java_exn + (data_record \<times> jfloat list) list"
where
  "decompress_all cmp [] m = Inr m"
| "decompress_all cmp (dr # drs) m = and_then (decompressDataRecord dr) (\<lambda>vs. decompress_all cmp drs (tree_put cmp dr vs m))"

definition decompressDataRecordList ::
  "(data_record \<Rightarrow> data_record \<Rightarrow> int) \<Rightarrow> data_record list \<Rightarrow> java_exn + (data_record \<times> jfloat list) list"
where
  "decompressDataRecordList cmp drs = decompress_all cmp drs []"

text \<open>The reads until the end of the file; with assertions off, a control record fails at the cast.\<close>

fun getAllDataRecords :: "seed_read list \<Rightarrow> jfloat \<Rightarrow> java_exn + (data_record list \<times> jfloat)" where
  "getAllDataRecords [] sps = Inr ([], sps)"
| "getAllDataRecords (Seed_data dr # rs) sps = and_then (getAllDataRecords rs (dr_rate dr)) (\<lambda>(drs, sps). Inr (dr # drs, sps))"
| "getAllDataRecords (Seed_control # rs) sps = Inl ClassCast"
| "getAllDataRecords (Seed_io # rs) sps = Inl (Exit 1)"
| "getAllDataRecords (Seed_format # rs) sps = Inl (Exit 1)"

text \<open>The samples of one record; \<^verbatim>\<open>i\<close> counts them.\<close>

fun record_samples :: "int \<Rightarrow> int \<Rightarrow> int \<Rightarrow> jfloat list \<Rightarrow> int \<Rightarrow> java_exn + (jsample list \<times> int)" where
  "record_samples start factor i [] n = Inr ([], n)"
| "record_samples start factor i (v # vs) n =
     (if factor = 0 then Inl ArithmeticExn
      else let timeInRecord = java_int (java_int (1000 sdiv factor) * i); (s, n) = new_sample (java_long (start + timeInRecord)) v n
        in and_then (record_samples start factor (java_int (i + 1)) vs n) (\<lambda>(ss, n). Inr (s # ss, n)))"

text \<open>The loop over the records; \<^verbatim>\<open>parse\<close> is the date format, and a date it does not accept ends the loop.\<close>

fun map_samples :: "(string \<Rightarrow> int option) \<Rightarrow> (data_record \<times> jfloat list) list \<Rightarrow> int \<Rightarrow> java_exn + (jsample list \<times> int)" where
  "map_samples parse [] n = Inr ([], n)"
| "map_samples parse ((dr, vs) # m) n =
     (if dr_start dr = [] then Inl IndexOutOfBounds
      else case parse (butlast (dr_start dr)) of
        None \<Rightarrow> Inr ([], n)
      | Some start \<Rightarrow> and_then (record_samples start (dr_factor dr) 0 vs n) (\<lambda>(ss, n).
          and_then (map_samples parse m n) (\<lambda>(ts, n). Inr (ss @ ts, n))))"

definition transformToOrderedSampleList ::
  "(string \<Rightarrow> int option) \<Rightarrow> (data_record \<times> jfloat list) list \<Rightarrow> bool \<Rightarrow> int \<Rightarrow> java_exn + (jsample list \<times> int)"
where
  "transformToOrderedSampleList parse m withSequenceNumber n = and_then (map_samples parse m n) (\<lambda>(ss, n).
     Inr (if withSequenceNumber then sort_key js_sn ss else sort_key js_ts ss, n))"

text \<open>The constructor; \<^verbatim>\<open>None\<close> is a file that is not there.\<close>

definition ReadMSeed ::
  "(string \<Rightarrow> int option) \<Rightarrow> (data_record \<Rightarrow> data_record \<Rightarrow> int) \<Rightarrow> seed_read list option \<Rightarrow> bool \<Rightarrow> int \<Rightarrow> java_exn + (jfloat \<times> jsample list \<times> int)"
where
  "ReadMSeed parse cmp file withSequenceNumber n = (case file of None \<Rightarrow> Inl FileNotFound
   | Some rs \<Rightarrow> and_then (getAllDataRecords rs (Fin 0)) (\<lambda>(drs, sps).
       and_then (decompressDataRecordList cmp drs) (\<lambda>m.
       and_then (transformToOrderedSampleList parse m withSequenceNumber n) (\<lambda>(ss, n). Inr (sps, ss, n)))))"

section \<open>ReaderCliOptions\<close>

text \<open>The options that are declared: the name and whether there is an argument.\<close>

definition cli_options :: "(string \<times> bool) list" where
  "cli_options = [(''write-limit'', True), (''input'', True), (''data-output'', True), (''SPS'', True), (''channel'', True),
     (''help'', False), (''debug'', False), (''only-check'', False), (''outputWithTimeSinceEpoch'', False),
     (''inputWithSequenceNumber'', False), (''isInputJson'', False)]"

record reader_opts =
  inputFilePath :: string
  outputDataFilePath :: string
  softLineLimit :: bool
  softLineLimitValue :: int
  opt_debug :: bool
  inputWithSequenceNumber :: bool
  outputWithTimeSinceEpoch :: bool
  onlyCheck :: bool
  isInputJson :: bool
  opt_SPS :: jfloat
  forcedSPS :: bool
  opt_channel :: int

definition reader_opts0 :: reader_opts where
  "reader_opts0 = \<lparr>inputFilePath = ''../Sesimbra_07_Jan_2012/theirs/IP.PSES..BHN.D.2013.038'', outputDataFilePath = ''out.data'',
     softLineLimit = False, softLineLimitValue = - 1, opt_debug = False, inputWithSequenceNumber = False,
     outputWithTimeSinceEpoch = False, onlyCheck = False, isInputJson = False, opt_SPS = Fin 0, forcedSPS = False, opt_channel = 1\<rparr>"

text \<open>The command line as the library has parsed it: the options that are there, and the values of their arguments as a whole number,
  a \<^verbatim>\<open>float\<close> and a text, where \<^verbatim>\<open>None\<close> is a \<^verbatim>\<open>ParseException\<close>.\<close>

record command_line =
  hasOption :: "string \<Rightarrow> bool"
  intValue :: "string \<Rightarrow> int option"
  floatValue :: "string \<Rightarrow> jfloat option"
  textValue :: "string \<Rightarrow> string option"

definition set_option :: "bool \<Rightarrow> 'v option \<Rightarrow> ('v \<Rightarrow> 'o \<Rightarrow> 'o) \<Rightarrow> 'o \<Rightarrow> 'o option" where
  "set_option present v upd q = (if present then map_option (\<lambda>x. upd x q) v else Some q)"

definition parse_options :: "command_line \<Rightarrow> reader_opts option" where
  "parse_options cl = do {
     q \<leftarrow> set_option (hasOption cl ''write-limit'') (intValue cl ''write-limit'') (\<lambda>v q. q\<lparr>softLineLimit := True, softLineLimitValue := v\<rparr>) reader_opts0;
     q \<leftarrow> set_option (hasOption cl ''SPS'') (floatValue cl ''SPS'') (\<lambda>v q. q\<lparr>forcedSPS := True, opt_SPS := v\<rparr>) q;
     q \<leftarrow> set_option (hasOption cl ''channel'') (intValue cl ''channel'') (\<lambda>v q. q\<lparr>opt_channel := v\<rparr>) q;
     q \<leftarrow> set_option (hasOption cl ''data-output'') (textValue cl ''data-output'') (\<lambda>v q. q\<lparr>outputDataFilePath := v\<rparr>) q;
     q \<leftarrow> set_option (hasOption cl ''input'') (textValue cl ''input'') (\<lambda>v q. q\<lparr>inputFilePath := v\<rparr>) q;
     let q = (if hasOption cl ''inputWithSequenceNumber'' then q\<lparr>inputWithSequenceNumber := True\<rparr> else q);
     let q = (if hasOption cl ''outputWithTimeSinceEpoch'' then q\<lparr>outputWithTimeSinceEpoch := True\<rparr> else q);
     let q = (if hasOption cl ''isInputJson'' then q\<lparr>isInputJson := True\<rparr> else q);
     let q = (if hasOption cl ''debug'' then q\<lparr>opt_debug := True\<rparr> else q);
     let q = (if hasOption cl ''only-check'' then q\<lparr>onlyCheck := True\<rparr> else q);
     if hasOption cl ''help'' then None else Some q
   }"

text \<open>Arguments the library rejects, a value it cannot convert, and the request for help all end the program with -1.\<close>

definition cli_parse :: "command_line option \<Rightarrow> java_exn + reader_opts" where
  "cli_parse args = (case Option.bind args parse_options of None \<Rightarrow> Inl (Exit (- 1)) | Some q \<Rightarrow> Inr q)"

section \<open>main\<close>

text \<open>What the program finds: the files, as text and as records, the formats of the locale, and the comparator of the library.\<close>

record 'b reader_env =
  env_text :: "string \<Rightarrow> string option"
  env_seed :: "string \<Rightarrow> seed_read list option"
  env_parse :: "string \<Rightarrow> int option"
  env_date :: "int \<Rightarrow> string"
  env_float :: "jfloat \<Rightarrow> string"
  env_cmp :: "data_record \<Rightarrow> data_record \<Rightarrow> int"
  env_fifo :: "'b fifo_ops"

text \<open>The results are whether all samples are valid, the two counters, and the file that is written with its name.\<close>

definition reader_main :: "'b reader_env \<Rightarrow> command_line option \<Rightarrow> java_exn + (bool \<times> int \<times> int \<times> (string \<times> string) option)" where
  "reader_main env args = and_then (cli_parse args) (\<lambda>opt.
     let result = and_then
         (if isInputJson opt then getAllSamples (opt_channel opt) (env_text env (inputFilePath opt)) 0
          else ReadMSeed (env_parse env) (env_cmp env) (env_seed env (inputFilePath opt)) (inputWithSequenceNumber opt) 0)
         (\<lambda>(sps, ss, n).
            and_then (validSampleList (env_fifo env) (if forcedSPS opt then opt_SPS opt else sps) ss 0 0) (\<lambda>(valid, ss, out, overlaps, gaps).
            Inr (valid, overlaps, gaps, if onlyCheck opt then None
              else Some (outputDataFilePath opt, writeSampleList (env_date env) (env_float env) ss (softLineLimit opt)
                (softLineLimitValue opt) (outputWithTimeSinceEpoch opt)))))
     in case result of Inl FileNotFound \<Rightarrow> Inl (Exit 1) | _ \<Rightarrow> result)"

section \<open>The times of a record\<close>

lemma nth_number_samples: "k < length xs \<Longrightarrow> js_ts (number_samples n xs ! k) = fst (xs ! k) \<and> js_v (number_samples n xs ! k) = snd (xs ! k)"
  by (induction xs arbitrary: n k) (auto simp: less_Suc_eq_0_disj)

lemma record_samples_ok:
  assumes "0 < f" "1000 * (i + length vs) < 2147483648" "\<bar>start\<bar> \<le> 2 ^ 62"
  shows "\<exists>n'. record_samples start f (int i) vs n =
    Inr (number_samples n (map (\<lambda>(k, v). (start + (1000 div f) * int k, v)) (enumerate i vs)), n')"
  using assms(2)
proof (induction vs arbitrary: i n)
  case (Cons v vs)
  have q: "0 \<le> 1000 div f" "1000 div f \<le> 1000"
    using assms(1) int_div_less_self [of 1000 f] by (simp_all add: pos_imp_zdiv_nonneg_iff) (cases "f = 1"; simp)
  then have p: "0 \<le> (1000 div f) * int i" "(1000 div f) * int i \<le> 1000 * int i" by (simp_all add: mult_right_mono)
  have "java_int (1000 sdiv f) = 1000 div f" using q assms(1) by (simp add: signed_divide_int_def java_int_id)
  moreover have "java_int ((1000 div f) * int i) = (1000 div f) * int i" using p Cons.prems by (simp add: java_int_id)
  moreover have "java_long (start + (1000 div f) * int i) = start + (1000 div f) * int i"
    using p Cons.prems assms(3) by (intro java_long_id) (simp_all add: abs_le_iff)
  moreover have "java_int (int i + 1) = int (Suc i)" using Cons.prems by (simp add: java_int_id)
  moreover have "1000 * (Suc i + length vs) < 2147483648" using Cons.prems by simp
  note Cons.IH [OF this, of "java_int (n + 1)"]
  ultimately show ?case using assms(1) by (auto simp: new_sample_def)
qed simp

text \<open>Two records that begin at the same time: the values of the first one are lost.\<close>

lemma same_start_loses_record:
  assumes "cmp b a = 0" "decompressDataRecord a = Inr vs" "decompressDataRecord b = Inr ws"
  shows "decompressDataRecordList cmp [a, b] = Inr [(a, ws)]"
  using assms by (simp add: decompressDataRecordList_def)

text \<open>C37: The samples of a miniSEED record keep their values and order, and their times run slow. With a rate of \<^verbatim>\<open>f\<close> samples per second the
  \<^verbatim>\<open>k\<close>-th sample is stamped by whole milliseconds of the rounded period, so it is early by \<^verbatim>\<open>k\<close> times the
  remainder of 1000 by \<^verbatim>\<open>f\<close>, divided by \<^verbatim>\<open>f\<close>; only rates that divide 1000 get the right times.\<close>

theorem record_times_run_slow:
  assumes "dr_start dr \<noteq> []" "parse (butlast (dr_start dr)) = Some start" "\<bar>start\<bar> \<le> 2 ^ 62" "0 < dr_factor dr" "1000 * length vs < 2147483648"
  shows "\<exists>ss n'. transformToOrderedSampleList parse [(dr, vs)] False n = Inr (ss, n') \<and> map js_v ss = vs \<and>
    (\<forall>k<length vs. dr_factor dr * (js_ts (ss ! k) - start) = 1000 * int k - (1000 mod dr_factor dr) * int k)"
proof -
  let ?f = "dr_factor dr"
  define ss where "ss = number_samples n (map (\<lambda>(k, v). (start + (1000 div ?f) * int k, v)) (enumerate 0 vs))"
  obtain n' where "record_samples start ?f (int 0) vs n = Inr (ss, n')"
    using record_samples_ok [OF assms(4) _ assms(3), of 0 vs n] assms(5) by (auto simp: ss_def)
  then have m: "map_samples parse [(dr, vs)] n = Inr (ss, n')" using assms(1,2) by simp
  have len: "length ss = length vs" by (simp add: ss_def)
  have at: "js_ts (ss ! k) = start + (1000 div ?f) * int k" "js_v (ss ! k) = vs ! k" if "k < length vs" for k
    using that nth_number_samples [of k "map (\<lambda>(k, v). (start + (1000 div ?f) * int k, v)) (enumerate 0 vs)" n]
    by (simp_all add: ss_def nth_enumerate_eq)
  have "0 \<le> 1000 div ?f" using assms(4) by (simp add: pos_imp_zdiv_nonneg_iff)
  then have "sorted (map js_ts ss)" by (auto simp: sorted_iff_nth_mono len at intro: mult_left_mono)
  then have "sort_key js_ts ss = ss" by (rule sort_key_id_if_sorted)
  moreover have "map js_v ss = vs" by (rule nth_equalityI) (simp_all add: len at)
  moreover have "?f * ((1000 div ?f) * int k) = 1000 * int k - (1000 mod ?f) * int k" for k
    by (metis left_diff_distrib minus_mod_eq_mult_div mult.assoc)
  ultimately show ?thesis using m at by (simp add: transformToOrderedSampleList_def)
qed

definition demo_record :: data_record where
  "demo_record = \<lparr>dr_start = ''2013,038,01:22:05.0000'', dr_num = 3, dr_factor = 300, dr_rate = Fin 300, dr_data = None\<rparr>"

theorem record_times_run_slow_witness:
  "\<exists>ss n'. transformToOrderedSampleList (\<lambda>d. Some 1360200125000) [(demo_record, [Fin 1, Fin 2, Fin 3])] False 0 = Inr (ss, n') \<and>
    map js_v ss = [Fin 1, Fin 2, Fin 3] \<and>
    (\<forall>k<length [Fin 1, Fin 2, Fin 3]. dr_factor demo_record * (js_ts (ss ! k) - 1360200125000) = 1000 * int k - (1000 mod dr_factor demo_record) * int k)"
  by (rule record_times_run_slow) (simp_all add: demo_record_def)

end
