(* ===== verification/Wep.thy ===== *)
theory Wep
  imports Mia_Prelude "HOL-Library.Multiset"
begin

text \<open>
  The WEP encryption of the radio driver (\<^verbatim>\<open>rt2501/sources/Module/rtmp_wep.c\<close>): the stream cipher ARCFOUR, the checksum
  over a table, and the functions that encrypt and decrypt a frame; with \<^verbatim>\<open>RandomByte\<close> of \<^verbatim>\<open>mlme.c\<close>, which makes
  the initialisation vector.  \<^verbatim>\<open>ULONG\<close> and \<^verbatim>\<open>UINT\<close> have 32 bits.
\<close>

section \<open>The checksum\<close>

definition FCSTAB_32 :: "u32 list" where
  "FCSTAB_32 =
    [0, 0x77073096, 0xee0e612c, 0x990951ba, 0x76dc419, 0x706af48f, 0xe963a535, 0x9e6495a3,
     0xedb8832, 0x79dcb8a4, 0xe0d5e91e, 0x97d2d988, 0x9b64c2b, 0x7eb17cbd, 0xe7b82d07, 0x90bf1d91,
     0x1db71064, 0x6ab020f2, 0xf3b97148, 0x84be41de, 0x1adad47d, 0x6ddde4eb, 0xf4d4b551, 0x83d385c7,
     0x136c9856, 0x646ba8c0, 0xfd62f97a, 0x8a65c9ec, 0x14015c4f, 0x63066cd9, 0xfa0f3d63, 0x8d080df5,
     0x3b6e20c8, 0x4c69105e, 0xd56041e4, 0xa2677172, 0x3c03e4d1, 0x4b04d447, 0xd20d85fd, 0xa50ab56b,
     0x35b5a8fa, 0x42b2986c, 0xdbbbc9d6, 0xacbcf940, 0x32d86ce3, 0x45df5c75, 0xdcd60dcf, 0xabd13d59,
     0x26d930ac, 0x51de003a, 0xc8d75180, 0xbfd06116, 0x21b4f4b5, 0x56b3c423, 0xcfba9599, 0xb8bda50f,
     0x2802b89e, 0x5f058808, 0xc60cd9b2, 0xb10be924, 0x2f6f7c87, 0x58684c11, 0xc1611dab, 0xb6662d3d,
     0x76dc4190, 0x1db7106, 0x98d220bc, 0xefd5102a, 0x71b18589, 0x6b6b51f, 0x9fbfe4a5, 0xe8b8d433,
     0x7807c9a2, 0xf00f934, 0x9609a88e, 0xe10e9818, 0x7f6a0dbb, 0x86d3d2d, 0x91646c97, 0xe6635c01,
     0x6b6b51f4, 0x1c6c6162, 0x856530d8, 0xf262004e, 0x6c0695ed, 0x1b01a57b, 0x8208f4c1, 0xf50fc457,
     0x65b0d9c6, 0x12b7e950, 0x8bbeb8ea, 0xfcb9887c, 0x62dd1ddf, 0x15da2d49, 0x8cd37cf3, 0xfbd44c65,
     0x4db26158, 0x3ab551ce, 0xa3bc0074, 0xd4bb30e2, 0x4adfa541, 0x3dd895d7, 0xa4d1c46d, 0xd3d6f4fb,
     0x4369e96a, 0x346ed9fc, 0xad678846, 0xda60b8d0, 0x44042d73, 0x33031de5, 0xaa0a4c5f, 0xdd0d7cc9,
     0x5005713c, 0x270241aa, 0xbe0b1010, 0xc90c2086, 0x5768b525, 0x206f85b3, 0xb966d409, 0xce61e49f,
     0x5edef90e, 0x29d9c998, 0xb0d09822, 0xc7d7a8b4, 0x59b33d17, 0x2eb40d81, 0xb7bd5c3b, 0xc0ba6cad,
     0xedb88320, 0x9abfb3b6, 0x3b6e20c, 0x74b1d29a, 0xead54739, 0x9dd277af, 0x4db2615, 0x73dc1683,
     0xe3630b12, 0x94643b84, 0xd6d6a3e, 0x7a6a5aa8, 0xe40ecf0b, 0x9309ff9d, 0xa00ae27, 0x7d079eb1,
     0xf00f9344, 0x8708a3d2, 0x1e01f268, 0x6906c2fe, 0xf762575d, 0x806567cb, 0x196c3671, 0x6e6b06e7,
     0xfed41b76, 0x89d32be0, 0x10da7a5a, 0x67dd4acc, 0xf9b9df6f, 0x8ebeeff9, 0x17b7be43, 0x60b08ed5,
     0xd6d6a3e8, 0xa1d1937e, 0x38d8c2c4, 0x4fdff252, 0xd1bb67f1, 0xa6bc5767, 0x3fb506dd, 0x48b2364b,
     0xd80d2bda, 0xaf0a1b4c, 0x36034af6, 0x41047a60, 0xdf60efc3, 0xa867df55, 0x316e8eef, 0x4669be79,
     0xcb61b38c, 0xbc66831a, 0x256fd2a0, 0x5268e236, 0xcc0c7795, 0xbb0b4703, 0x220216b9, 0x5505262f,
     0xc5ba3bbe, 0xb2bd0b28, 0x2bb45a92, 0x5cb36a04, 0xc2d7ffa7, 0xb5d0cf31, 0x2cd99e8b, 0x5bdeae1d,
     0x9b64c2b0, 0xec63f226, 0x756aa39c, 0x26d930a, 0x9c0906a9, 0xeb0e363f, 0x72076785, 0x5005713,
     0x95bf4a82, 0xe2b87a14, 0x7bb12bae, 0xcb61b38, 0x92d28e9b, 0xe5d5be0d, 0x7cdcefb7, 0xbdbdf21,
     0x86d3d2d4, 0xf1d4e242, 0x68ddb3f8, 0x1fda836e, 0x81be16cd, 0xf6b9265b, 0x6fb077e1, 0x18b74777,
     0x88085ae6, 0xff0f6a70, 0x66063bca, 0x11010b5c, 0x8f659eff, 0xf862ae69, 0x616bffd3, 0x166ccf45,
     0xa00ae278, 0xd70dd2ee, 0x4e048354, 0x3903b3c2, 0xa7672661, 0xd06016f7, 0x4969474d, 0x3e6e77db,
     0xaed16a4a, 0xd9d65adc, 0x40df0b66, 0x37d83bf0, 0xa9bcae53, 0xdebb9ec5, 0x47b2cf7f, 0x30b5ffe9,
     0xbdbdf21c, 0xcabac28a, 0x53b39330, 0x24b4a3a6, 0xbad03605, 0xcdd70693, 0x54de5729, 0x23d967bf,
     0xb3667a2e, 0xc4614ab8, 0x5d681b02, 0x2a6f2b94, 0xb40bbe37, 0xc30c8ea1, 0x5a05df1b, 0x2d02ef8d]"

definition fcs_byte :: "u32 \<Rightarrow> u8 \<Rightarrow> u32" where
  "fcs_byte Fcs b = drop_bit 8 Fcs XOR (FCSTAB_32 ! unat ((Fcs XOR ucast b) AND 0xff))"

definition RTMP_CALC_FCS32 :: "u32 \<Rightarrow> u8 list \<Rightarrow> u32" where
  "RTMP_CALC_FCS32 Fcs bs = foldl fcs_byte Fcs bs"

section \<open>ARCFOUR\<close>

record arcfour =
  arc_X :: u32
  arc_Y :: u32
  arc_STATE :: "u8 list"

text \<open>One round of the key schedule on the state, \<^verbatim>\<open>stateindex\<close> and \<^verbatim>\<open>keyindex\<close>.\<close>

definition arc_swap :: "nat \<Rightarrow> nat \<Rightarrow> u8 list \<Rightarrow> u8 list" where
  "arc_swap i j st = st[j := st ! i, i := st ! j]"

definition arc_schedule :: "u8 list \<Rightarrow> nat \<Rightarrow> nat \<Rightarrow> u8 list \<times> u32 \<times> nat \<Rightarrow> u8 list \<times> u32 \<times> nat" where
  "arc_schedule key len counter s = (case s of (st, stateindex, keyindex) \<Rightarrow>
     let stateindex = (stateindex + ucast (key ! keyindex) + ucast (st ! counter)) AND 0xff
     in (arc_swap counter (unat stateindex) st, stateindex, if keyindex + 1 \<ge> len then 0 else keyindex + 1))"

definition ARCFOUR_INIT :: "u8 list \<Rightarrow> nat \<Rightarrow> arcfour" where
  "ARCFOUR_INIT key len = \<lparr>arc_X = 0, arc_Y = 0,
     arc_STATE = fst (fold (arc_schedule key len) [0..<256] (map of_nat [0..<256], 0, 0))\<rparr>"

definition ARCFOUR_BYTE :: "arcfour \<Rightarrow> u8 \<times> arcfour" where
  "ARCFOUR_BYTE c = (
     let x = (arc_X c + 1) AND 0xff; sx = arc_STATE c ! unat x;
         y = (ucast sx + arc_Y c) AND 0xff; sy = arc_STATE c ! unat y;
         st = (arc_STATE c)[unat y := sx, unat x := sy]
     in (st ! unat ((ucast sx + ucast sy :: u32) AND 0xff), \<lparr>arc_X = x, arc_Y = y, arc_STATE = st\<rparr>))"

text \<open>Encryption from one buffer to another.\<close>

primrec ARCFOUR_ENCRYPT :: "arcfour \<Rightarrow> u8 list \<Rightarrow> u8 list \<times> arcfour" where
  "ARCFOUR_ENCRYPT c [] = ([], c)"
| "ARCFOUR_ENCRYPT c (b # bs) = (let (k, c) = ARCFOUR_BYTE c; (es, c) = ARCFOUR_ENCRYPT c bs in ((b XOR k) # es, c))"

text \<open>Decryption inside one buffer, from the offset \<^verbatim>\<open>src\<close> to the offset \<^verbatim>\<open>dst\<close>.\<close>

primrec ARCFOUR_DECRYPT :: "nat \<Rightarrow> nat \<Rightarrow> nat \<Rightarrow> arcfour \<Rightarrow> u8 list \<Rightarrow> u8 list \<times> arcfour" where
  "ARCFOUR_DECRYPT 0 dst src c m = (m, c)"
| "ARCFOUR_DECRYPT (Suc n) dst src c m = (let (k, c) = ARCFOUR_BYTE c in ARCFOUR_DECRYPT n (Suc dst) (Suc src) c (m[dst := (m ! src) XOR k]))"

section \<open>RandomByte\<close>

text \<open>The shift register is set to the clock of the system at every call.\<close>

definition lfsr_step :: "u32 \<times> u8 \<Rightarrow> u32 \<times> u8" where
  "lfsr_step s = (case s of (reg, R) \<Rightarrow>
     if reg AND 1 \<noteq> 0 then (drop_bit 1 (reg XOR 0x80000057) OR 0x80000000, push_bit 1 R OR 1)
     else (drop_bit 1 reg, push_bit 1 R))"

definition RandomByte :: "u32 \<Rightarrow> u8 \<times> u32" where
  "RandomByte jiffies = (case (lfsr_step ^^ 8) (jiffies, 0) of (ShiftReg, R) \<Rightarrow> (R, ShiftReg))"

section \<open>Frames\<close>

text \<open>The fields of the adapter the functions use, with the global \<^verbatim>\<open>WEPKEY\<close> of 16 bytes; a shared key is its length and its 16 bytes.\<close>

record wep =
  ShiftReg :: u32
  FCSCRC32 :: u32
  WEPCONTEXT :: arcfour
  WEPKEY :: "u8 list"
  SharedKey :: "(nat \<times> u8 list) list"

text \<open>\<^verbatim>\<open>NdisMoveMemory(WEPKEY + 3, key, len)\<close>, and the vector in front; \<^verbatim>\<open>None\<close> is a key that does not fit.\<close>

definition set_wepkey :: "u8 list \<Rightarrow> u8 list \<Rightarrow> nat \<Rightarrow> wep \<Rightarrow> wep option" where
  "set_wepkey iv key len w = (if 3 + len \<le> 16 \<and> len \<le> length key
     then Some (w\<lparr>WEPKEY := iv @ take len key @ drop (3 + len) (WEPKEY w)\<rparr>) else None)"

definition wep_iv :: "u32 \<Rightarrow> u32 \<Rightarrow> u32 \<Rightarrow> u8 list" where
  "wep_iv t0 t1 t2 = [fst (RandomByte t0), fst (RandomByte t1), fst (RandomByte t2)]"

text \<open>The clock at the three calls of \<^verbatim>\<open>RandomByte\<close> is \<^verbatim>\<open>t0\<close>, \<^verbatim>\<open>t1\<close> and \<^verbatim>\<open>t2\<close>; the second result are the four bytes stored at \<^verbatim>\<open>pDest\<close>.\<close>

definition RTMPInitWepEngine :: "u32 \<Rightarrow> u32 \<Rightarrow> u32 \<Rightarrow> u8 list \<Rightarrow> u8 \<Rightarrow> nat \<Rightarrow> wep \<Rightarrow> (wep \<times> u8 list) option" where
  "RTMPInitWepEngine t0 t1 t2 pKey KeyId KeyLen w = do {
     let iv = wep_iv t0 t1 t2;
     w \<leftarrow> set_wepkey iv pKey KeyLen (w\<lparr>FCSCRC32 := 0xffffffff, ShiftReg := snd (RandomByte t2)\<rparr>);
     let w = w\<lparr>WEPCONTEXT := ARCFOUR_INIT (WEPKEY w) (KeyLen + 3)\<rparr>;
     Some (w, iv @ [push_bit 6 KeyId])
   }"

definition RTMPEncryptData :: "u8 list \<Rightarrow> wep \<Rightarrow> u8 list \<times> wep" where
  "RTMPEncryptData pSrc w = (let (es, c) = ARCFOUR_ENCRYPT (WEPCONTEXT w) pSrc
     in (es, w\<lparr>FCSCRC32 := RTMP_CALC_FCS32 (FCSCRC32 w) pSrc, WEPCONTEXT := c\<rparr>))"

definition RTMPSetICV :: "wep \<Rightarrow> u8 list \<times> wep" where
  "RTMPSetICV w = (let fcs = FCSCRC32 w XOR 0xffffffff; (es, c) = ARCFOUR_ENCRYPT (WEPCONTEXT w) (word_bytes 4 fcs)
     in (es, w\<lparr>FCSCRC32 := fcs, WEPCONTEXT := c\<rparr>))"

text \<open>\<^verbatim>\<open>m\<close> is the buffer at \<^verbatim>\<open>pSrc\<close>; \<^verbatim>\<open>None\<close> is an access outside of it.\<close>

definition RTMPDecryptData :: "u8 list \<Rightarrow> nat \<Rightarrow> wep \<Rightarrow> (bool \<times> u8 list \<times> wep) option" where
  "RTMPDecryptData m Len w = (if Len < 8 \<or> length m < Len then None
     else let KeyIdx = unat (drop_bit 6 ((m ! 3) AND 0xc0)); (KeyLen, Key) = SharedKey w ! KeyIdx in
       if KeyLen = 0 then Some (False, m, w\<lparr>WEPKEY := take 3 m @ drop 3 (WEPKEY w)\<rparr>)
       else do {
         w \<leftarrow> set_wepkey (take 3 m) Key KeyLen w;
         let (m, c) = ARCFOUR_DECRYPT (Len - 4) 0 4 (ARCFOUR_INIT (WEPKEY w) (KeyLen + 3)) m;
         let crc32 = RTMP_CALC_FCS32 0xffffffff (take (Len - 8) m) XOR 0xffffffff;
         Some (crc32 = bytes_word (take 4 (drop (Len - 8) m)), m, w\<lparr>WEPCONTEXT := c\<rparr>)
       })"

text \<open>The encryption of data that lie in several buffers, as the authentication has them.\<close>

primrec encrypt_pieces :: "u8 list list \<Rightarrow> wep \<Rightarrow> u8 list \<times> wep" where
  "encrypt_pieces [] w = ([], w)"
| "encrypt_pieces (p # ps) w = (let (e, w) = RTMPEncryptData p w; (es, w) = encrypt_pieces ps w in (e @ es, w))"

definition wep_frame :: "u32 \<Rightarrow> u32 \<Rightarrow> u32 \<Rightarrow> u8 list \<Rightarrow> u8 \<Rightarrow> nat \<Rightarrow> u8 list list \<Rightarrow> wep \<Rightarrow> (u8 list \<times> wep) option" where
  "wep_frame t0 t1 t2 pKey KeyId KeyLen pieces w = do {
     (w, hd) \<leftarrow> RTMPInitWepEngine t0 t1 t2 pKey KeyId KeyLen w;
     let (es, w) = encrypt_pieces pieces w;
     let (icv, w) = RTMPSetICV w;
     Some (hd @ es @ icv, w)
   }"

text \<open>The encrypted body of the third authentication frame, which answers the challenge; \<^verbatim>\<open>Seq\<close> is already increased.\<close>

definition auth_seq3_body :: "u32 \<Rightarrow> u32 \<Rightarrow> u32 \<Rightarrow> u8 \<Rightarrow> u16 \<Rightarrow> u16 \<Rightarrow> u8 list \<Rightarrow> wep \<Rightarrow> (u8 list \<times> wep) option" where
  "auth_seq3_body t0 t1 t2 DefaultKeyId Alg Seq ChlgText w = (case SharedKey w ! unat DefaultKeyId of (KeyLen, Key) \<Rightarrow>
     wep_frame t0 t1 t2 Key DefaultKeyId KeyLen [word_bytes 2 Alg, word_bytes 2 Seq, word_bytes 2 (0 :: u16), [16, 128], ChlgText] w)"

section \<open>The table is that of the CRC-32\<close>

text \<open>The reflected polynomial, one bit at a time.\<close>

definition crc_bit :: "u32 \<Rightarrow> u32" where
  "crc_bit c = (if bit c 0 then drop_bit 1 c XOR 0xedb88320 else drop_bit 1 c)"

definition crc_byte :: "u32 \<Rightarrow> u32" where
  "crc_byte c = (crc_bit ^^ 8) c"

lemma crc_byte_unfold: "crc_byte c = crc_bit (crc_bit (crc_bit (crc_bit (crc_bit (crc_bit (crc_bit (crc_bit c)))))))"
  by (simp add: crc_byte_def numeral_eq_Suc)

lemmas crc_ground =
  crc_byte_unfold [of "numeral n" for n] crc_byte_unfold [of 0] crc_byte_unfold [of 1]
  crc_bit_def [of "numeral n" for n] crc_bit_def [of 0] crc_bit_def [of 1]

lemma upt_256: "[0..<256] = 0 # 1 # [2..<256]"
  by (simp add: upt_conv_Cons numeral_2_eq_2)

lemma FCSTAB_32_bits: "FCSTAB_32 = map (\<lambda>i. crc_byte (of_nat i)) [0..<256]"
  unfolding upt_256 by (simp add: upt_rec_numeral FCSTAB_32_def crc_ground)

lemma crc_bit_xor: "crc_bit (a XOR b) = crc_bit a XOR crc_bit b"
  by (rule bit_word_eqI) (auto simp: crc_bit_def bit_simps)

lemma crc_byte_xor: "crc_byte (a XOR b) = crc_byte a XOR crc_byte b"
  by (simp add: crc_byte_unfold crc_bit_xor)

lemma crc_bit_drop: "\<not> bit c 0 \<Longrightarrow> crc_bit c = drop_bit 1 c"
  by (simp add: crc_bit_def)

lemma crc_byte_high: "crc_byte (push_bit 8 c) = drop_bit 8 (push_bit 8 c)"
proof -
  have "crc_bit (drop_bit n (push_bit 8 c)) = drop_bit (Suc n) (push_bit 8 c)" if "n < 8" for n
    using that by (simp add: crc_bit_drop bit_simps drop_bit_drop_bit)
  from this [of 0] this [of 1] this [of 2] this [of 3] this [of 4] this [of 5] this [of 6] this [of 7]
  show ?thesis by (simp add: crc_byte_unfold numeral_eq_Suc)
qed

lemma and_255: "(c :: 'a::len word) AND 255 = take_bit 8 c"
  by (simp add: take_bit_eq_mask mask_numeral)

lemma unat_and_255: "unat ((c :: 'a::len word) AND 255) < 256"
  using take_bit_nat_less_exp [of 8 "unat c"] by (simp add: and_255 unsigned_take_bit_eq)

lemma word_split_byte: "(c :: u32) = push_bit 8 (drop_bit 8 c) XOR take_bit 8 c"
  by (rule bit_word_eqI) (auto simp: bit_simps)

lemma nth_FCSTAB_32: "FCSTAB_32 ! unat (c AND 255) = crc_byte (take_bit 8 c)"
  using unat_and_255 [of c] by (simp add: FCSTAB_32_bits and_255)

lemma fcs_byte_bits: "fcs_byte c b = crc_byte (c XOR ucast b)"
proof -
  let ?z = "c XOR ucast b"
  have h: "drop_bit 8 (push_bit 8 (drop_bit 8 ?z)) = drop_bit 8 c"
    by (rule bit_word_eqI) (auto simp: bit_simps dest: bit_imp_le_length)
  have "crc_byte ?z = crc_byte (push_bit 8 (drop_bit 8 ?z)) XOR crc_byte (take_bit 8 ?z)"
    by (subst word_split_byte) (rule crc_byte_xor)
  also have "crc_byte (push_bit 8 (drop_bit 8 ?z)) = drop_bit 8 c" unfolding crc_byte_high by (rule h)
  finally show ?thesis unfolding fcs_byte_def nth_FCSTAB_32 by (rule sym)
qed

text \<open>C21: the checksum over the table is the CRC-32 taken one bit at a time, with the reflected polynomial 0xedb88320: a byte is
  added to the low end of the register, which is shifted eight times.\<close>

theorem table_checksum_is_crc32:
  "RTMP_CALC_FCS32 Fcs bs = foldl (\<lambda>c b. (crc_bit ^^ 8) (c XOR ucast b)) Fcs bs"
proof -
  have "fcs_byte = (\<lambda>c b. (crc_bit ^^ 8) (c XOR ucast b))" by (intro ext) (simp add: fcs_byte_bits crc_byte_def)
  then show ?thesis by (simp add: RTMP_CALC_FCS32_def)
qed

section \<open>The cipher\<close>

definition arc_ok :: "arcfour \<Rightarrow> bool" where
  "arc_ok c \<longleftrightarrow> mset (arc_STATE c) = mset (map of_nat [0..<256]) \<and> unat (arc_X c) < 256 \<and> unat (arc_Y c) < 256"

lemma arc_ok_length: "arc_ok c \<Longrightarrow> length (arc_STATE c) = 256"
  unfolding arc_ok_def by (metis diff_zero length_map length_upt size_mset)

lemma mset_arc_swap: "i < length st \<Longrightarrow> j < length st \<Longrightarrow> mset (arc_swap i j st) = mset st"
  using mset_swap [of i st j] by (simp add: arc_swap_def)

lemma arc_schedule_mset:
  "counter < length st \<Longrightarrow> length st = 256 \<Longrightarrow> mset (fst (arc_schedule key len counter (st, s))) = mset st"
  by (cases s) (simp add: arc_schedule_def Let_def mset_arc_swap unat_and_255)

lemma arc_schedule_fold_mset:
  "\<forall>i \<in> set is. i < 256 \<Longrightarrow> length st = 256 \<Longrightarrow> mset (fst (fold (arc_schedule key len) is (st, s))) = mset st"
proof (induction "is" arbitrary: st s)
  case (Cons i "is")
  obtain st' s' where e: "arc_schedule key len i (st, s) = (st', s')" by (cases "arc_schedule key len i (st, s)")
  with arc_schedule_mset [of i st key len s] Cons.prems have "mset st' = mset st" by simp
  moreover from this Cons.prems have "length st' = 256" by (metis size_mset)
  ultimately show ?case using Cons.IH [of st' s'] Cons.prems e by simp
qed simp

lemma arc_ok_INIT: "arc_ok (ARCFOUR_INIT key len)"
  by (simp add: arc_ok_def ARCFOUR_INIT_def arc_schedule_fold_mset del: mset_map)

lemma arc_ok_BYTE: "arc_ok c \<Longrightarrow> arc_ok (snd (ARCFOUR_BYTE c))"
  using arc_ok_length [of c]
  by (simp add: ARCFOUR_BYTE_def Let_def arc_ok_def mset_swap unat_and_255 del: mset_map)

lemma arc_ok_ENCRYPT: "arc_ok c \<Longrightarrow> arc_ok (snd (ARCFOUR_ENCRYPT c bs))"
  by (induction bs arbitrary: c) (auto simp: Let_def split_beta arc_ok_BYTE)

text \<open>Whatever the key and the bytes encrypted so far, the 256 cells of the cipher's state hold each byte once and the two
  indexes are below 256, so that no access of the state is out of its bounds.\<close>

theorem cipher_state_is_a_permutation:
  "let c = snd (ARCFOUR_ENCRYPT (ARCFOUR_INIT key len) bs) in
     length (arc_STATE c) = 256 \<and> distinct (arc_STATE c) \<and> set (arc_STATE c) = UNIV \<and> unat (arc_X c) < 256 \<and> unat (arc_Y c) < 256"
proof -
  define c where "c = snd (ARCFOUR_ENCRYPT (ARCFOUR_INIT key len) bs)"
  have ok: "arc_ok c" unfolding c_def by (intro arc_ok_ENCRYPT arc_ok_INIT)
  have len: "length (arc_STATE c) = 256" using ok by (rule arc_ok_length)
  have "distinct (map of_nat [0..<256] :: u8 list)"
    by (simp add: distinct_map inj_on_def word_of_nat_eq_iff take_bit_nat_eq_self)
  with ok have d: "distinct (arc_STATE c)" unfolding arc_ok_def by (metis mset_eq_imp_distinct_iff)
  then have "card (set (arc_STATE c)) = CARD(u8)" using len by (simp add: distinct_card card_word)
  then have "set (arc_STATE c) = UNIV" by (intro card_subset_eq) auto
  with ok d len show ?thesis unfolding c_def [symmetric] Let_def by (simp add: arc_ok_def)
qed

lemma ARCFOUR_ENCRYPT_append:
  "ARCFOUR_ENCRYPT c (a @ b) = (let (x, c) = ARCFOUR_ENCRYPT c a; (y, c) = ARCFOUR_ENCRYPT c b in (x @ y, c))"
  by (induction a arbitrary: c) (simp_all add: Let_def split_beta)

lemma length_ARCFOUR_ENCRYPT [simp]: "length (fst (ARCFOUR_ENCRYPT c bs)) = length bs"
  by (induction bs arbitrary: c) (simp_all add: Let_def split_beta)

lemma ARCFOUR_ENCRYPT_twice: "ARCFOUR_ENCRYPT c (fst (ARCFOUR_ENCRYPT c bs)) = (bs, snd (ARCFOUR_ENCRYPT c bs))"
  by (induction bs arbitrary: c) (simp_all add: Let_def split_beta xor.assoc)

text \<open>The decryption inside one buffer reads four bytes ahead of where it writes.\<close>

lemma ARCFOUR_DECRYPT_moves:
  assumes "src + n \<le> length m" "dst < src"
  shows "ARCFOUR_DECRYPT n dst src c m = (let (x, c) = ARCFOUR_ENCRYPT c (take n (drop src m)) in (take dst m @ x @ drop (dst + n) m, c))"
  using assms
proof (induction n arbitrary: dst src c m)
  case (Suc n)
  let ?b = "(m ! src) XOR fst (ARCFOUR_BYTE c)"
  have d: "take (Suc n) (drop src m) = (m ! src) # take n (drop (Suc src) m)"
    using Suc.prems by (simp add: Cons_nth_drop_Suc [symmetric])
  have t: "take (Suc dst) (m[dst := ?b]) = take dst m @ [?b]" "drop (Suc src) (m[dst := ?b]) = drop (Suc src) m"
    "drop (Suc dst + n) (m[dst := ?b]) = drop (Suc (dst + n)) m"
    using Suc.prems by (simp_all add: take_Suc_conv_app_nth)
  show ?case using Suc.prems Suc.IH [of "Suc src" "m[dst := ?b]" "Suc dst"] t
    by (simp add: d Let_def split_beta)
qed simp

section \<open>Initialisation vectors\<close>

lemma lfsr_step_low:
  assumes "take_bit (Suc n) a = take_bit (Suc n) b"
  shows "snd (lfsr_step (a, R)) = snd (lfsr_step (b, R)) \<and> take_bit n (fst (lfsr_step (a, R))) = take_bit n (fst (lfsr_step (b, R)))"
proof -
  have bits: "bit a k = bit b k" if "k < Suc n" for k using assms that by (metis bit_take_bit_iff)
  have o: "(a AND 1 \<noteq> 0) = (b AND 1 \<noteq> 0)" using bits [of 0] by (simp add: and_one_eq bit_0 mod_2_eq_odd)
  have "take_bit n (drop_bit 1 (a XOR m) OR k) = take_bit n (drop_bit 1 (b XOR m) OR k)"
    "take_bit n (drop_bit 1 a) = take_bit n (drop_bit 1 b)" for m k
    by (auto intro!: bit_word_eqI simp: bit_simps bits)
  with o show ?thesis by (simp add: lfsr_step_def)
qed

lemma lfsr_steps_low:
  "take_bit n a = take_bit n b \<Longrightarrow> snd ((lfsr_step ^^ n) (a, R)) = snd ((lfsr_step ^^ n) (b, R))"
proof (induction n arbitrary: a b R)
  case (Suc n)
  obtain a' Ra where a: "lfsr_step (a, R) = (a', Ra)" by (cases "lfsr_step (a, R)")
  obtain b' Rb where b: "lfsr_step (b, R) = (b', Rb)" by (cases "lfsr_step (b, R)")
  show ?case using lfsr_step_low [OF Suc.prems, of R] Suc.IH [of a' b' Ra] a b
    by (simp add: funpow_swap1 [of lfsr_step] funpow_Suc_right del: funpow.simps)
qed simp

lemma RandomByte_low: "fst (RandomByte (take_bit 8 t)) = fst (RandomByte t)"
  using lfsr_steps_low [of 8 "take_bit 8 t" t 0] by (simp add: RandomByte_def split_beta)

lemma set_wepkey_Some:
  "len \<le> 13 \<Longrightarrow> length key = 16 \<Longrightarrow> set_wepkey iv key len w = Some (w\<lparr>WEPKEY := iv @ take len key @ drop (3 + len) (WEPKEY w)\<rparr>)"
  by (simp add: set_wepkey_def)

text \<open>C31: the register of the random bytes is loaded from the clock at each call, so the three bytes of an initialisation vector made
  within one tick are equal, and given by the low byte of the clock: of the 2^24 vectors only 256 appear.\<close>

theorem iv_is_one_byte_of_the_clock:
  assumes "KeyLen \<le> 13" "length pKey = 16"
  shows "\<exists>w'. RTMPInitWepEngine t t t pKey KeyId KeyLen w
    = Some (w', replicate 3 (fst (RandomByte (take_bit 8 t))) @ [push_bit 6 KeyId])"
  using assms by (simp add: RTMPInitWepEngine_def set_wepkey_Some wep_iv_def RandomByte_low Let_def numeral_3_eq_3)

definition demo_wep :: wep where
  "demo_wep = \<lparr>ShiftReg = 1, FCSCRC32 = 0, WEPCONTEXT = \<lparr>arc_X = 0, arc_Y = 0, arc_STATE = replicate 256 0\<rparr>,
     WEPKEY = replicate 16 0, SharedKey = [(0, replicate 16 0), (5, replicate 16 7), (0, replicate 16 0), (0, replicate 16 0)]\<rparr>"

theorem iv_is_one_byte_of_the_clock_witness:
  "\<exists>w'. RTMPInitWepEngine 0x1234 0x1234 0x1234 (replicate 16 7) 1 5 demo_wep
    = Some (w', replicate 3 (fst (RandomByte (take_bit 8 0x1234))) @ [push_bit 6 1])"
  by (rule iv_is_one_byte_of_the_clock) simp_all

section \<open>Round trip of a frame\<close>

lemma arc_schedule_key:
  assumes "take len key = take len key'" "len \<le> length key" "len \<le> length key'" "snd (snd s) < len"
  shows "arc_schedule key len i s = arc_schedule key' len i s \<and> snd (snd (arc_schedule key len i s)) < len"
proof -
  obtain st si ki where s: "s = (st, si, ki)" by (cases s)
  then have "key ! ki = key' ! ki" using assms by (metis nth_take snd_conv)
  then show ?thesis using assms by (simp add: s arc_schedule_def Let_def) 
qed

lemma ARCFOUR_INIT_key:
  assumes "take len key = take len key'" "len \<le> length key" "len \<le> length key'" "0 < len"
  shows "ARCFOUR_INIT key len = ARCFOUR_INIT key' len"
proof -
  have "fold (arc_schedule key len) is s = fold (arc_schedule key' len) is s" if "snd (snd s) < len" for "is" s
    using that
  proof (induction "is" arbitrary: s)
    case (Cons i "is")
    have "arc_schedule key len i s = arc_schedule key' len i s" "snd (snd (arc_schedule key' len i s)) < len"
      using arc_schedule_key [OF assms(1-3) Cons.prems, of i] by auto
    with Cons.IH show ?case by simp
  qed simp
  then show ?thesis using assms(4) by (simp add: ARCFOUR_INIT_def)
qed

lemma encrypt_pieces_eq:
  "encrypt_pieces ps w = (let (es, c) = ARCFOUR_ENCRYPT (WEPCONTEXT w) (concat ps)
     in (es, w\<lparr>FCSCRC32 := RTMP_CALC_FCS32 (FCSCRC32 w) (concat ps), WEPCONTEXT := c\<rparr>))"
  by (induction ps arbitrary: w) (simp_all add: RTMPEncryptData_def RTMP_CALC_FCS32_def ARCFOUR_ENCRYPT_append Let_def split_beta)

text \<open>The frame is the header and one run of the cipher over the data and its checksum.\<close>

lemma wep_frame_eq:
  assumes "KeyLen \<le> 13" "length pKey = 16"
  shows "\<exists>w'. wep_frame t0 t1 t2 pKey KeyId KeyLen ps w = Some (wep_iv t0 t1 t2 @ [push_bit 6 KeyId]
    @ fst (ARCFOUR_ENCRYPT (ARCFOUR_INIT (wep_iv t0 t1 t2 @ take KeyLen pKey @ drop (3 + KeyLen) (WEPKEY w)) (KeyLen + 3))
        (concat ps @ word_bytes 4 (RTMP_CALC_FCS32 0xffffffff (concat ps) XOR 0xffffffff))), w')"
  using assms by (simp add: wep_frame_def RTMPInitWepEngine_def set_wepkey_Some encrypt_pieces_eq RTMPSetICV_def
      ARCFOUR_ENCRYPT_append Let_def split_beta del: word_bytes_numeral)

lemma key_id_bits: "(k :: u8) < 4 \<Longrightarrow> drop_bit 6 (push_bit 6 k) AND 3 = k"
proof -
  assume "k < 4"
  then have "k = 0 \<or> k = 1 \<or> k = 2 \<or> k = 3" by unat_arith
  then show ?thesis by auto
qed

lemma RTMPDecryptData_accepts:
  assumes "SharedKey r ! unat KeyId = (KeyLen, Key)" "KeyId < 4" "0 < KeyLen" "KeyLen \<le> 13" "length Key = 16"
    and m: "m ! 3 = push_bit 6 KeyId" "take 3 m = iv" "8 + length data \<le> length m"
    and dec: "ARCFOUR_DECRYPT (4 + length data) 0 4 (ARCFOUR_INIT (iv @ take KeyLen Key @ drop (3 + KeyLen) (WEPKEY r)) (KeyLen + 3)) m
      = ((data @ word_bytes 4 (RTMP_CALC_FCS32 0xffffffff data XOR 0xffffffff)) @ ts, c')"
  shows "\<exists>m' r'. RTMPDecryptData m (8 + length data) r = Some (True, m', r') \<and> take (length data) m' = data"
proof -
  have "8 + length data - 4 = 4 + length data" by simp
  with assms show ?thesis
    by (simp add: RTMPDecryptData_def key_id_bits set_wepkey_Some bytes_word_word_bytes del: word_bytes_numeral)
qed

lemma decrypt_of_frame:
  fixes data :: "u8 list"
  assumes "SharedKey r ! unat KeyId = (KeyLen, Key)" "KeyId < 4" "0 < KeyLen" "KeyLen \<le> 13" "length Key = 16" "length iv = 3"
    "length (WEPKEY r) = 16"
    and es: "es = fst (ARCFOUR_ENCRYPT (ARCFOUR_INIT (iv @ take KeyLen Key @ ks) (KeyLen + 3))
       (data @ word_bytes 4 (RTMP_CALC_FCS32 0xffffffff data XOR 0xffffffff)))"
  shows "\<exists>m r'. RTMPDecryptData (iv @ [push_bit 6 KeyId] @ es @ rest) (8 + length data) r = Some (True, m, r') \<and> take (length data) m = data"
proof -
  let ?icv = "word_bytes 4 (RTMP_CALC_FCS32 0xffffffff data XOR 0xffffffff)"
  let ?m = "iv @ [push_bit 6 KeyId] @ es @ rest"
  let ?k = "iv @ take KeyLen Key @ drop (3 + KeyLen) (WEPKEY r)"
  have init: "ARCFOUR_INIT (iv @ take KeyLen Key @ ks) (KeyLen + 3) = ARCFOUR_INIT ?k (KeyLen + 3)"
    using assms by (intro ARCFOUR_INIT_key) auto
  have len: "length es = length data + 4" by (simp add: es del: word_bytes_numeral)
  have m: "?m ! 3 = push_bit 6 KeyId" "take 3 ?m = iv" "take (length data + 4) (drop 4 ?m) = es"
    using assms(6) len by (simp_all add: nth_append)
  obtain c' where dec: "ARCFOUR_DECRYPT (length data + 4) 0 4 (ARCFOUR_INIT ?k (KeyLen + 3)) ?m
      = ((data @ ?icv) @ drop (length data + 4) ?m, c')"
    using ARCFOUR_DECRYPT_moves [of 4 "length data + 4" ?m 0 "ARCFOUR_INIT ?k (KeyLen + 3)"] assms(6) len m(3)
    by (auto simp: ARCFOUR_ENCRYPT_twice es init Let_def simp del: word_bytes_numeral)
  show ?thesis using assms(1-6) len m(1,2) dec
    by (intro RTMPDecryptData_accepts) (simp_all add: add.commute del: word_bytes_numeral)
qed

text \<open>C15: a frame whose data are encrypted in any pieces, closed by the checksum, and received with the same key under the same
  number, is accepted, and the buffer then starts with the data; the state of both sides before, and what follows the frame in the
  buffer, do not matter.\<close>

theorem wep_round_trip:
  assumes "SharedKey r ! unat KeyId = (KeyLen, Key)" "KeyId < 4" "0 < KeyLen" "KeyLen \<le> 13" "length Key = 16" "length (WEPKEY r) = 16"
  shows "\<exists>frame w' m r'. wep_frame t0 t1 t2 Key KeyId KeyLen pieces w = Some (frame, w')
    \<and> length frame = 8 + length (concat pieces)
    \<and> RTMPDecryptData (frame @ rest) (length frame) r = Some (True, m, r')
    \<and> take (length (concat pieces)) m = concat pieces"
proof -
  obtain w' where f: "wep_frame t0 t1 t2 Key KeyId KeyLen pieces w = Some (wep_iv t0 t1 t2
      @ [push_bit 6 KeyId] @ fst (ARCFOUR_ENCRYPT (ARCFOUR_INIT (wep_iv t0 t1 t2
        @ take KeyLen Key @ drop (3 + KeyLen) (WEPKEY w)) (KeyLen + 3))
        (concat pieces @ word_bytes 4 (RTMP_CALC_FCS32 0xffffffff (concat pieces) XOR 0xffffffff))), w')"
    using wep_frame_eq [of KeyLen Key t0 t1 t2 KeyId pieces w] assms by blast
  from decrypt_of_frame [OF assms(1-5) _ assms(6) refl, of "wep_iv t0 t1 t2"
      "drop (3 + KeyLen) (WEPKEY w)" "concat pieces" rest]
  show ?thesis unfolding f by (auto simp: wep_iv_def simp del: word_bytes_numeral)
qed

theorem wep_round_trip_witness:
  "\<exists>frame w' m r'. auth_seq3_body 1 2 3 1 1 3 (replicate 128 9) demo_wep = Some (frame, w')
    \<and> length frame = 144
    \<and> RTMPDecryptData (frame @ []) (length frame) demo_wep = Some (True, m, r')
    \<and> take 136 m = [1, 0, 3, 0, 0, 0, 16, 128] @ replicate 128 9"
  using wep_round_trip [of demo_wep 1 5 "replicate 16 7" 1 2 3 "[word_bytes 2 (1 :: u16), word_bytes 2 (3 :: u16), word_bytes 2 (0 :: u16), [16, 128], replicate 128 9]" demo_wep "[]"]
  by (simp add: demo_wep_def auth_seq3_body_def)

end
