(* ===== verification/Spec2Isabelle.thy ===== *)
theory Spec2Isabelle
  imports Ring_Race Int_Module Sender Receiver Hooks Rules Registry Deaggregation Gps_Lassen Gps_Condor Sync_Proto Results_Reader Wep
begin

text \<open>
  MIAVITA samples geophones on ARM boards, sends the samples over an ad-hoc radio network, and writes them as JSON on a sink
  machine, where they are later checked.  A converter behind an FPGA interrupts the board; the handler reads the channels, stamps
  them with the time since the last GPS pulse and stores them in a ring; a kernel thread sends the ring as UDP datagrams; on the
  way a framework of netfilter hooks may aggregate them, and the radio driver corrects their timestamps from hop to hop; the sink
  writes a text record per packet, and the results reader reads the records back.

  \<^bold>\<open>Shared theories.\<close>
  \<^item> \<^verbatim>\<open>Mia_Prelude\<close>: C integers as words, byte order, decimal text as \<^verbatim>\<open>sprintf\<close> and \<^verbatim>\<open>atoi\<close> have it.
  \<^item> \<^verbatim>\<open>Fifo\<close>: the locale \<^verbatim>\<open>fifo\<close>, the contract of a first-in first-out store, interpreted by the sample ring and by the injection queue.
  \<^item> \<^verbatim>\<open>Codec\<close>: the locale \<^verbatim>\<open>byte_codec\<close>, the contract of a packed structure, interpreted by the packet and the sample in \<^verbatim>\<open>Packet\<close>
    (\<^verbatim>\<open>kernel_sender/miavita_packet.h\<close>, \<^verbatim>\<open>interruption/proc_entry.h\<close>).

  \<^bold>\<open>The board and the sink.\<close>
  \<^item> \<^verbatim>\<open>Circ_Buffer\<close> and \<^verbatim>\<open>Ring_Race\<close>: the ring of \<^verbatim>\<open>interruption/proc_entry.c\<close>, with 32-bit indices; that it refines a queue while it
    has room, what an overrun loses, and, as a step relation, its reader interrupted between any two statements.
  \<^item> \<^verbatim>\<open>Fpga\<close> and \<^verbatim>\<open>Int_Module\<close>: \<^verbatim>\<open>interruption/fpga.c\<close>, \<^verbatim>\<open>int.c\<close> and \<^verbatim>\<open>mem_addr.h\<close>; that register accesses arrive as
    asked on every device that keeps the rules \<^verbatim>\<open>spi_device\<close>, with any delays and refusals, the timestamps and sequence numbers of the samples, and the
    pulse that is lost.  The hardware is a record of functions; \<^verbatim>\<open>sim_mmio\<close> and \<^verbatim>\<open>slow_mmio\<close> are instances for the examples.
  \<^item> \<^verbatim>\<open>Sender\<close>: \<^verbatim>\<open>kernel_sender/sender_kthread.c\<close> and \<^verbatim>\<open>fake_sender/fake_sender.c\<close>; one datagram per sample, in order.
    A round reads the ring in one step, with interrupts between the rounds; interrupts during the read are the subject of \<^verbatim>\<open>Ring_Race\<close>.
    \<^verbatim>\<open>packet_of_sample\<close> and \<^verbatim>\<open>sample_datagram\<close> say what should be sent.
  \<^item> \<^verbatim>\<open>Receiver\<close>: \<^verbatim>\<open>kernel_sender/receiver/list.c\<close> and \<^verbatim>\<open>main.c\<close> and the channels of \<^verbatim>\<open>interruption/userland_reader.c\<close>; the text of a
    packet, its value, its length, and that it is written whole.

  \<^bold>\<open>The interceptor framework\<close> (\<^verbatim>\<open>fred_framework\<close>).
  \<^item> \<^verbatim>\<open>Klist\<close>, \<^verbatim>\<open>Chains\<close>, \<^verbatim>\<open>Hooks\<close>: \<^verbatim>\<open>klist.c\<close>, \<^verbatim>\<open>filter.c\<close>, \<^verbatim>\<open>chains.c\<close> and \<^verbatim>\<open>hooks.c\<close> on a heap of addresses; that filters
    are kept by priority and that the hooks give the first verdict of their chain.
  \<^item> \<^verbatim>\<open>Rules\<close> and \<^verbatim>\<open>Registry\<close>: \<^verbatim>\<open>rule.c\<close>, \<^verbatim>\<open>rule_manager.c\<close>, \<^verbatim>\<open>interceptor_manager.c\<close>, \<^verbatim>\<open>main.c\<close>, \<^verbatim>\<open>proc_registry.c\<close> and the commands of
    \<^verbatim>\<open>interceptor_shell\<close>; what removing a rule takes out, where it does not end, that a command
    arrives as typed, and the array of the kernel that one with a destination port overruns.
  \<^item> \<^verbatim>\<open>Byte_Buffer\<close>, \<^verbatim>\<open>Aggregation\<close>, \<^verbatim>\<open>Sl_Queue\<close>, \<^verbatim>\<open>Deaggregation\<close>: the files of \<^verbatim>\<open>interceptors/aggregation\<close> and \<^verbatim>\<open>interceptors/deaggregation\<close>;
    the invariant of the buffers, the queue, locks that deadlock, and the round trip of both interceptors.

  \<^bold>\<open>GPS\<close> (\<^verbatim>\<open>gps_time\<close>).  \<^verbatim>\<open>Gps_Ring\<close> holds the message buffer of both drivers and the locale \<^verbatim>\<open>gps_device\<close>, interpreted in
  \<^verbatim>\<open>Gps_Lassen\<close> (TSIP) and \<^verbatim>\<open>Gps_Condor\<close> (NMEA) on their own readers and handlers.  The threads are a step relation; shown are the
  framing of the stream, the answers to requests, the invariant of the state, and the callers that wait for ever.

  \<^bold>\<open>The radio driver\<close> (\<^verbatim>\<open>rt2501/sources/Module\<close>).
  \<^item> \<^verbatim>\<open>Sync_Filters\<close> and \<^verbatim>\<open>Sync_Proto\<close>: \<^verbatim>\<open>filter_chains.c\<close>, \<^verbatim>\<open>proc_filters.c\<close>, \<^verbatim>\<open>mkfilter.c\<close>, \<^verbatim>\<open>rmfilter.c\<close> and \<^verbatim>\<open>sync_proto.c\<close>; the
    timestamp over any number of hops, and the faults of the filter table.
  \<^item> \<^verbatim>\<open>Wep\<close>: \<^verbatim>\<open>rtmp_wep.c\<close>, \<^verbatim>\<open>RandomByte\<close> of \<^verbatim>\<open>mlme.c\<close> and the encrypted frame of \<^verbatim>\<open>auth.c\<close>; the table is that of the CRC-32, the
    state of the cipher is a permutation, a frame is decrypted to what was encrypted, and what the initialisation vectors are.

  \<^bold>\<open>The results reader\<close> (\<^verbatim>\<open>results/resultsReader\<close>, Java).  \<^verbatim>\<open>Java_Float\<close> is the arithmetic of the language, with binary32 rounded to
  even on rational numbers; \<^verbatim>\<open>Json_Reader\<close> is \<^verbatim>\<open>ReadJson.java\<close> and \<^verbatim>\<open>Sample.java\<close>, \<^verbatim>\<open>Outliers\<close> the sliding window and the check of
  \<^verbatim>\<open>App.java\<close>, \<^verbatim>\<open>Results_Reader\<close> is \<^verbatim>\<open>ReadMSeed.java\<close>, the options and \<^verbatim>\<open>main\<close>.

  \<^bold>\<open>This theory\<close> composes the components: from the words of the converter to the file of the sink, and from there to the samples of
  the results reader.

  \<^bold>\<open>Conventions.\<close>  An access outside of an object, a NULL pointer or a kernel oops is \<^term>\<open>None\<close>.  What the kernel, the hardware or a
  library decides is an argument: results of system calls in the order of the calls, the memory of the device, function pointers,
  Commons Collections and the miniSEED codec; laws used of them are hypotheses that an instance meets in the witness.  Loops are
  structural recursion, or functions with a measure, or \<^verbatim>\<open>partial_function\<close> where the code may run for ever; there a theorem
  says that a value is returned, or that there is none.  The loops over the events of a device run over the list of the events, and
  need no other bound.

  \<^bold>\<open>Not modelled.\<close>  The set-up of sockets, of the serial line and of modules as far as it only calls the system; messages printed for
  the user; the files under \<^verbatim>\<open>/proc\<close> of the framework that list its objects (\<^verbatim>\<open>fred_framework/proc_entry.c\<close>); \<^verbatim>\<open>init_counter.c\<close>, which
  calls the patched kernel; the test programs of the GPS drivers; the rest of the vendor's driver under \<^verbatim>\<open>rt2501\<close> (TKIP, the hashes and
  the state machines of the link among it); \<^verbatim>\<open>rt3070\<close>, \<^verbatim>\<open>wpa_supplicant\<close>, \<^verbatim>\<open>crosstool\<close>, \<^verbatim>\<open>ts7500ctl\<close> and \<^verbatim>\<open>iperf\<close>, which are
  third-party code; the scripts under \<^verbatim>\<open>tests\<close>, \<^verbatim>\<open>arm_scripts\<close>, \<^verbatim>\<open>clean\<close> and \<^verbatim>\<open>gnuplot\<close>; the experiments of \<^verbatim>\<open>old_stuff\<close>.
\<close>

section \<open>From the converter to the file\<close>

text \<open>The value the sink prints for the 24 bits \<^verbatim>\<open>n\<close> of a channel.\<close>

definition printed24 :: "nat \<Rightarrow> int" where
  "printed24 n = (if n = 0x800000 then 0x800000 else signed24 n)"

text \<open>The record the sink writes for a sample of the ring, in terms of the sample.\<close>

definition sample_record :: "sender_params \<Rightarrow> sample_t \<Rightarrow> string" where
  "sample_record prm s = (let d = data_bytes s in
     json_record (unat (ucast (node_id prm) :: u8)) (unat (s_seq_number s)) (unat (s_timestamp s))
       (map (\<lambda>k. printed24 (65536 * unat (d ! (3 * k)) + 256 * unat (d ! (3 * k + 1)) + unat (d ! (3 * k + 2))))
         [0, 1, 2, 3]))"

lemma packet_of_sample_ok: "sample_ok s \<Longrightarrow> packet_ok (packet_of_sample prm s)"
  by (simp add: packet_ok_def packet_of_sample_def)

lemma printed_word:
  "sint (sign_extend (sample_word b0 b1 b2)) = printed24 (65536 * unat b2 + 256 * unat b1 + unat b0)"
  using sign_extend_signed24 [OF sample_word_less, of b0 b1 b2] by (simp add: printed24_def unat_sample_word)

lemma channel_values:
  "map sint (map sign_extend (packet_channels p)) = map (\<lambda>k. printed24 (65536 * unat (p_samples p ! (3 * k))
     + 256 * unat (p_samples p ! (3 * k + 1)) + unat (p_samples p ! (3 * k + 2)))) [0, 1, 2, 3]"
  by (simp add: packet_channels_def Let_def printed_word numeral_2_eq_2)

lemma packet_text_sample: "packet_text (packet_of_sample prm s) = sample_record prm s"
  unfolding packet_text_def sample_record_def Let_def channel_values
  by (simp add: packet_of_sample_def ntohpkt_def swap_bytes_swap_bytes)

lemma sink_reads_sample:
  "sample_ok s \<Longrightarrow> packet_text (recv_packet (d_bytes (sample_datagram in_aton prm s))) = sample_record prm s"
  by (simp add: sample_datagram_def recv_packet_bytes packet_of_sample_ok packet_text_sample)

lemma unat_u16_bytes:
  fixes w :: u16
  shows "unat (drop_bit 8 w) mod 256 = unat w div 256" "unat (ucast w :: u8) = unat w mod 256"
proof -
  have less: "unat w < 2 ^ LENGTH(16)" by (rule unsigned_less)
  then have "take_bit 16 (unat w) = unat w" "unat w div 256 < 256" by (simp_all add: take_bit_nat_eq_self)
  then show "unat (drop_bit 8 w) mod 256 = unat w div 256"
    unfolding unsigned_drop_bit_eq by (simp add: drop_bit_eq_div)
  show "unat (ucast w :: u8) = unat w mod 256"
    by (simp add: unsigned_ucast_eq take_bit_eq_mod)
qed

lemma sample_record_words:
  "sample_record prm (mk_sample (words_of_bytes (channel_bytes a b c d e f)) ts q) = json_record (unat (ucast (node_id prm) :: u8)) (unat q) (unat ts)
     (map printed24 [256 * unat a + unat b div 256, 65536 * (unat b mod 256) + unat c,
       256 * unat d + unat e div 256, 65536 * (unat e mod 256) + unat f])"
proof -
  let ?s = "mk_sample (words_of_bytes (channel_bytes a b c d e f)) ts q"
  have len: "length (channel_bytes a b c d e f) = 12" by (simp add: channel_bytes_def Let_def)
  have "s_data ?s = words_of_bytes (channel_bytes a b c d e f)"
    by (simp add: mk_sample_def words_of_bytes_def)
  then have data: "data_bytes ?s = channel_bytes a b c d e f"
    using words_of_bytes_bytes [OF len] by (simp add: data_bytes_def)
  have sel: "s_seq_number ?s = q" "s_timestamp ?s = ts" by (simp_all add: mk_sample_def)
  have pair: "65536 * (unat v div 256) + 256 * (unat v mod 256) + k = 256 * unat v + k"
    "65536 * k + 256 * (unat v div 256) + unat v mod 256 = 65536 * k + unat v" for v :: u16 and k
    using div_mult_mod_eq [of "unat v" 256] by linarith+
  show ?thesis
    unfolding sample_record_def Let_def data sel unfolding channel_bytes_value
    by (simp add: unat_u16_bytes pair numeral_2_eq_2)
qed

text \<open>The round of the sender after one sample came to an empty ring.\<close>

lemma round_sends_one:
  assumes "ring_ok (sn_ring st)" "pending (sn_ring st) = []" "\<forall>n. mem_ok n" "\<forall>i. outcome i = (True, True)"
  shows "sent (sender_round in_aton prm mem_ok outcome (st\<lparr>sn_ring := write_to_buffer v ts q (sn_ring st)\<rparr>))
    = sent st @ [sample_datagram in_aton prm (mk_sample v ts q)]"
proof -
  let ?r = "write_to_buffer v ts q (sn_ring st)"
  have u: "unread (sn_ring st) = 0" using assms(2) length_pending [of "sn_ring st"] by simp
  have r: "ring_ok ?r" "pending ?r = [mk_sample v ts q]"
    using assms(1,2) u by (simp_all add: pending_write CIRC_BUF_SIZE_def)
  then have "fst (ring_take mem_ok ?r) = [mk_sample v ts q]"
    using assms(3) by (simp add: ring_take_def read_nsamples_ok)
  then show ?thesis
    using sender_round_sends(2) [of "st\<lparr>sn_ring := ?r\<rparr>" in_aton prm mem_ok outcome] r(1) assms(4) by simp
qed

text \<open>C2: a conversion survives the whole way. The six words the FPGA delivers are read, stored in the ring with a timestamp and a
  number, read by the sender thread, packed and sent; the sink makes of the datagram a record with the node, the number, the timestamp
  and the four 24-bit channels cut from the words (a and the high byte of b, the low byte of b and c, d and the high byte of e, the low byte
  of e and f), each as its two's complement value, but for 0x800000, which is printed as +8388608.\<close>

theorem conversion_reaches_the_file:
  assumes "peek16 hw io 0x4A d0 = Some (a, d1)" "peek16 hw io 0x4A d1 = Some (b, d2)" "peek16 hw io 0x4A d2 = Some (c, d3)"
    and "peek16 hw io 0x4A d3 = Some (d, d4)" "peek16 hw io 0x4A d4 = Some (e, d5)" "peek16 hw io 0x4C d5 = Some (f, d6)"
    and "ring_ok (sn_ring st)" "pending (sn_ring st) = []" "\<forall>n. mem_ok n" "\<forall>i. outcome i = (True, True)"
  shows "\<exists>v dg. read_four_channels hw io d0 = Some (v, d6) \<and>
    sent (sender_round in_aton prm mem_ok outcome (st\<lparr>sn_ring := write_to_buffer v ts q (sn_ring st)\<rparr>)) = sent st @ [dg] \<and>
    packet_text (recv_packet (d_bytes dg)) = json_record (unat (ucast (node_id prm) :: u8)) (unat q) (unat ts)
      (map printed24 [256 * unat a + unat b div 256, 65536 * (unat b mod 256) + unat c,
        256 * unat d + unat e div 256, 65536 * (unat e mod 256) + unat f])"
proof -
  let ?v = "words_of_bytes (channel_bytes a b c d e f)"
  have "read_four_channels hw io d0 = Some (?v, d6)" using assms(1-6) by (simp add: read_four_channels_def)
  moreover have "sample_ok (mk_sample ?v ts q)" by (simp add: sample_ok_def mk_sample_def)
  note sink_reads_sample [OF this, of in_aton prm]
  ultimately show ?thesis
    using round_sends_one [OF assms(7-10), of in_aton prm ?v ts q] by (auto simp: sample_record_words)
qed

theorem conversion_reaches_the_file_witness:
  "\<exists>v d6 dg. read_four_channels (sim_mmio board_io) board_io (sim0\<lparr>sim_regs := (\<lambda>a. if a = 0x4A then 0xF102 else 7)\<rparr>) = Some (v, d6) \<and>
    sent (sender_round (\<lambda>ip. 0x0100007F) default_params (\<lambda>n. True) (\<lambda>i. (True, True)) (sender0\<lparr>sn_ring := write_to_buffer v 20 3 (sn_ring sender0)\<rparr>)) = [dg] \<and>
    packet_text (recv_packet (d_bytes dg)) = json_record 0 3 20 [- 982287, 192770, - 982287, 131079]"
proof -
  let ?d = "sim0\<lparr>sim_regs := (\<lambda>a. if a = 0x4A then 0xF102 else 7)\<rparr>"
  let ?p = "\<lambda>d :: fpga_sim. d\<lparr>sim_latch := a15_a16_addr_register 0x4A\<rparr>"
  have pk: "peek16 (sim_mmio board_io) board_io 0x4A d = Some (sim_regs d 0x4A, ?p d)" "peek16 (sim_mmio board_io) board_io 0x4C d
      = Some (sim_regs d 0x4C, d\<lparr>sim_latch := a15_a16_addr_register 0x4C\<rparr>)" if "sim_rx d = None" for d
    using that by (simp_all add: sim_peek)
  have rx: "sim_rx ?d = None" "sim_rx (?p d) = sim_rx d" for d by (simp_all add: sim0_def)
  have s0: "ring_ok (sn_ring sender0)" "pending (sn_ring sender0) = []" "sent sender0 = []" by (simp_all add: sender0_def)
  from conversion_reaches_the_file [OF pk(1) pk(1) pk(1) pk(1) pk(1) pk(2), of ?d sender0 "\<lambda>n. True" "\<lambda>i. (True, True)" "\<lambda>ip. 0x0100007F" default_params 20 3] rx s0
  show ?thesis by (fastforce simp: default_params_def printed24_def signed24_def)
qed

text \<open>The file the sink writes for a list of samples.\<close>

fun records :: "sender_params \<Rightarrow> bool \<Rightarrow> sample_t list \<Rightarrow> string" where
  "records prm first [] = []"
| "records prm first (s # ss) =
     (if first then [NL] else [CHR '','', NL]) @ sample_record prm s @ records prm True ss"

lemma serve_text_records:
  "\<forall>s\<in>set ss. sample_ok s \<Longrightarrow>
    serve_text first (map (\<lambda>s. d_bytes (sample_datagram in_aton prm s)) ss) = records prm first ss"
  by (induction ss arbitrary: first) (simp_all add: sink_reads_sample)

lemma sample_datagram_nonempty: "d_bytes (sample_datagram in_aton prm s) \<noteq> []"
  by (simp add: sample_datagram_def packet_bytes_def)

lemma ring_elem_ok [simp]: "sample_ok (ring_elem x)"
  by (simp add: ring_elem_def mk_sample_def sample_ok_def case_prod_unfold)

lemma pipeline_file:
  assumes "ring_ok (sn_ring st)" "pending (sn_ring st) = []" "sent st = []"
    and "\<forall>ev\<in>set evs. lossless ev"
    and "has_room ring_room ring_put ring_take (ring_events evs) (sn_ring st)"
    and "st' = main_loop in_aton prm True True evs st" "pending (sn_ring st') = []"
    and "ds = map d_bytes (sent st')"
  shows "serve (Some fd) (map Datagram ds) (1 # serve_results False ds, [])
    = Some (False, [], ''{'' @ records prm False (map ring_elem (written (ring_events evs))))"
    "ds = map (\<lambda>s. d_bytes (sample_datagram in_aton prm s)) (map ring_elem (written (ring_events evs)))"
proof -
  let ?ss = "map ring_elem (written (ring_events evs))"
  have ring: "sn_ring st' = snd (fifo_run ring_put ring_take (ring_events evs) (sn_ring st))"
    and net: "sent st' = map (sample_datagram in_aton prm)
      (fst (fifo_run ring_put ring_take (ring_events evs) (sn_ring st)))"
    using sender_loop_ring [OF assms(1,4), of in_aton prm] assms(3,6) by (simp_all add: main_loop_def)
  have "fst (fifo_run ring_put ring_take (ring_events evs) (sn_ring st)) = ?ss"
    using sample_ring.run_order [OF assms(1,5)] assms(2,7) ring by simp
  then show ds: "ds = map (\<lambda>s. d_bytes (sample_datagram in_aton prm s)) ?ss"
    using assms(8) net by simp
  then have "\<forall>d\<in>set ds. d \<noteq> []"
    by (auto simp: sample_datagram_nonempty)
  then have "serve (Some fd) (map Datagram ds) (1 # serve_results False ds, [])
      = Some (False, [], ''{'' @ serve_text False ds)"
    using serve_loop_text [of ds False "[]" "''{''"] by (simp add: serve_def open_output_files_def)
  also have "serve_text False ds = records prm False ?ss"
    unfolding ds by (rule serve_text_records) simp
  finally show "serve (Some fd) (map Datagram ds) (1 # serve_results False ds, [])
    = Some (False, [], ''{'' @ records prm False ?ss)" .
qed

text \<open>C1: the whole pipeline. From an empty ring and an idle network, whatever the
  schedule of interrupts and reads, if the ring never overruns, the sender loses no packet and has
  drained the ring, and the network delivers the datagrams in order, then the sink writes the
  records of exactly the samples the handler stored, in the order it stored them.\<close>

theorem pipeline_delivers_every_sample:
  assumes "ring_ok (sn_ring st)" "pending (sn_ring st) = []" "sent st = []"
    and "\<forall>ev\<in>set evs. lossless ev"
    and "has_room ring_room ring_put ring_take (ring_events evs) (sn_ring st)"
    and "st' = main_loop in_aton prm True True evs st" "pending (sn_ring st') = []"
    and "ds = map d_bytes (sent st')"
  shows "serve (Some fd) (map Datagram ds) (1 # serve_results False ds, [])
    = Some (False, [], ''{'' @ records prm False (map ring_elem (written (ring_events evs))))"
  by (rule pipeline_file(1) [OF assms])

definition demo_events :: "sender_event list" where
  "demo_events = [Adc [1, 2, 3] 10 1, Adc [4, 5, 6] 20 2, Round (\<lambda>n. True) (\<lambda>i. (True, True)), Should_stop]"

lemma demo_events_ok:
  "has_room ring_room ring_put ring_take (ring_events demo_events) (sn_ring sender0)"
  "pending (sn_ring (main_loop (\<lambda>ip. 0x0100007F) default_params True True demo_events sender0)) = []"
proof -
  let ?two = "write_to_buffer [4, 5, 6] 20 2 (write_to_buffer [1, 2, 3] 10 1 ring0)"
  show "has_room ring_room ring_put ring_take (ring_events demo_events) (sn_ring sender0)"
    by (simp add: demo_events_def sender0_def ring_room_def ring_put_def unread_write CIRC_BUF_SIZE_def)
  have "snd (ring_take (\<lambda>n. True) ?two) = ?two\<lparr>last_read := last_write ?two\<rparr>"
    by (simp add: ring_take_def read_nsamples_ok pending_write unread_write CIRC_BUF_SIZE_def)
  then show "pending (sn_ring (main_loop (\<lambda>ip. 0x0100007F) default_params True True demo_events sender0)) = []"
    by (simp add: demo_events_def main_loop_def sender0_def sender_round_sends pending_def)
qed

theorem pipeline_delivers_every_sample_witness:
  "\<exists>ds. serve (Some 3) (map Datagram ds) (1 # serve_results False ds, [])
    = Some (False, [], ''{'' @ records default_params False [mk_sample [1, 2, 3] 10 1, mk_sample [4, 5, 6] 20 2])"
proof -
  let ?st = "main_loop (\<lambda>ip. 0x0100007F) default_params True True demo_events sender0"
  from pipeline_delivers_every_sample [of sender0 demo_events ?st "\<lambda>ip. 0x0100007F" default_params _ 3, OF _ _ _ _ demo_events_ok(1) refl demo_events_ok(2) refl]
  show ?thesis
    by (intro exI [of _ "map d_bytes (sent ?st)"]) (simp add: sender0_def demo_events_def ring_elem_def)
qed

text \<open>The time and the value the results reader gives a sample of the ring, on channel \<^verbatim>\<open>c\<close> from 0.\<close>

definition reader_sample :: "nat \<Rightarrow> sample_t \<Rightarrow> int \<times> jfloat" where
  "reader_sample c s = (let d = data_bytes s in (int (unat (s_timestamp s) div 1000) - 3600000,
     Fin (of_int (printed24 (65536 * unat (d ! (3 * c)) + 256 * unat (d ! (3 * c + 1)) + unat (d ! (3 * c + 2)))))))"

lemma packet_sample_reader:
  assumes "sample_ok s" "c < 4"
  shows "packet_sample c (recv_packet (d_bytes (sample_datagram in_aton prm s))) = reader_sample c s"
proof -
  let ?p = "packet_of_sample prm s"
  have recv: "recv_packet (d_bytes (sample_datagram in_aton prm s)) = ?p"
    by (simp add: sample_datagram_def recv_packet_bytes packet_of_sample_ok assms(1))
  have "length (packet_channels ?p) = 4" by (simp add: packet_channels_def Let_def)
  then have "sint (sign_extend (packet_channels ?p ! c)) = map sint (map sign_extend (packet_channels ?p)) ! c" using assms(2) by simp
  moreover have "[0, 1, 2, 3] ! c = c" using assms(2) by (auto simp: nth_Cons split: nat.splits)
  then have "map sint (map sign_extend (packet_channels ?p)) ! c = printed24 (65536 * unat (p_samples ?p ! (3 * c)) +
      256 * unat (p_samples ?p ! (3 * c + 1)) + unat (p_samples ?p ! (3 * c + 2)))"
    unfolding channel_values using assms(2) by (subst nth_map) simp_all
  ultimately have v: "sint (sign_extend (packet_channels ?p ! c)) = printed24 (65536 * unat (data_bytes s ! (3 * c)) +
      256 * unat (data_bytes s ! (3 * c + 1)) + unat (data_bytes s ! (3 * c + 2)))" by (simp add: packet_of_sample_def)
  have "p_timestamp (ntohpkt ?p) = s_timestamp s" by (simp add: packet_of_sample_def ntohpkt_def swap_bytes_swap_bytes)
  then show ?thesis by (simp add: recv v packet_sample_def reader_sample_def Let_def)
qed

text \<open>C3: The samples reach the reader of the results. Under the conditions of the pipeline, with at least two samples, the file of the sink is one from
  which the results reader gets, for every sample the handler stored and no other, its time in milliseconds less an hour
  and the printed value of the chosen channel (+8388608 for 0x800000), numbered in the order of the interrupts and sorted by time.\<close>

theorem samples_reach_the_reader:
  assumes "ring_ok (sn_ring st)" "pending (sn_ring st) = []" "sent st = []"
    and "\<forall>ev\<in>set evs. lossless ev"
    and "has_room ring_room ring_put ring_take (ring_events evs) (sn_ring st)"
    and "st' = main_loop in_aton prm True True evs st" "pending (sn_ring st') = []"
    and "ds = map d_bytes (sent st')"
    and "c < 4" "2 \<le> length (written (ring_events evs))"
  shows "\<exists>file sps n'. serve (Some fd) (map Datagram ds) (1 # serve_results False ds, []) = Some (False, [], file) \<and>
    getAllSamples (int c + 1) (Some file) 0 =
      Inr (sps, sort_key js_ts (number_samples 0 (map (reader_sample c \<circ> ring_elem) (written (ring_events evs)))), n')"
proof -
  let ?ss = "map ring_elem (written (ring_events evs))"
  note pipe = pipeline_file [OF assms(1-8)]
  have "map (packet_sample c \<circ> recv_packet) ds = map (reader_sample c) ?ss"
    unfolding pipe(2) using assms(9) by (simp add: packet_sample_reader)
  moreover have "''{'' @ records prm False ?ss = ''{'' @ serve_text False ds"
    unfolding pipe(2) by (subst serve_text_records) simp_all
  moreover have "2 \<le> length ds" unfolding pipe(2) using assms(10) by simp
  note getAllSamples_file [OF assms(9) this, of 0]
  ultimately show ?thesis using pipe(1) by auto
qed

theorem samples_reach_the_reader_witness:
  "\<exists>ds file sps n'. serve (Some 3) (map Datagram ds) (1 # serve_results False ds, []) = Some (False, [], file) \<and>
    getAllSamples 2 (Some file) 0 =
      Inr (sps, sort_key js_ts (number_samples 0 (map (reader_sample 1) [mk_sample [1, 2, 3] 10 1, mk_sample [4, 5, 6] 20 2])), n')"
proof -
  let ?st = "main_loop (\<lambda>ip. 0x0100007F) default_params True True demo_events sender0"
  from samples_reach_the_reader [of sender0 demo_events ?st "\<lambda>ip. 0x0100007F" default_params _ 1 3, OF _ _ _ _ demo_events_ok(1) refl demo_events_ok(2) refl]
  have "\<exists>file sps n'. serve (Some 3) (map Datagram (map d_bytes (sent ?st))) (1 # serve_results False (map d_bytes (sent ?st)), []) = Some (False, [], file) \<and>
    getAllSamples 2 (Some file) 0 =
      Inr (sps, sort_key js_ts (number_samples 0 (map (reader_sample 1 \<circ> ring_elem) (written (ring_events demo_events)))), n')"
    by (simp add: sender0_def demo_events_def)
  moreover have "map (reader_sample 1 \<circ> ring_elem) (written (ring_events demo_events)) =
      map (reader_sample 1) [mk_sample [1, 2, 3] 10 1, mk_sample [4, 5, 6] 20 2]" by (simp add: demo_events_def ring_elem_def)
  ultimately show ?thesis by (metis (lifting))
qed

section \<open>From the aggregation to the deaggregation interceptor\<close>

text \<open>Packets pushed one after the other to the buffer of their destination, with the verdicts.\<close>

primrec push_packets ::
  "(nat \<Rightarrow> nat \<Rightarrow> bool) \<Rightarrow> u32 \<Rightarrow> aggregate_buffer \<Rightarrow> sk_buff list \<Rightarrow> ((u32 \<times> sk_buff option) list \<times> aggregate_buffer) option"
where
  "push_packets expand ifa b [] = Some ([], b)"
| "push_packets expand ifa b (skb # skbs) = do {
     (v, s, b) \<leftarrow> push_ip_packet False expand ifa b skb;
     (vs, b) \<leftarrow> push_packets expand ifa b skbs;
     Some ((v, s) # vs, b) }"

lemma push_packets_append:
  "push_packets expand ifa b (xs @ ys) = do { (us, b) \<leftarrow> push_packets expand ifa b xs; (vs, b) \<leftarrow> push_packets expand ifa b ys; Some (us @ vs, b) }"
  by (induction xs arbitrary: b) (auto simp: case_prod_unfold split: bind_splits)

lemma push_packets_stored:
  assumes "buffer_holds b ps" "\<forall>s\<in>set skbs. agg_packet (sk_data s)" "\<forall>i j. expand i j"
    and "length (concat ps) + length (concat (map sk_data skbs)) < buffer_size b" "length (concat ps) + length (concat (map sk_data skbs)) + 20 < 2 ^ 16"
  shows "\<exists>b'. push_packets expand ifa b skbs = Some (replicate (length skbs) (NF_STOLEN, None), b') \<and>
    buffer_holds b' (ps @ map sk_data skbs) \<and> buffer_size b' = buffer_size b \<and> ab_ip b' = ab_ip b"
  using assms
proof (induction skbs arbitrary: b ps)
  case (Cons s skbs)
  have s: "agg_packet (sk_data s)" "length (concat ps) + length (sk_data s) < buffer_size b" "length (concat ps) + length (sk_data s) + 20 < 2 ^ 16"
    using Cons.prems by simp_all
  obtain b1 where b1: "push_ip_packet False expand ifa b s = Some (NF_STOLEN, None, b1)" "buffer_holds b1 (ps @ [sk_data s])"
    "buffer_size b1 = buffer_size b" "ab_ip b1 = ab_ip b"
    using push_ip_packet_step [OF Cons.prems(1) s(1) refl Cons.prems(3) s(3), where ifa = ifa] s(2) by auto
  obtain b' where "push_packets expand ifa b1 skbs = Some (replicate (length skbs) (NF_STOLEN, None), b')"
    "buffer_holds b' ((ps @ [sk_data s]) @ map sk_data skbs)" "buffer_size b' = buffer_size b1" "ab_ip b' = ab_ip b1"
    using Cons.IH [OF b1(2) _ Cons.prems(3)] Cons.prems(2,4,5) b1(3) by auto
  with b1 show ?case by simp
qed simp

text \<open>C8: A sequence of packets through both interceptors. Packets to one destination are pushed to its empty buffer;
  the last one no longer fits. All but the last are taken; what leaves instead of the last is one packet, and a host that receives it sends on, through the
  injection thread, every packet of the sequence, in the order they were pushed, with cleared UDP checksums and the timestamps described for the
  deaggregation.\<close>

theorem aggregation_round_trip:
  assumes "buffer_holds b []" "\<forall>s\<in>set (skbs @ [skb]). agg_packet (sk_data s)" "\<forall>i j. expand i j"
    and "length (concat (map sk_data skbs)) < buffer_size b" "buffer_size b \<le> length (concat (map sk_data (skbs @ [skb])))"
    and "20 + length (concat (map sk_data (skbs @ [skb]))) < 2 ^ 16" "length skbs < MAX_SCATTERS"
    and "inj_rep st []" "inj_memory (Suc (length skbs)) st"
  shows "\<exists>out b'. push_packets expand ifa b (skbs @ [skb]) = Some (replicate (length skbs) (NF_STOLEN, None) @ [(NF_ACCEPT, Some out)], b') \<and>
    buffer_data b' = [] \<and>
    (\<forall>rx. sk_has_net rx \<and> sk_data rx = sk_data out \<longrightarrow>
      (\<exists>st' st''. deaggregation_local_in_hook (Some rx) st = Some (NF_STOLEN, None, st') \<and>
        ((\<lambda>so. Option.bind so injector_step) ^^ Suc (length skbs)) (Some st') = Some st'' \<and>
        inj_sent st'' = inj_sent st @ recovered (map sk_data (skbs @ [skb]))))"
proof -
  let ?ps = "map sk_data skbs" let ?all = "map sk_data (skbs @ [skb])"
  have ok: "\<forall>p\<in>set ?all. agg_packet p" and q: "agg_packet (sk_data skb)" using assms(2) by auto
  obtain b1 where b1: "push_packets expand ifa b skbs = Some (replicate (length skbs) (NF_STOLEN, None), b1)" "buffer_holds b1 ?ps"
    "buffer_size b1 = buffer_size b" "ab_ip b1 = ab_ip b"
    using push_packets_stored [OF assms(1) _ assms(3), of skbs ifa] assms(2,4,6) by auto
  obtain out b' where f: "push_ip_packet False expand ifa b1 skb = Some (NF_ACCEPT, Some out, b')" "buffer_holds b' []"
    "sk_data out = encap_header (of_nat (20 + length (concat ?all))) AGREGATED_IP_ENCAP_IP_PROTO ifa (ab_ip b1) @ concat (rev (deltas ?all))"
    using push_ip_packet_step [OF b1(2) q refl assms(3), where ifa = ifa] assms(5,6) b1(3) by auto
  have "\<exists>st' st''. deaggregation_local_in_hook (Some rx) st = Some (NF_STOLEN, None, st') \<and>
        ((\<lambda>so. Option.bind so injector_step) ^^ Suc (length skbs)) (Some st') = Some st'' \<and> inj_sent st'' = inj_sent st @ recovered ?all"
    if rx: "sk_has_net rx" "sk_data rx = sk_data out" for rx
  proof -
    have "?all \<noteq> []" "length ?all \<le> MAX_SCATTERS" "inj_memory (length ?all) st" using assms(7,9) by simp_all
    from deaggregation_hook_packets [OF ok this(1,2) assms(6) rx(1) _ assms(8) this(3)] rx(2) f(3)
    obtain st' where st': "deaggregation_local_in_hook (Some rx) st = Some (NF_STOLEN, None, st')" "inj_sent st' = inj_sent st" "inj_rep st' (recovered ?all)"
      by auto
    from injector_drains [OF st'(3) recovered_packets [OF ok]] st'(1,2) show ?thesis by auto
  qed
  then show ?thesis using b1(1) f(1,2) by (auto simp: push_packets_append buffer_holds_def)
qed

theorem aggregation_round_trip_witness:
  "\<exists>out b'. push_packets (\<lambda>_ _. True) 7 (demo_buffer 100 []) [demo_skb (demo_packet 5), demo_skb (demo_packet 9), demo_skb (demo_packet 12)]
      = Some ([(NF_STOLEN, None), (NF_STOLEN, None), (NF_ACCEPT, Some out)], b') \<and>
    (\<exists>st' st''. deaggregation_local_in_hook (Some (demo_skb (sk_data out))) demo_inj = Some (NF_STOLEN, None, st') \<and>
      ((\<lambda>so. Option.bind so injector_step) ^^ 3) (Some st') = Some st'' \<and> inj_sent st'' = recovered [demo_packet 5, demo_packet 9, demo_packet 12])"
proof -
  let ?skbs = "[demo_skb (demo_packet 5), demo_skb (demo_packet 9)]" let ?skb = "demo_skb (demo_packet 12)"
  have d: "sk_data (demo_skb p) = p" "sk_has_net (demo_skb p)" for p by (simp_all add: demo_skb_def)
  have b: "buffer_holds (demo_buffer 100 []) []" "buffer_size (demo_buffer 100 []) = 100" using demo_buffer_holds [of "[]" 100] by simp_all
  have "inj_memory (Suc (length ?skbs)) demo_inj" using demo_inj_ok(2) by (simp add: numeral_3_eq_3)
  then obtain out b' where o: "push_packets (\<lambda>_ _. True) 7 (demo_buffer 100 []) (?skbs @ [?skb]) = Some (replicate (length ?skbs) (NF_STOLEN, None) @ [(NF_ACCEPT, Some out)], b')"
    "\<forall>rx. sk_has_net rx \<and> sk_data rx = sk_data out \<longrightarrow>
      (\<exists>st' st''. deaggregation_local_in_hook (Some rx) demo_inj = Some (NF_STOLEN, None, st') \<and>
        ((\<lambda>so. Option.bind so injector_step) ^^ Suc (length ?skbs)) (Some st') = Some st'' \<and>
        inj_sent st'' = inj_sent demo_inj @ recovered (map sk_data (?skbs @ [?skb])))"
    using aggregation_round_trip [of "demo_buffer 100 []" ?skbs ?skb "\<lambda>_ _. True" demo_inj 7] demo_packet_ok demo_inj_ok(1) b
    by (auto simp: d MAX_SCATTERS_def)
  have n: "Suc (length ?skbs) = 3" "inj_sent demo_inj = []" by (simp_all add: demo_inj_def)
  from o(1) o(2) [rule_format, of "demo_skb (sk_data out)"] show ?thesis unfolding n by (simp add: d)
qed

end
